(* ===== verification/Prelude.thy ===== *)
theory Prelude
  imports Main "HOL-Library.Word" "HOL-Library.List_Lexorder" "HOL-Library.Char_ord"
    "HOL-Library.Sublist" "HOL-Library.Multiset" "HOL-Library.AList"
    "HOL-Library.Monad_Syntax"
begin

text \<open>
  What every component shares: the machine types of the program, the algorithms of the C++
  standard library that the source calls (\<open>std::lower_bound\<close>, \<open>std::upper_bound\<close>,
  \<open>std::rotate\<close>, \<open>std::find_if\<close> followed by \<open>erase\<close>, \<open>std::stoi\<close>), and the
  generic facts about lists that the component proofs use.
\<close>

unbundle bit_operations_syntax

section \<open>Machine types\<close>

text \<open>
  \<open>int\<close> is 32 bits wide, \<open>long int\<close> and \<open>std::chrono::seconds\<close> 64 bits (x86-64 Linux),
  \<open>code_type\<close> is \<open>std::uint64_t\<close>. A \<open>std::string\<close> is a list of bytes; the order of strings
  is the lexicographic order of unsigned bytes, as \<open>std::char_traits\<close> compares them.
\<close>

type_synonym c_int = "32 word"
type_synonym c_long = "64 word"
type_synonym u64 = "64 word"
type_synonym byte = "8 word"

section \<open>Algorithms of the standard library\<close>

text \<open>
  The halving search behind \<open>std::lower_bound\<close> and \<open>std::upper_bound\<close>: the first position of
  the range of \<open>len\<close> elements starting at \<open>first\<close> whose element does not satisfy \<open>P\<close>.
\<close>

function bsearch :: "('a \<Rightarrow> bool) \<Rightarrow> 'a list \<Rightarrow> nat \<Rightarrow> nat \<Rightarrow> nat" where
  "bsearch P xs first len =
     (if len = 0 then first
      else let half = len div 2; mid = first + half
           in if P (xs ! mid) then bsearch P xs (Suc mid) (len - half - 1)
              else bsearch P xs first half)"
  by pat_completeness auto
termination
  by (relation "measure (\<lambda>(P, xs, first, len). len)") auto

declare bsearch.simps [simp del]

definition std_lower_bound :: "('a \<Rightarrow> 'a \<Rightarrow> bool) \<Rightarrow> 'a list \<Rightarrow> 'a \<Rightarrow> nat" where
  "std_lower_bound cmp xs v = bsearch (\<lambda>x. cmp x v) xs 0 (length xs)"

definition std_upper_bound :: "('a \<Rightarrow> 'a \<Rightarrow> bool) \<Rightarrow> 'a list \<Rightarrow> 'a \<Rightarrow> nat" where
  "std_upper_bound cmp xs v = bsearch (\<lambda>x. \<not> cmp v x) xs 0 (length xs)"

text \<open>\<open>std::rotate(point, prev, end)\<close>: the ranges \<open>[point, prev)\<close> and \<open>[prev, end)\<close> swap.\<close>

definition std_rotate :: "nat \<Rightarrow> nat \<Rightarrow> 'a list \<Rightarrow> 'a list" where
  "std_rotate point prev xs = take point xs @ drop prev xs @ drop point (take prev xs)"

text \<open>\<open>std::find_if\<close> as the position of the first match, \<open>None\<close> for \<open>end()\<close>.\<close>

fun std_find_if :: "('a \<Rightarrow> bool) \<Rightarrow> 'a list \<Rightarrow> nat option" where
  "std_find_if P [] = None"
| "std_find_if P (x # xs) = (if P x then Some 0 else map_option Suc (std_find_if P xs))"

definition erase_at :: "nat \<Rightarrow> 'a list \<Rightarrow> 'a list" where
  "erase_at i xs = take i xs @ drop (Suc i) xs"

text \<open>
  \<open>s.substr(pos, n)\<close>, \<open>None\<close> where it throws \<open>std::out_of_range\<close>, and the bytes of a
  C string: those before the first NUL.
\<close>

definition std_substr :: "'a list \<Rightarrow> nat \<Rightarrow> nat \<Rightarrow> 'a list option" where
  "std_substr s pos n = (if pos \<le> length s then Some (take n (drop pos s)) else None)"

definition c_str :: "string \<Rightarrow> string" where
  "c_str s = takeWhile (\<lambda>c. c \<noteq> CHR 0x00) s"

text \<open>
  \<open>std::stoi\<close> in base ten: leading white space, an optional sign, then as many digits as there
  are. No digit is \<open>std::invalid_argument\<close>, a value outside \<open>int\<close> is \<open>std::out_of_range\<close>;
  both are \<open>None\<close>.
\<close>

definition c_isspace :: "char \<Rightarrow> bool" where
  "c_isspace c \<longleftrightarrow> c = CHR '' '' \<or> (9 \<le> (of_char c :: nat) \<and> (of_char c :: nat) \<le> 13)"

definition c_isdigit :: "char \<Rightarrow> bool" where
  "c_isdigit c \<longleftrightarrow> 48 \<le> (of_char c :: nat) \<and> (of_char c :: nat) \<le> 57"

definition digits_val :: "string \<Rightarrow> int" where
  "digits_val ds = foldl (\<lambda>n d. 10 * n + (of_char d - 48)) 0 ds"

definition std_stoi :: "string \<Rightarrow> c_int option" where
  "std_stoi s =
     (let t = dropWhile c_isspace s;
          neg = (t \<noteq> [] \<and> hd t = CHR ''-'');
          u = (if t \<noteq> [] \<and> (hd t = CHR ''-'' \<or> hd t = CHR ''+'') then tl t else t);
          ds = takeWhile c_isdigit u;
          n = (if neg then - digits_val ds else digits_val ds)
      in if ds = [] then None
         else if n < - (2 ^ 31) \<or> 2 ^ 31 - 1 < n then None
         else Some (word_of_int n))"

text \<open>Decimal output of an integer, \<open>os << n\<close> and \<open>std::to_string(n)\<close>.\<close>

fun show_nat :: "nat \<Rightarrow> string" where
  "show_nat n =
     (if n < 10 then [char_of (48 + n)] else show_nat (n div 10) @ [char_of (48 + n mod 10)])"

declare show_nat.simps [simp del]

definition show_int :: "c_int \<Rightarrow> string" where
  "show_int w =
     (if sint w < 0 then CHR ''-'' # show_nat (nat (- sint w)) else show_nat (nat (sint w)))"

section \<open>Facts about the algorithms\<close>

lemma bsearch_partitioned:
  assumes "\<forall>i < length xs. P (xs ! i) \<longleftrightarrow> i < k"
    and "first \<le> k" "k \<le> first + len" "first + len \<le> length xs"
  shows "bsearch P xs first len = k"
  using assms
proof (induction P xs first len rule: bsearch.induct)
  case (1 P xs first len)
  show ?case
  proof (cases "len = 0")
    case True
    with "1.prems" show ?thesis by (simp add: bsearch.simps)
  next
    case False
    define mid where "mid = first + len div 2"
    have mid: "mid < length xs" using "1.prems"(4) False by (simp add: mid_def)
    show ?thesis
    proof (cases "P (xs ! mid)")
      case True
      then have "mid < k" using "1.prems"(1) mid by blast
      then have "bsearch P xs (Suc mid) (len - len div 2 - 1) = k"
        using "1.IH"(1) [OF False refl refl] True "1.prems" False
        by (fastforce simp: mid_def)
      with True False show ?thesis
        by (subst bsearch.simps) (simp add: Let_def mid_def)
    next
      case notP: False
      then have "k \<le> mid" using "1.prems"(1) mid by (meson not_le)
      then have "bsearch P xs first (len div 2) = k"
        using "1.IH"(2) [OF False refl refl] notP "1.prems" by (fastforce simp: mid_def)
      with notP False show ?thesis
        by (subst bsearch.simps) (simp add: Let_def mid_def)
    qed
  qed
qed

lemma bsearch_takeWhile:
  assumes "sorted_wrt (\<lambda>x y. P y \<longrightarrow> P x) xs"
  shows "bsearch P xs 0 (length xs) = length (takeWhile P xs)"
proof (rule bsearch_partitioned)
  let ?k = "length (takeWhile P xs)"
  show "\<forall>i < length xs. P (xs ! i) \<longleftrightarrow> i < ?k"
  proof (intro allI impI iffI)
    fix i assume i: "i < length xs" and P: "P (xs ! i)"
    show "i < ?k"
    proof (rule ccontr)
      assume "\<not> i < ?k"
      then have k: "?k \<le> i" "?k < length xs" using i by auto
      then have "\<not> P (xs ! ?k)" by (rule_tac nth_length_takeWhile)
      moreover have "P (xs ! ?k)"
      proof (cases "?k = i")
        case True
        with P show ?thesis by simp
      next
        case False
        with k i P assms show ?thesis
          by (metis sorted_wrt_iff_nth_less le_neq_implies_less)
      qed
      ultimately show False by simp
    qed
  next
    fix i assume "i < ?k"
    then show "P (xs ! i)" by (metis nth_mem set_takeWhileD takeWhile_nth)
  qed
  show "?k \<le> 0 + length xs" by (simp add: length_takeWhile_le)
qed simp_all

lemma std_rotate_last:
  "k \<le> length xs \<Longrightarrow> std_rotate k (length xs) (xs @ [x]) = take k xs @ x # drop k xs"
  by (simp add: std_rotate_def)

lemma std_find_if_None: "std_find_if P xs = None \<longleftrightarrow> (\<forall>x \<in> set xs. \<not> P x)"
  by (induction xs) auto

lemma std_find_if_Some:
  "std_find_if P xs = Some i \<Longrightarrow> i < length xs \<and> P (xs ! i) \<and> (\<forall>j < i. \<not> P (xs ! j))"
proof (induction xs arbitrary: i)
  case Nil
  then show ?case by simp
next
  case (Cons x xs)
  show ?case
  proof (cases "P x")
    case True
    with Cons.prems show ?thesis by simp
  next
    case False
    with Cons.prems obtain j where j: "std_find_if P xs = Some j" "i = Suc j" by auto
    from Cons.IH [OF j(1)] False j(2) show ?thesis
      by (auto simp: less_Suc_eq_0_disj)
  qed
qed

lemma take_find_if:
  "(case std_find_if P xs of None \<Rightarrow> xs | Some i \<Rightarrow> take i xs) = takeWhile (\<lambda>x. \<not> P x) xs"
  by (induction xs) (auto split: option.splits)

lemma erase_at_simps [simp]:
  "erase_at i [] = []"
  "erase_at 0 (x # xs) = xs"
  "erase_at (Suc i) (x # xs) = x # erase_at i xs"
  by (simp_all add: erase_at_def)

lemma find_std_find_if: "List.find P xs = map_option ((!) xs) (std_find_if P xs)"
proof (induction xs)
  case (Cons x xs)
  then show ?case by (cases "std_find_if P xs") simp_all
qed simp

lemma erase_at_find: "std_find_if P xs = Some i \<Longrightarrow> erase_at i xs = remove1 (xs ! i) xs"
proof (induction xs arbitrary: i)
  case (Cons x xs)
  then show ?case by (auto split: if_splits dest: std_find_if_Some)
qed simp

lemma set_erase_at_subset: "set (erase_at i xs) \<subseteq> set xs"
  by (auto simp: erase_at_def dest: in_set_takeD in_set_dropD)

lemma mset_erase_at: "i < length xs \<Longrightarrow> mset xs = add_mset (xs ! i) (mset (erase_at i xs))"
proof (induction xs arbitrary: i)
  case (Cons x xs)
  then show ?case by (cases i) auto
qed simp

lemma map_erase_at: "map f (erase_at i xs) = erase_at i (map f xs)"
  by (simp add: erase_at_def take_map drop_map)

lemma sorted_erase_at: "sorted xs \<Longrightarrow> sorted (erase_at i xs)"
proof (induction xs arbitrary: i)
  case (Cons x xs)
  then show ?case
    using set_erase_at_subset by (cases i) fastforce+
qed simp

lemma sorted_mid:
  fixes a :: "'a::linorder"
  assumes "sorted xs" "sorted ys" "\<forall>x \<in> set xs. x \<le> a" "\<forall>y \<in> set ys. a \<le> y"
  shows "sorted (xs @ a # ys)"
  using assms by (auto simp: sorted_append intro: order_trans)

lemma subseq_set: "subseq xs ys \<Longrightarrow> set xs \<subseteq> set ys"
  by (induction rule: list_emb.induct) auto

end
