(* ===== verification/Extern.thy ===== *)
theory Extern
  imports Prelude
begin

text \<open>
  The third-party code the program calls, as a record of functions that every definition using
  it takes as an argument: the JSON values of nlohmann::json (parsing, printing, member access
  and the conversions the source uses), the keyed hash of libsodium with its two size constants,
  and the sequence of values drawn from the random generator. A call that throws returns
  \<open>None\<close>. One function stands for a choice that the C++ standard leaves to the implementation, how
  \<open>std::unordered_map\<close> grows. What the program relies on is stated by the predicates \<open>json_laws\<close>,
  \<open>hash_laws\<close>, \<open>rng_laws\<close> and \<open>table_laws\<close>.
\<close>

record 'j extern =
  jparse :: "string \<Rightarrow> 'j option"
  jdump :: "'j \<Rightarrow> string option"
  jnull :: 'j
  jat :: "'j \<Rightarrow> string \<Rightarrow> 'j option"
  jset :: "'j \<Rightarrow> string \<Rightarrow> 'j \<Rightarrow> 'j"
  jempty :: "'j \<Rightarrow> bool"
  of_str :: "string \<Rightarrow> 'j"
  of_int32 :: "c_int \<Rightarrow> 'j"
  of_long :: "c_long \<Rightarrow> 'j"
  of_ints :: "c_int list \<Rightarrow> 'j"
  of_u64s :: "u64 list \<Rightarrow> 'j"
  of_strs :: "string list \<Rightarrow> 'j"
  of_arr :: "'j list \<Rightarrow> 'j"
  get_str :: "'j \<Rightarrow> string option"
  get_int32 :: "'j \<Rightarrow> c_int option"
  get_long :: "'j \<Rightarrow> c_long option"
  get_ints :: "'j \<Rightarrow> c_int list option"
  get_u64s :: "'j \<Rightarrow> u64 list option"
  get_strs :: "'j \<Rightarrow> string list option"
  generichash :: "string \<Rightarrow> string \<Rightarrow> byte list"
  hash_bytes :: nat
  key_bytes :: nat
  draw :: "nat \<Rightarrow> nat"
  hash_grow :: "nat \<Rightarrow> nat \<Rightarrow> nat"

text \<open>
  \<open>jat L j k\<close> is the member \<open>k\<close> of \<open>j\<close>: \<open>None\<close> where \<open>j.at(k)\<close> throws and where
  \<open>j.find(k)\<close> is \<open>j.end()\<close>. \<open>jset L j k v\<close> is \<open>j[k] = v\<close>, which the source applies to
  objects and to the null value only. Values of type \<open>'j\<close> are JSON values up to the equality
  of the library. \<open>generichash L input key\<close> is \<open>crypto_generichash\<close> (no key is the empty
  key), \<open>hash_bytes\<close> and \<open>key_bytes\<close> are \<open>crypto_generichash_BYTES_MIN\<close> and
  \<open>crypto_generichash_KEYBYTES\<close>; \<open>draw L n\<close> is the \<open>n\<close>-th value of the distribution.
  \<open>hash_grow L b n\<close> is the number of buckets of a \<open>std::unordered_map\<close> with \<open>b\<close> buckets once an
  insertion has brought it to \<open>n\<close> entries.
\<close>

text \<open>Reading a string member, \<open>j.at(k).get<std::string>()\<close>, and building objects.\<close>

definition at_str :: "'j extern \<Rightarrow> 'j \<Rightarrow> string \<Rightarrow> string option" where
  "at_str L j k = Option.bind (jat L j k) (get_str L)"

definition jobject :: "'j extern \<Rightarrow> (string \<times> 'j) list \<Rightarrow> 'j" where
  "jobject L kvs = foldl (\<lambda>j (k, v). jset L j k v) (jnull L) kvs"

section \<open>What the program relies on\<close>

definition is_obj :: "'j extern \<Rightarrow> 'j \<Rightarrow> bool" where
  "is_obj L j \<longleftrightarrow> j = jnull L \<or> (\<exists>k. jat L j k \<noteq> None)"

definition conv_laws :: "'j extern \<Rightarrow> bool" where
  "conv_laws L \<longleftrightarrow>
     (\<forall>x. get_str L (of_str L x) = Some x) \<and>
     (\<forall>x. get_int32 L (of_int32 L x) = Some x) \<and>
     (\<forall>x. get_long L (of_long L x) = Some x) \<and>
     (\<forall>x. get_ints L (of_ints L x) = Some x) \<and>
     (\<forall>x. get_u64s L (of_u64s L x) = Some x) \<and>
     (\<forall>x. get_strs L (of_strs L x) = Some x) \<and>
     (\<forall>x. \<not> jempty L (of_str L x))"

definition object_laws :: "'j extern \<Rightarrow> bool" where
  "object_laws L \<longleftrightarrow>
     (\<forall>k. jat L (jnull L) k = None) \<and>
     (\<forall>j k v k'. is_obj L j \<longrightarrow>
        jat L (jset L j k v) k' = (if k' = k then Some v else jat L j k'))"

definition text_laws :: "'j extern \<Rightarrow> bool" where
  "text_laws L \<longleftrightarrow> (\<forall>j s. jdump L j = Some s \<longrightarrow> s \<noteq> '''' \<and> jparse L s = Some j)"

definition json_laws :: "'j extern \<Rightarrow> bool" where
  "json_laws L \<longleftrightarrow> conv_laws L \<and> object_laws L \<and> text_laws L"

text \<open>White space after a value is no part of it.\<close>

definition json_space :: "char \<Rightarrow> bool" where
  "json_space c \<longleftrightarrow> c \<in> set [CHR '' '', CHR 0x09, CHR 0x0a, CHR 0x0d]"

definition space_laws :: "'j extern \<Rightarrow> bool" where
  "space_laws L \<longleftrightarrow>
     (\<forall>j s r. jdump L j = Some s \<longrightarrow> list_all json_space r \<longrightarrow> jparse L (s @ r) = Some j)"

definition hash_laws :: "'j extern \<Rightarrow> bool" where
  "hash_laws L \<longleftrightarrow> 0 < hash_bytes L \<and> (\<forall>i k. length (generichash L i k) = hash_bytes L)"

definition rng_laws :: "'j extern \<Rightarrow> bool" where
  "rng_laws L \<longleftrightarrow> (\<forall>n. draw L n < 36)"

text \<open>
  With the default maximum load factor of one, an insertion leaves the number of buckets, and with it
  every iterator valid, while the entries are no more than the buckets; otherwise it rehashes.
\<close>

definition table_laws :: "'j extern \<Rightarrow> bool" where
  "table_laws L \<longleftrightarrow> (\<forall>b n. n \<le> hash_grow L b n \<and> (n \<le> b \<longrightarrow> hash_grow L b n = b))"

named_theorems json_simps \<open>member access on the JSON values the program builds\<close>

lemma conv_simps [json_simps]:
  assumes "json_laws L"
  shows "get_str L (of_str L s) = Some s" "get_int32 L (of_int32 L i) = Some i"
    "get_long L (of_long L l) = Some l" "get_ints L (of_ints L is) = Some is"
    "get_u64s L (of_u64s L us) = Some us" "get_strs L (of_strs L ss) = Some ss"
    "\<not> jempty L (of_str L s)"
  using assms by (simp_all add: json_laws_def conv_laws_def)

lemma jat_jset [json_simps]:
  "json_laws L \<Longrightarrow> is_obj L j \<Longrightarrow>
     jat L (jset L j k v) k' = (if k' = k then Some v else jat L j k')"
  by (simp add: json_laws_def object_laws_def)

lemma jat_jnull [json_simps]: "json_laws L \<Longrightarrow> jat L (jnull L) k = None"
  by (simp add: json_laws_def object_laws_def)

lemma is_obj_jnull [json_simps]: "is_obj L (jnull L)"
  by (simp add: is_obj_def)

lemma is_obj_jset [json_simps]: "json_laws L \<Longrightarrow> is_obj L j \<Longrightarrow> is_obj L (jset L j k v)"
  by (subst is_obj_def) (auto simp: jat_jset intro: exI [of _ k])

lemma is_obj_at: "jat L j k = Some v \<Longrightarrow> is_obj L j"
  by (auto simp: is_obj_def)

lemma at_str_SomeD: "at_str L j k = Some s \<Longrightarrow> is_obj L j"
  by (auto simp: at_str_def is_obj_def split: bind_splits)

lemma at_str_jset [json_simps]:
  "json_laws L \<Longrightarrow> is_obj L j \<Longrightarrow>
     at_str L (jset L j k v) k' = (if k' = k then get_str L v else at_str L j k')"
  by (simp add: at_str_def jat_jset)

lemma at_str_jnull [json_simps]: "json_laws L \<Longrightarrow> at_str L (jnull L) k = None"
  by (simp add: at_str_def jat_jnull)

lemma parse_dump: "json_laws L \<Longrightarrow> jdump L j = Some s \<Longrightarrow> jparse L s = Some j"
  by (simp add: json_laws_def text_laws_def)

lemma dump_nonempty: "json_laws L \<Longrightarrow> jdump L j = Some s \<Longrightarrow> s \<noteq> ''''"
  by (auto simp: json_laws_def text_laws_def)

lemma jobject_aux:
  assumes "json_laws L"
  shows "is_obj L j \<Longrightarrow>
    jat L (foldl (\<lambda>j (k, v). jset L j k v) j kvs) k =
      (case map_of (rev kvs) k of Some v \<Rightarrow> Some v | None \<Rightarrow> jat L j k)"
proof (induction kvs arbitrary: j)
  case Nil
  show ?case by simp
next
  case (Cons kv kvs)
  obtain k' v where kv: "kv = (k', v)" by fastforce
  show ?case
    using Cons.IH [of "jset L j k' v"] Cons.prems assms
    by (auto simp: kv json_simps map_add_def split: option.splits)
qed

lemma jat_jobject [json_simps]:
  "json_laws L \<Longrightarrow> jat L (jobject L kvs) k = map_of (rev kvs) k"
  by (simp add: jobject_def jobject_aux json_simps split: option.splits)

end
