(* ===== verification/Reference_Json.thy ===== *)
theory Reference_Json
  imports Extern
begin

text \<open>
  A concrete instance of the third-party functions, on which the witnesses evaluate: JSON values
  as a datatype, a self-delimiting text encoding with its decoder, and a fixed hash. It shows that
  the laws of theory Extern can hold together; no definition of the program depends on it.
\<close>

datatype jval =
    JNull
  | JNum u64
  | JStr string
  | JArr "jval list"
  | JObj "(string \<times> jval) list"

section \<open>Text\<close>

definition enc_str :: "string \<Rightarrow> string" where
  "enc_str s = concat (map (\<lambda>c. [CHR ''c'', c]) s) @ ''.''"

definition enc_num :: "u64 \<Rightarrow> string" where
  "enc_num w = map (\<lambda>i. if bit w i then CHR ''1'' else CHR ''0'') [0..<64]"

primrec enc :: "jval \<Rightarrow> string" where
  "enc JNull = ''n''"
| "enc (JNum w) = CHR ''i'' # enc_num w"
| "enc (JStr s) = CHR ''s'' # enc_str s"
| "enc (JArr js) = CHR ''['' # concat (map (\<lambda>e. CHR '','' # e) (map enc js)) @ '']''"
| "enc (JObj kvs) = CHR ''{'' #
     concat (map (\<lambda>(k, e). CHR '','' # enc_str k @ e) (map (map_prod id enc) kvs)) @ ''}''"

fun dec_str :: "string \<Rightarrow> (string \<times> string) option" where
  "dec_str (m # r) =
     (if m = CHR ''.'' then Some ([], r)
      else case r of [] \<Rightarrow> None
           | c # r' \<Rightarrow> map_option (\<lambda>(s, t). (c # s, t)) (dec_str r'))"
| "dec_str [] = None"

definition dec_num :: "string \<Rightarrow> u64" where
  "dec_num r = horner_sum of_bool 2 (map (\<lambda>c. c = CHR ''1'') r)"

fun dec :: "nat \<Rightarrow> string \<Rightarrow> (jval \<times> string) option"
  and dec_arr :: "nat \<Rightarrow> string \<Rightarrow> (jval list \<times> string) option"
  and dec_obj :: "nat \<Rightarrow> string \<Rightarrow> ((string \<times> jval) list \<times> string) option"
where
  "dec 0 s = None"
| "dec (Suc n) [] = None"
| "dec (Suc n) (c # r) =
     (if c = CHR ''n'' then Some (JNull, r)
      else if c = CHR ''i'' then Some (JNum (dec_num (take 64 r)), drop 64 r)
      else if c = CHR ''s'' then map_option (\<lambda>(s, t). (JStr s, t)) (dec_str r)
      else if c = CHR ''['' then map_option (\<lambda>(js, t). (JArr js, t)) (dec_arr n r)
      else if c = CHR ''{'' then map_option (\<lambda>(kvs, t). (JObj kvs, t)) (dec_obj n r)
      else None)"
| "dec_arr 0 s = None"
| "dec_arr (Suc n) [] = None"
| "dec_arr (Suc n) (c # r) =
     (if c = CHR '']'' then Some ([], r)
      else case dec n r of None \<Rightarrow> None
           | Some (j, t) \<Rightarrow> map_option (\<lambda>(js, u). (j # js, u)) (dec_arr n t))"
| "dec_obj 0 s = None"
| "dec_obj (Suc n) [] = None"
| "dec_obj (Suc n) (c # r) =
     (if c = CHR ''}'' then Some ([], r)
      else case dec_str r of None \<Rightarrow> None
           | Some (k, t) \<Rightarrow>
               (case dec n t of None \<Rightarrow> None
                | Some (j, u) \<Rightarrow> map_option (\<lambda>(kvs, v). ((k, j) # kvs, v)) (dec_obj n u)))"

lemma dec_str_enc_str [simp]: "dec_str (enc_str s @ r) = Some (s, r)"
  by (induction s) (simp_all add: enc_str_def)

lemma length_enc_num [simp]: "length (enc_num w) = 64"
  by (simp add: enc_num_def)

lemma dec_num_enc_num [simp]: "dec_num (enc_num w) = w"
proof -
  have "dec_num (enc_num w) = horner_sum of_bool 2 (map (bit w) [0..<64])"
    unfolding dec_num_def enc_num_def map_map comp_def
    by (rule arg_cong [of _ _ "horner_sum of_bool 2"]) (rule map_cong, simp_all)
  also have "\<dots> = take_bit 64 w" by (rule horner_sum_bit_eq_take_bit)
  also have "\<dots> = w" by (simp add: take_bit_word_eq_self)
  finally show ?thesis .
qed

lemma dec_arr_enc:
  assumes "\<And>j r n. j \<in> set js \<Longrightarrow> length (enc j) \<le> n \<Longrightarrow> dec n (enc j @ r) = Some (j, r)"
    and "length (concat (map (\<lambda>e. CHR '','' # e) (map enc js))) < n"
  shows "dec_arr n (concat (map (\<lambda>e. CHR '','' # e) (map enc js)) @ CHR '']'' # r) = Some (js, r)"
  using assms
proof (induction js arbitrary: n)
  case Nil
  then show ?case by (cases n) simp_all
next
  case (Cons j js)
  from Cons.prems(2) obtain m where n: "n = Suc m" by (cases n) simp_all
  have "dec_arr m (concat (map (\<lambda>e. CHR '','' # e) (map enc js)) @ CHR '']'' # r) = Some (js, r)"
    by (rule Cons.IH) (use Cons.prems n in auto)
  moreover have "dec m (enc j @ s) = Some (j, s)" for s
    using Cons.prems n by simp
  ultimately show ?case by (simp add: n)
qed

lemma dec_obj_enc:
  assumes "\<And>k j r n. (k, j) \<in> set kvs \<Longrightarrow> length (enc j) \<le> n \<Longrightarrow> dec n (enc j @ r) = Some (j, r)"
    and "length (concat (map (\<lambda>(k, e). CHR '','' # enc_str k @ e) (map (map_prod id enc) kvs))) < n"
  shows "dec_obj n (concat (map (\<lambda>(k, e). CHR '','' # enc_str k @ e) (map (map_prod id enc) kvs))
           @ CHR ''}'' # r) = Some (kvs, r)"
  using assms
proof (induction kvs arbitrary: n)
  case Nil
  then show ?case by (cases n) simp_all
next
  case (Cons kj kvs)
  obtain k j where kj: "kj = (k, j)" by fastforce
  from Cons.prems(2) obtain m where n: "n = Suc m" by (cases n) simp_all
  have "dec_obj m (concat (map (\<lambda>(k, e). CHR '','' # enc_str k @ e) (map (map_prod id enc) kvs))
           @ CHR ''}'' # r) = Some (kvs, r)"
    by (rule Cons.IH) (use Cons.prems n in \<open>auto simp: kj\<close>)
  moreover have "dec m (enc j @ s) = Some (j, s)" for s
    by (rule Cons.prems(1) [of k]) (use Cons.prems(2) in \<open>simp_all add: kj n\<close>)
  ultimately show ?case by (simp add: n kj id_def)
qed

lemma dec_enc: "length (enc j) \<le> n \<Longrightarrow> dec n (enc j @ r) = Some (j, r)"
proof (induction j arbitrary: n r)
  case JNull
  then show ?case by (cases n) simp_all
next
  case (JNum w)
  then show ?case by (cases n) simp_all
next
  case (JStr s)
  then show ?case by (cases n) simp_all
next
  case (JArr js)
  then obtain m where n: "n = Suc m" by (cases n) simp_all
  have "dec_arr m (concat (map (\<lambda>e. CHR '','' # e) (map enc js)) @ CHR '']'' # r) = Some (js, r)"
    by (rule dec_arr_enc) (use JArr n in auto)
  then show ?case by (simp add: n)
next
  case (JObj kvs)
  then obtain m where n: "n = Suc m" by (cases n) simp_all
  have "dec_obj m (concat (map (\<lambda>(k, e). CHR '','' # enc_str k @ e) (map (map_prod id enc) kvs))
           @ CHR ''}'' # r) = Some (kvs, r)"
    by (rule dec_obj_enc) (use JObj n in \<open>force+\<close>)
  then show ?case by (simp add: n)
qed

definition parse_text :: "string \<Rightarrow> jval option" where
  "parse_text s =
     (case dec (length s) s of
        Some (j, r) \<Rightarrow> if list_all json_space r then Some j else None
      | None \<Rightarrow> None)"

lemma parse_text_enc [simp]: "parse_text (enc j) = Some j"
  using dec_enc [of j "length (enc j)" "[]"] by (simp add: parse_text_def)

lemma parse_text_space: "list_all json_space r \<Longrightarrow> parse_text (enc j @ r) = Some j"
  using dec_enc [of j "length (enc j @ r)" r] by (simp add: parse_text_def)

lemma enc_nonempty [simp]: "enc j \<noteq> []"
  by (cases j) simp_all

section \<open>Members and conversions\<close>

fun ref_at :: "jval \<Rightarrow> string \<Rightarrow> jval option" where
  "ref_at (JObj kvs) k = map_of kvs k"
| "ref_at _ k = None"

fun ref_set :: "jval \<Rightarrow> string \<Rightarrow> jval \<Rightarrow> jval" where
  "ref_set (JObj kvs) k v = JObj (AList.update k v kvs)"
| "ref_set JNull k v = JObj [(k, v)]"
| "ref_set j k v = j"

fun ref_empty :: "jval \<Rightarrow> bool" where
  "ref_empty JNull = True"
| "ref_empty (JArr js) = (js = [])"
| "ref_empty (JObj kvs) = (kvs = [])"
| "ref_empty _ = False"

fun ref_str :: "jval \<Rightarrow> string option" where
  "ref_str (JStr s) = Some s"
| "ref_str _ = None"

fun ref_num :: "jval \<Rightarrow> 'a::len word option" where
  "ref_num (JNum w) = Some (ucast w)"
| "ref_num _ = None"

fun ref_arr :: "(jval \<Rightarrow> 'a option) \<Rightarrow> jval \<Rightarrow> 'a list option" where
  "ref_arr f (JArr js) = those (map f js)"
| "ref_arr f _ = None"

lemma those_map_Some [simp]: "those (map (\<lambda>x. Some (f x)) xs) = Some (map f xs)"
  by (induction xs) simp_all

definition ref_hash :: "string \<Rightarrow> string \<Rightarrow> byte list" where
  "ref_hash i k = map (\<lambda>n. of_char ((i @ k @ replicate 16 CHR ''x'') ! n)) [0..<16]"

definition ref_lib :: "jval extern" where
  "ref_lib =
     \<lparr> jparse = parse_text, jdump = (\<lambda>j. Some (enc j)), jnull = JNull, jat = ref_at,
       jset = ref_set, jempty = ref_empty, of_str = JStr,
       of_int32 = (\<lambda>w. JNum (ucast w)), of_long = (\<lambda>w. JNum w),
       of_ints = (\<lambda>ws. JArr (map (\<lambda>w. JNum (ucast w)) ws)),
       of_u64s = (\<lambda>ws. JArr (map JNum ws)), of_strs = (\<lambda>ss. JArr (map JStr ss)),
       of_arr = JArr, get_str = ref_str, get_int32 = ref_num, get_long = ref_num,
       get_ints = ref_arr ref_num, get_u64s = ref_arr ref_num, get_strs = ref_arr ref_str,
       generichash = ref_hash, hash_bytes = 16, key_bytes = 32, draw = (\<lambda>n. n mod 36),
       hash_grow = (\<lambda>b n. if n \<le> b then b else 2 * n - 1) \<rparr>"

lemma ref_lib_sel [simp]:
  "jparse ref_lib = parse_text" "jdump ref_lib j = Some (enc j)" "jnull ref_lib = JNull"
  "jat ref_lib = ref_at" "jset ref_lib = ref_set" "jempty ref_lib = ref_empty"
  "of_str ref_lib = JStr" "of_int32 ref_lib i = JNum (ucast i)" "of_long ref_lib l = JNum l"
  "of_ints ref_lib is = JArr (map (\<lambda>w. JNum (ucast w)) is)"
  "of_u64s ref_lib us = JArr (map JNum us)" "of_strs ref_lib ss = JArr (map JStr ss)"
  "of_arr ref_lib = JArr" "get_str ref_lib = ref_str" "get_int32 ref_lib = ref_num"
  "get_long ref_lib = ref_num" "get_ints ref_lib = ref_arr ref_num"
  "get_u64s ref_lib = ref_arr ref_num" "get_strs ref_lib = ref_arr ref_str"
  "generichash ref_lib = ref_hash" "hash_bytes ref_lib = 16" "key_bytes ref_lib = 32"
  "draw ref_lib n = n mod 36" "hash_grow ref_lib b n = (if n \<le> b then b else 2 * n - 1)"
  by (simp_all add: ref_lib_def)

lemma ucast_up_down [simp]: "(ucast (ucast (w :: c_int) :: u64) :: c_int) = w"
  by (rule bit_word_eqI) (simp add: bit_ucast_iff)

lemma ref_json_laws [simp, intro]: "json_laws ref_lib"
proof -
  have "conv_laws ref_lib" by (simp add: conv_laws_def comp_def)
  moreover have "object_laws ref_lib"
  proof -
    have "ref_at (ref_set j k v) k' = (if k' = k then Some v else ref_at j k')"
      if "is_obj ref_lib j" for j k v k'
      using that by (cases j) (auto simp: is_obj_def update_conv')
    then show ?thesis by (simp add: object_laws_def)
  qed
  moreover have "text_laws ref_lib" by (simp add: text_laws_def)
  ultimately show ?thesis by (simp add: json_laws_def)
qed

lemma ref_space_laws [simp, intro]: "space_laws ref_lib"
  by (auto simp: space_laws_def intro: parse_text_space)

lemma ref_hash_laws [simp, intro]: "hash_laws ref_lib"
  by (simp add: hash_laws_def ref_hash_def)

lemma ref_rng_laws [simp, intro]: "rng_laws ref_lib"
  by (simp add: rng_laws_def)

lemma ref_table_laws [simp, intro]: "table_laws ref_lib"
  by (auto simp: table_laws_def)

end
