(* ===== verification/Config.thy ===== *)
theory Config
  imports Reference_Json
begin

text \<open>
  \<open>src/config.hpp\<close>, \<open>src/logger.hpp\<close> and the part of \<open>src/occase-db.cpp\<close> that turns the parsed
  options into the configuration of the server. Option parsing itself is boost::program_options;
  its result (the option values, and whether \<open>--help\<close> or \<open>--git-sha1\<close> was given) is an argument.
\<close>

section \<open>Log levels\<close>

datatype level = Emerg | Alert | Crit | Err | Warning | Notice | Info | Debug

definition to_level :: "string \<Rightarrow> level" where
  "to_level ll =
     (if ll = ''emerg'' then Emerg
      else if ll = ''alert'' then Alert
      else if ll = ''crit'' then Crit
      else if ll = ''err'' then Err
      else if ll = ''warning'' then Warning
      else if ll = ''notice'' then Notice
      else if ll = ''info'' then Info
      else if ll = ''debug'' then Debug
      else Debug)"

text \<open>The position of a level in the enumeration, by which the comparison operators order it.\<close>

fun severity :: "level \<Rightarrow> nat" where
  "severity Emerg = 0"
| "severity Alert = 1"
| "severity Crit = 2"
| "severity Err = 3"
| "severity Warning = 4"
| "severity Notice = 5"
| "severity Info = 6"
| "severity Debug = 7"

lemma severity_inject: "severity a = severity b \<longleftrightarrow> a = b"
  by (cases a; cases b) simp_all

instantiation level :: linorder
begin

definition less_eq_level :: "level \<Rightarrow> level \<Rightarrow> bool" where
  "less_eq_level a b \<longleftrightarrow> severity a \<le> severity b"

definition less_level :: "level \<Rightarrow> level \<Rightarrow> bool" where
  "less_level a b \<longleftrightarrow> severity a < severity b"

instance
  by standard (auto simp: less_eq_level_def less_level_def severity_inject)

end

text \<open>\<open>log::ignore\<close>: whether a message of level \<open>ll\<close> is dropped under the filter.\<close>

definition log_ignore :: "level \<Rightarrow> level \<Rightarrow> bool" where
  "log_ignore fltr ll \<longleftrightarrow> fltr < ll"

text \<open>\<open>log::write\<close> appends a line to the log unless its level is above the filter.\<close>

definition log_write :: "level \<Rightarrow> level \<Rightarrow> string \<Rightarrow> string list \<Rightarrow> string list" where
  "log_write fltr ll line out = (if fltr < ll then out else out @ [line])"

section \<open>The configuration\<close>

record timeouts =
  t_handshake :: c_long
  t_idle :: c_long
  t_post_interval :: c_long
  t_post_expiration :: c_long

record redis_cfg =
  r_host :: string
  r_port :: string
  r_posts_channel_key :: string
  r_posts_key :: string
  r_removed_posts_key :: string
  r_chat_msg_prefix :: string
  r_presence_channel_prefix :: string
  r_notify_prefix :: string
  r_user_notify_prefix :: string
  r_chat_msgs_counter_key :: string
  r_notify_channel :: string
  r_tokens_key :: string
  r_post_visualizations_key :: string
  r_chat_msg_exp_time :: c_int
  r_max_offline_chat_msgs :: c_int

record core =
  c_max_posts_on_search :: c_int
  c_pwd_size :: c_int
  c_db_port :: "16 word"
  c_max_listen_connections :: c_int
  c_mms_key :: string
  c_db_host :: string
  c_mms_host :: string
  c_http_session_timeout :: c_int
  c_http_allow_origin :: string
  c_ssl_shutdown_timeout :: c_int
  c_server_name :: string
  c_adm_pwd :: string
  c_allowed_posts :: c_int
  c_chat_admin_id :: string
  c_redis :: redis_cfg
  c_timeouts :: timeouts

record config_all =
  a_help :: c_int
  a_ssl_cert_file :: string
  a_ssl_priv_key_file :: string
  a_ssl_dh_file :: string
  a_logfilter :: level
  a_core :: core
  a_handshake_timeout :: c_int
  a_idle_timeout :: c_int
  a_post_interval :: c_int
  a_post_expiration :: c_int

definition get_timeouts :: "config_all \<Rightarrow> timeouts" where
  "get_timeouts cfg =
     \<lparr> t_handshake = scast (a_handshake_timeout cfg), t_idle = scast (a_idle_timeout cfg),
       t_post_interval = scast (a_post_interval cfg),
       t_post_expiration = scast (a_post_expiration cfg) \<rparr>"

definition with_ssl :: "config_all \<Rightarrow> bool" where
  "with_ssl cfg =
     (let r = a_ssl_cert_file cfg = '''' \<or> a_ssl_priv_key_file cfg = '''' \<or>
              a_ssl_dh_file cfg = ''''
      in \<not> r)"

text \<open>
  What \<open>get_cfg\<close> does with the option values: \<open>Inl n\<close> is the configuration whose \<open>help\<close> is \<open>n\<close>
  (1 for the help texts, -1 for an error), on which \<open>main\<close> exits at once.
\<close>

definition get_cfg ::
  "'j extern \<Rightarrow> bool \<Rightarrow> bool \<Rightarrow> string \<Rightarrow> config_all \<Rightarrow> c_int + config_all" where
  "get_cfg L help git_sha1 logfilter_str cfg =
     (if help then Inl 1
      else if git_sha1 then Inl 1
      else if length (c_mms_key (a_core cfg)) \<noteq> key_bytes L then Inl (-1)
      else
        let red = c_redis (a_core cfg);
            red = red\<lparr>r_chat_msg_prefix := r_chat_msg_prefix red @ '':''\<rparr>;
            red = red\<lparr>r_user_notify_prefix :=
                        r_notify_prefix red @ ''0__:'' @ r_chat_msg_prefix red\<rparr>;
            c = (a_core cfg)\<lparr>c_redis := red, c_timeouts := get_timeouts cfg\<rparr>
        in Inr (cfg\<lparr>a_core := c, a_logfilter := to_level logfilter_str\<rparr>))"

text \<open>The exit status of \<open>main\<close> for a configuration that does not start the server.\<close>

definition early_exit :: "c_int + config_all \<Rightarrow> int option" where
  "early_exit r =
     (case r of
        Inl n \<Rightarrow> if n = 1 then Some 0 else if n = -1 then Some 1 else None
      | Inr _ \<Rightarrow> None)"

text \<open>The values the header gives to the members it initialises, the others empty or zero.\<close>

definition default_redis :: redis_cfg where
  "default_redis =
     \<lparr> r_host = '''', r_port = '''', r_posts_channel_key = '''', r_posts_key = '''',
       r_removed_posts_key = '''', r_chat_msg_prefix = '''',
       r_presence_channel_prefix = ''pc:'', r_notify_prefix = ''__keyspace@'',
       r_user_notify_prefix = '''', r_chat_msgs_counter_key = '''',
       r_notify_channel = ''notify'', r_tokens_key = ''fcm_tokens'',
       r_post_visualizations_key = ''post_visualizations'',
       r_chat_msg_exp_time = 3600, r_max_offline_chat_msgs = 100 \<rparr>"

section \<open>Properties\<close>

definition sample_core :: core where
  "sample_core =
     \<lparr> c_max_posts_on_search = 50, c_pwd_size = 8, c_db_port = 8080,
       c_max_listen_connections = 511, c_mms_key = replicate 32 CHR ''k'', c_db_host = '''',
       c_mms_host = ''https://mms'', c_http_session_timeout = 30, c_http_allow_origin = ''*'',
       c_ssl_shutdown_timeout = 30, c_server_name = ''occase-db'', c_adm_pwd = '''',
       c_allowed_posts = 1, c_chat_admin_id = ''adm'',
       c_redis = default_redis\<lparr>r_chat_msg_prefix := ''chat'', r_posts_key := ''posts'',
         r_posts_channel_key := ''posts_channel'', r_removed_posts_key := ''removed_posts'',
         r_user_notify_prefix := ''__keyspace@0__:chat''\<rparr>,
       c_timeouts = \<lparr> t_handshake = 10, t_idle = 30, t_post_interval = 0, t_post_expiration = 0 \<rparr> \<rparr>"

text \<open>Messages are logged exactly up to the configured severity, an unknown level name means the
  most verbose filter, and each name selects its own level.\<close>

lemma log_filter:
  "(log_write fltr ll line out = out \<longleftrightarrow> log_ignore fltr ll)
   \<and> (log_ignore fltr ll \<longleftrightarrow> severity fltr < severity ll)
   \<and> (to_level name = Debug \<longrightarrow> \<not> log_ignore (to_level name) ll)
   \<and> (name \<notin> {''emerg'', ''alert'', ''crit'', ''err'', ''warning'', ''notice'', ''info''} \<longrightarrow>
       to_level name = Debug)"
  by (cases ll) (simp_all add: log_write_def log_ignore_def less_level_def to_level_def)

end
