(* ===== verification/Crypto.thy ===== *)
theory Crypto
  imports Reference_Json
begin

text \<open>
  \<open>src/crypto.cpp\<close>: hexadecimal digests that serve as user ids, and the generator of the random
  names the server hands out. The state of \<open>pwd_gen\<close> is the number of values drawn so far.
\<close>

section \<open>Digests\<close>

definition hextable :: string where
  "hextable = ''0123456789abcdef''"

definition pwdchars :: string where
  "pwdchars = ''abcdefghijklmnopqrstuvwxyz0123456789''"

definition low_to_char :: "byte \<Rightarrow> char" where
  "low_to_char a = hextable ! unat (a AND 0x0f)"

definition high_to_char :: "byte \<Rightarrow> char" where
  "high_to_char a = hextable ! unat (drop_bit 4 (a AND 0xf0))"

fun hash_to_string :: "byte list \<Rightarrow> string" where
  "hash_to_string [] = ''''"
| "hash_to_string (b # bs) = high_to_char b # low_to_char b # hash_to_string bs"

definition make_hex_digest1 :: "'j extern \<Rightarrow> string \<Rightarrow> string" where
  "make_hex_digest1 L input = hash_to_string (generichash L input '''')"

definition make_hex_digest :: "'j extern \<Rightarrow> string \<Rightarrow> string \<Rightarrow> string" where
  "make_hex_digest L input key =
     (if input = '''' then ''''
      else if length key \<noteq> key_bytes L then ''''
      else hash_to_string (generichash L input key))"

section \<open>Random names\<close>

text \<open>\<open>sep\<close> is the character reserved as a separator.\<close>

definition pwd_sep :: char where
  "pwd_sep = CHR ''-''"

fun pwd_loop :: "'j extern \<Rightarrow> nat \<Rightarrow> string \<Rightarrow> nat \<Rightarrow> string \<times> nat" where
  "pwd_loop L 0 pwd g = (pwd, g)"
| "pwd_loop L (Suc n) pwd g = pwd_loop L n (pwd @ [pwdchars ! draw L g]) (Suc g)"

definition pwd_make :: "'j extern \<Rightarrow> c_int \<Rightarrow> nat \<Rightarrow> string \<times> nat" where
  "pwd_make L pwd_size g = pwd_loop L (nat (sint pwd_size)) '''' g"

definition pwd_make_key :: "'j extern \<Rightarrow> nat \<Rightarrow> string \<times> nat" where
  "pwd_make_key L g = pwd_make L (of_nat (key_bytes L)) g"

section \<open>Properties\<close>

lemma length_hextable [simp]: "length hextable = 16"
  by (simp add: hextable_def)

lemma length_pwdchars [simp]: "length pwdchars = 36"
  by (simp add: pwdchars_def)

lemma distinct_hextable: "distinct hextable"
  by (simp add: hextable_def)

lemma nibble_bounds:
  fixes b :: byte
  shows "unat (b AND 0x0f) < 16" "unat (drop_bit 4 (b AND 0xf0)) < 16"
proof -
  have low: "unat (w AND 0x0f) < 16" for w :: byte
    using word_and_le1 [of w "0x0f"] by (simp add: word_le_nat_alt less_Suc_eq_le)
  then show "unat (b AND 0x0f) < 16" .
  show "unat (drop_bit 4 (b AND 0xf0)) < 16"
    using low [of "drop_bit 4 b"] by simp
qed

lemma byte_nibbles:
  fixes a b :: byte
  assumes "a AND 0x0f = b AND 0x0f" "drop_bit 4 (a AND 0xf0) = drop_bit 4 (b AND 0xf0)"
  shows "a = b"
proof (rule bit_word_eqI)
  fix n assume "n < LENGTH(8)"
  then have n: "n \<in> {0, 1, 2, 3, 4, 5, 6, 7}" by auto
  have low: "bit (a AND 0x0f) n = bit (b AND 0x0f) n"
    and high: "bit (drop_bit 4 (a AND 0xf0)) (n - 4) = bit (drop_bit 4 (b AND 0xf0)) (n - 4)"
    by (simp_all only: assms)
  from n low high show "bit a n = bit b n"
    by (elim insertE emptyE) (simp_all add: bit_and_iff bit_drop_bit_eq)
qed

lemma hextable_nth_inject:
  "i < 16 \<Longrightarrow> j < 16 \<Longrightarrow> hextable ! i = hextable ! j \<Longrightarrow> i = j"
  using distinct_hextable by (simp add: nth_eq_iff_index_eq)

lemma hex_char_inject:
  fixes a b :: byte
  assumes "high_to_char a = high_to_char b" "low_to_char a = low_to_char b"
  shows "a = b"
proof (rule byte_nibbles)
  show "a AND 0x0f = b AND 0x0f"
    using hextable_nth_inject [OF nibble_bounds(1) nibble_bounds(1)] assms(2)
    unfolding low_to_char_def word_unat_eq_iff .
  show "drop_bit 4 (a AND 0xf0) = drop_bit 4 (b AND 0xf0)"
    using hextable_nth_inject [OF nibble_bounds(2) nibble_bounds(2)] assms(1)
    unfolding high_to_char_def word_unat_eq_iff .
qed

lemma hash_to_string_inject: "hash_to_string xs = hash_to_string ys \<longleftrightarrow> xs = ys"
proof (induction xs arbitrary: ys)
  case Nil
  show ?case by (cases ys) simp_all
next
  case (Cons x xs)
  show ?case by (cases ys) (auto simp: Cons.IH dest: hex_char_inject)
qed

lemma length_hash_to_string [simp]: "length (hash_to_string bs) = 2 * length bs"
  by (induction bs) simp_all

lemma set_hash_to_string: "set (hash_to_string bs) \<subseteq> set hextable"
  by (induction bs)
    (auto simp: high_to_char_def low_to_char_def intro!: nth_mem simp: nibble_bounds)

lemma make_hex_digest_empty:
  "hash_laws L \<Longrightarrow>
     make_hex_digest L input key = '''' \<longleftrightarrow> input = '''' \<or> length key \<noteq> key_bytes L"
proof -
  assume "hash_laws L"
  then have "length (generichash L input key) \<noteq> 0" by (simp add: hash_laws_def)
  then have "hash_to_string (generichash L input key) \<noteq> ''''"
    by (cases "generichash L input key") simp_all
  then show ?thesis by (simp add: make_hex_digest_def)
qed

lemma set_make_hex_digest: "set (make_hex_digest L input key) \<subseteq> set hextable"
  using set_hash_to_string by (auto simp: make_hex_digest_def)

lemma digest_no_colon: "CHR '':'' \<notin> set (make_hex_digest L input key)"
  using set_make_hex_digest [of L input key] by (auto simp: hextable_def)

lemma pwd_loop_append:
  "pwd_loop L n pwd g = (pwd @ map (\<lambda>i. pwdchars ! draw L i) [g..<g + n], g + n)"
proof (induction n arbitrary: pwd g)
  case 0
  show ?case by simp
next
  case (Suc n)
  have "[g..<g + Suc n] = g # [Suc g..<Suc g + n]" by (simp add: upt_rec)
  with Suc show ?case by (simp del: upt_Suc)
qed

lemma pwd_make_eq:
  "pwd_make L n g =
     (map (\<lambda>i. pwdchars ! draw L i) [g..<g + nat (sint n)], g + nat (sint n))"
  by (simp add: pwd_make_def pwd_loop_append)

lemma set_pwd_make: "rng_laws L \<Longrightarrow> set (fst (pwd_make L n g)) \<subseteq> set pwdchars"
  by (auto simp: pwd_make_eq rng_laws_def intro!: nth_mem)

text \<open>The digest of a user name and a key, which is the user id everywhere in the system, is
  empty exactly when the name is empty or the key has the wrong size; otherwise it has two
  lower-case hexadecimal digits per byte of the hash.\<close>

lemma digest_shape:
  assumes "hash_laws L"
  shows "if input = '''' \<or> length key \<noteq> key_bytes L then make_hex_digest L input key = ''''
    else length (make_hex_digest L input key) = 2 * hash_bytes L
       \<and> make_hex_digest L input key \<noteq> ''''
       \<and> set (make_hex_digest L input key) \<subseteq> set hextable"
proof (cases "input = '''' \<or> length key \<noteq> key_bytes L")
  case True
  then show ?thesis by (auto simp: make_hex_digest_def)
next
  case False
  then have "make_hex_digest L input key \<noteq> ''''"
    using make_hex_digest_empty [OF assms] by blast
  moreover have "length (make_hex_digest L input key) = 2 * hash_bytes L"
    using False assms by (simp add: make_hex_digest_def hash_laws_def)
  ultimately show ?thesis using False set_make_hex_digest by simp
qed

text \<open>The hexadecimal form loses nothing: two hashes with the same digits are equal, so distinct
  hashes give distinct user ids.\<close>

lemma hex_digits_injective: "hash_to_string xs = hash_to_string ys \<longleftrightarrow> xs = ys"
  by (rule hash_to_string_inject)

text \<open>A generated name has the requested number of characters (none for a negative size), all
  from the set of password characters, so never the reserved separator, and it consumes that many
  values of the generator.\<close>

lemma pwd_make_shape:
  assumes "rng_laws L"
  shows "length (fst (pwd_make L n g)) = nat (sint n)
    \<and> set (fst (pwd_make L n g)) \<subseteq> set pwdchars
    \<and> pwd_sep \<notin> set (fst (pwd_make L n g))
    \<and> snd (pwd_make L n g) = g + nat (sint n)"
proof -
  have "pwd_sep \<notin> set pwdchars" by (simp add: pwd_sep_def pwdchars_def)
  then show ?thesis
    using set_pwd_make [OF assms, of n g] by (auto simp: pwd_make_eq)
qed

end
