(* ===== verification/Post.thy ===== *)
theory Post
  imports Reference_Json
begin

text \<open>
  \<open>src/post.hpp\<close>, \<open>src/post.cpp\<close>: the post record, its JSON form, and the directory a media
  file name is stored under.
\<close>

section \<open>Sizes of media file names\<close>

definition sz_a :: nat where "sz_a = 1"
definition sz_b :: nat where "sz_b = 1"
definition sz_c :: nat where "sz_c = 2"
definition sz_d :: nat where "sz_d = 4"
definition mms_filename_size :: nat where "mms_filename_size = sz_a + sz_b + sz_c + sz_d"
definition mms_dir_size :: nat where "mms_dir_size = 3 + sz_a + sz_b + sz_c"

lemmas sz_defs = sz_a_def sz_b_def sz_c_def sz_d_def mms_filename_size_def mms_dir_size_def

datatype dir_error = Assert_failed | Out_of_range

text \<open>\<open>path.append(filename.data(), pos, n)\<close> reads the file name as a C string.\<close>

definition append_sub :: "string \<Rightarrow> string \<Rightarrow> nat \<Rightarrow> nat \<Rightarrow> string option" where
  "append_sub path filename pos n = map_option ((@) path) (std_substr (c_str filename) pos n)"

definition make_dir :: "string \<Rightarrow> dir_error + string" where
  "make_dir filename =
     (if \<not> mms_filename_size \<le> length filename then Inl Assert_failed
      else case do {
               p1 \<leftarrow> append_sub ''/'' filename 0 sz_a;
               p2 \<leftarrow> append_sub (p1 @ ''/'') filename (0 + sz_a) sz_b;
               append_sub (p2 @ ''/'') filename (0 + sz_a + sz_b) sz_c
             } of
             None \<Rightarrow> Inl Out_of_range
           | Some path \<Rightarrow> Inr path)"

section \<open>Posts\<close>

record post =
  p_date :: c_long
  p_visualizations :: c_int
  p_id :: string
  p_from :: string
  p_nick :: string
  p_avatar :: string
  p_description :: string
  p_location :: "c_int list"
  p_product :: "c_int list"
  p_ex_details :: "c_int list"
  p_in_details :: "u64 list"
  p_range_values :: "c_int list"
  p_images :: "string list"

text \<open>The value-initialised post, \<open>post{}\<close>.\<close>

definition empty_post :: post where
  "empty_post =
     \<lparr> p_date = 0, p_visualizations = 0, p_id = '''', p_from = '''', p_nick = '''',
       p_avatar = '''', p_description = '''', p_location = [], p_product = [],
       p_ex_details = [], p_in_details = [], p_range_values = [], p_images = [] \<rparr>"

definition comp_post_date_less :: "post \<Rightarrow> post \<Rightarrow> bool" where
  "comp_post_date_less a b \<longleftrightarrow> sint (p_date a) < sint (p_date b)"

definition comp_post_id_less :: "post \<Rightarrow> post \<Rightarrow> bool" where
  "comp_post_id_less a b \<longleftrightarrow> p_id a < p_id b"

definition comp_post_id_equal :: "post \<Rightarrow> post \<Rightarrow> bool" where
  "comp_post_id_equal a b \<longleftrightarrow> p_id a = p_id b"

section \<open>JSON\<close>

definition to_json :: "'j extern \<Rightarrow> post \<Rightarrow> 'j" where
  "to_json L e = jobject L
     [ (''date'', of_long L (p_date e)),
       (''id'', of_str L (p_id e)),
       (''visualizations'', of_int32 L (p_visualizations e)),
       (''from'', of_str L (p_from e)),
       (''nick'', of_str L (p_nick e)),
       (''avatar'', of_str L (p_avatar e)),
       (''description'', of_str L (p_description e)),
       (''location'', of_ints L (p_location e)),
       (''product'', of_ints L (p_product e)),
       (''ex_details'', of_ints L (p_ex_details e)),
       (''in_details'', of_u64s L (p_in_details e)),
       (''range_values'', of_ints L (p_range_values e)),
       (''images'', of_strs L (p_images e)) ]"

text \<open>\<open>get_optional_field<T>\<close>: a missing member is \<open>T{}\<close>, one of another type throws.\<close>

definition get_optional_field ::
  "'j extern \<Rightarrow> ('j \<Rightarrow> 'a option) \<Rightarrow> 'a \<Rightarrow> 'j \<Rightarrow> string \<Rightarrow> 'a option" where
  "get_optional_field L get dflt j v =
     (case jat L j v of None \<Rightarrow> Some dflt | Some m \<Rightarrow> get m)"

text \<open>The lambda of \<open>from_json\<close> that removes the query of an image link.\<close>

definition strip_query :: "string \<Rightarrow> string" where
  "strip_query s =
     (case std_find_if (\<lambda>c. c = CHR ''?'') s of None \<Rightarrow> s | Some pos \<Rightarrow> take pos s)"

definition from_json :: "'j extern \<Rightarrow> 'j \<Rightarrow> post option" where
  "from_json L j = do {
     date \<leftarrow> Option.bind (jat L j ''date'') (get_long L);
     pid \<leftarrow> at_str L j ''id'';
     vis \<leftarrow> get_optional_field L (get_int32 L) 0 j ''visualizations'';
     author \<leftarrow> at_str L j ''from'';
     nick \<leftarrow> at_str L j ''nick'';
     avatar \<leftarrow> at_str L j ''avatar'';
     descr \<leftarrow> at_str L j ''description'';
     loc \<leftarrow> Option.bind (jat L j ''location'') (get_ints L);
     prod \<leftarrow> Option.bind (jat L j ''product'') (get_ints L);
     ex \<leftarrow> Option.bind (jat L j ''ex_details'') (get_ints L);
     inn \<leftarrow> Option.bind (jat L j ''in_details'') (get_u64s L);
     ran \<leftarrow> Option.bind (jat L j ''range_values'') (get_ints L);
     imgs \<leftarrow> Option.bind (jat L j ''images'') (get_strs L);
     Some \<lparr> p_date = date, p_visualizations = vis, p_id = pid, p_from = author,
            p_nick = nick, p_avatar = avatar, p_description = descr, p_location = loc,
            p_product = prod, p_ex_details = ex, p_in_details = inn,
            p_range_values = ran, p_images = map strip_query imgs \<rparr>
   }"

section \<open>Properties\<close>

lemma strip_query_takeWhile: "strip_query s = takeWhile (\<lambda>c. c \<noteq> CHR ''?'') s"
  by (simp add: strip_query_def take_find_if)

lemma strip_query_no_query [simp]: "CHR ''?'' \<notin> set (strip_query s)"
  by (auto simp: strip_query_takeWhile dest: set_takeWhileD)

lemma strip_query_id: "CHR ''?'' \<notin> set s \<Longrightarrow> strip_query s = s"
  by (auto simp: strip_query_takeWhile takeWhile_eq_all_conv)

lemma from_to_json:
  assumes "json_laws L"
  shows "from_json L (to_json L p) = Some (p\<lparr>p_images := map strip_query (p_images p)\<rparr>)"
  using assms
  by (cases p) (simp add: from_json_def to_json_def at_str_def get_optional_field_def json_simps)

lemma from_json_images:
  "from_json L j = Some p \<Longrightarrow> s \<in> set (p_images p) \<Longrightarrow> CHR ''?'' \<notin> set s"
  by (auto simp: from_json_def split: bind_splits)

lemma c_str_no_nul: "CHR 0x00 \<notin> set s \<Longrightarrow> c_str s = s"
  by (auto simp: c_str_def takeWhile_eq_all_conv)

lemma make_dir_eq:
  assumes "mms_filename_size \<le> length f" "CHR 0x00 \<notin> set f"
  shows "make_dir f = Inr (''/'' @ take 1 f @ ''/'' @ take 1 (drop 1 f) @ ''/'' @ take 2 (drop 2 f))"
  using assms
  by (simp add: make_dir_def append_sub_def c_str_no_nul std_substr_def sz_defs numeral_2_eq_2)

text \<open>C39: a post survives the round trip through its JSON value and through the text sent to redis
  and to the clients, up to the queries of its image links, which reading removes: the link stored
  in memory carries no upload signature.\<close>

theorem post_json_roundtrip:
  assumes "json_laws L" "jdump L (to_json L p) = Some s"
  shows "Option.bind (jparse L s) (from_json L) = Some (p\<lparr>p_images := map strip_query (p_images p)\<rparr>)
    \<and> (\<forall>i \<in> set (map strip_query (p_images p)). CHR ''?'' \<notin> set i)"
  using assms by (auto simp: parse_dump from_to_json)

definition sample_post :: post where
  "sample_post = empty_post\<lparr>p_id := ''a1'', p_from := ''ann'', p_images := [''x.jpeg?hmac=1'']\<rparr>"

theorem post_json_roundtrip_witness:
  "Option.bind (jparse ref_lib (enc (to_json ref_lib sample_post))) (from_json ref_lib) =
     Some (sample_post\<lparr>p_images := [''x.jpeg'']\<rparr>)"
proof -
  have "jdump ref_lib (to_json ref_lib sample_post) = Some (enc (to_json ref_lib sample_post))"
    by simp
  from post_json_roundtrip [OF ref_json_laws this]
  show ?thesis by (simp add: sample_post_def empty_post_def strip_query_takeWhile)
qed

text \<open>The directory of a media file name of the required length is \<open>/x/y/zw\<close>, made of its first
  four characters, and has the declared size; a shorter name fails the assertion.\<close>

lemma make_dir_shape:
  assumes "CHR 0x00 \<notin> set f"
  shows "make_dir f =
      (if mms_filename_size \<le> length f
       then Inr (''/'' @ take 1 f @ ''/'' @ take 1 (drop 1 f) @ ''/'' @ take 2 (drop 2 f))
       else Inl Assert_failed)
    \<and> (\<forall>d. make_dir f = Inr d \<longrightarrow> length d = mms_dir_size)"
proof (cases "mms_filename_size \<le> length f")
  case True
  then show ?thesis by (simp add: make_dir_eq [OF True assms]) (simp add: sz_defs)
next
  case False
  then show ?thesis by (simp add: make_dir_def)
qed

end
