(* ===== verification/Channel.thy ===== *)
theory Channel
  imports Post
begin

text \<open>
  \<open>src/channel.cpp\<close>: the posts of the server in memory, a vector sorted by post id. The
  locale \<open>post_store\<close> is what the worker relies on: every operation but a successful removal
  keeps all posts up to their visualization counter, and a removal takes one post of the given
  id whose author asked for it.
\<close>

type_synonym channel = "post list"

section \<open>Operations\<close>

definition channel_get :: "channel \<Rightarrow> string \<Rightarrow> post" where
  "channel_get posts pid =
     (let tmp = empty_post\<lparr>p_id := pid\<rparr>;
          point = std_lower_bound comp_post_id_less posts tmp
      in if point = length posts then empty_post else posts ! point)"

definition add_post :: "post \<Rightarrow> channel \<Rightarrow> channel" where
  "add_post p posts =
     (let posts' = posts @ [p];
          prev = length posts' - 1;
          point = std_upper_bound comp_post_id_less (take prev posts') (posts' ! prev)
      in std_rotate point prev posts')"

definition remove_expired_posts :: "c_long \<Rightarrow> c_long \<Rightarrow> channel \<Rightarrow> post list \<times> channel" where
  "remove_expired_posts now exp posts = ([], posts)"

definition channel_on_visualization :: "string \<Rightarrow> channel \<Rightarrow> channel" where
  "channel_on_visualization pid posts =
     (case std_find_if (\<lambda>p. p_id p = pid) posts of
        None \<Rightarrow> posts
      | Some i \<Rightarrow> posts[i := (posts ! i)\<lparr>p_visualizations := p_visualizations (posts ! i) + 1\<rparr>])"

definition remove_post :: "string \<Rightarrow> string \<Rightarrow> bool \<Rightarrow> channel \<Rightarrow> bool \<times> channel" where
  "remove_post pid author ignore_owner posts =
     (case std_find_if (\<lambda>p. p_id p = pid) posts of
        None \<Rightarrow> (False, posts)
      | Some i \<Rightarrow>
          if p_from (posts ! i) = author \<or> ignore_owner then (True, erase_at i posts)
          else (False, posts))"

text \<open>The loop of \<open>is_child_of\<close>: the index at which it stops.\<close>

function child_loop :: "c_int list \<Rightarrow> c_int list \<Rightarrow> nat \<Rightarrow> nat" where
  "child_loop code wanted i =
     (if i < length wanted \<and> wanted ! i = code ! i then child_loop code wanted (Suc i) else i)"
  by pat_completeness auto
termination
  by (relation "measure (\<lambda>(code, wanted, i). length wanted - i)") auto

declare child_loop.simps [simp del]

definition is_child_of :: "c_int list \<Rightarrow> c_int list \<Rightarrow> bool" where
  "is_child_of code wanted =
     (if length code < length wanted then False
      else child_loop code wanted 0 = length wanted)"

text \<open>\<open>filter\<close> of the source: the receiver is called on \<open>p\<close> when it matches the query \<open>q\<close>.\<close>

definition filter_post :: "post \<Rightarrow> post \<Rightarrow> (post \<Rightarrow> 'a \<Rightarrow> 'a) \<Rightarrow> 'a \<Rightarrow> 'a" where
  "filter_post p q recv acc =
     (if \<not> is_child_of (p_location p) (p_location q) then acc
      else if \<not> is_child_of (p_product p) (p_product q) then acc
      else recv p acc)"

definition channel_query :: "post \<Rightarrow> c_int \<Rightarrow> channel \<Rightarrow> post list" where
  "channel_query q max_posts posts = fold (\<lambda>p. filter_post p q (\<lambda>p ret. ret @ [p])) posts []"

text \<open>\<open>count\<close> starts from the local \<open>int ret\<close>, which the source does not initialise: its
  initial value is the argument \<open>ret0\<close>.\<close>

definition channel_count :: "c_int \<Rightarrow> post \<Rightarrow> channel \<Rightarrow> c_int" where
  "channel_count ret0 q posts = fold (\<lambda>p. filter_post p q (\<lambda>p ret. ret + 1)) posts ret0"

fun load_visualizations :: "(string \<times> c_int) list \<Rightarrow> channel \<Rightarrow> channel" where
  "load_visualizations [] posts = posts"
| "load_visualizations v [] = []"
| "load_visualizations ((k, n) # v) (p # posts) =
     (if k = p_id p then p\<lparr>p_visualizations := n\<rparr> # load_visualizations v posts
      else load_visualizations v (p # posts))"

section \<open>The interface the worker uses\<close>

text \<open>A post without its visualization counter, the only part an operation rewrites.\<close>

definition post_core :: "post \<Rightarrow> post" where
  "post_core p = p\<lparr>p_visualizations := 0\<rparr>"

datatype store_cmd =
    Add_cmd post
  | Visual_cmd string
  | Remove_cmd string string bool
  | Load_cmd "(string \<times> c_int) list"

text \<open>The commands that can remove post \<open>p\<close>: by its author, or with the owner ignored.\<close>

definition may_remove :: "post \<Rightarrow> store_cmd \<Rightarrow> bool" where
  "may_remove p c =
     (case c of Remove_cmd i a adm \<Rightarrow> i = p_id p \<and> (a = p_from p \<or> adm) | _ \<Rightarrow> False)"

locale post_store =
  fixes add :: "post \<Rightarrow> 's \<Rightarrow> 's"
    and visual :: "string \<Rightarrow> 's \<Rightarrow> 's"
    and remove :: "string \<Rightarrow> string \<Rightarrow> bool \<Rightarrow> 's \<Rightarrow> bool \<times> 's"
    and load :: "(string \<times> c_int) list \<Rightarrow> 's \<Rightarrow> 's"
    and cores :: "'s \<Rightarrow> post multiset"
    and invar :: "'s \<Rightarrow> bool"
  assumes invar_add: "invar s \<Longrightarrow> invar (add p s)"
    and invar_visual: "invar s \<Longrightarrow> invar (visual i s)"
    and invar_remove: "invar s \<Longrightarrow> invar (snd (remove i a adm s))"
    and invar_load: "invar s \<Longrightarrow> invar (load v s)"
    and cores_add: "invar s \<Longrightarrow> cores (add p s) = add_mset (post_core p) (cores s)"
    and cores_visual: "invar s \<Longrightarrow> cores (visual i s) = cores s"
    and cores_load: "invar s \<Longrightarrow> cores (load v s) = cores s"
    and remove_False: "remove i a adm s = (False, s') \<Longrightarrow> s' = s"
    and remove_True: "invar s \<Longrightarrow> remove i a adm s = (True, s') \<Longrightarrow>
          \<exists>c. c \<in># cores s \<and> p_id c = i \<and> (p_from c = a \<or> adm) \<and> cores s = add_mset c (cores s')"
begin

fun exec_cmd :: "store_cmd \<Rightarrow> 's \<Rightarrow> 's" where
  "exec_cmd (Add_cmd p) s = add p s"
| "exec_cmd (Visual_cmd i) s = visual i s"
| "exec_cmd (Remove_cmd i a adm) s = snd (remove i a adm s)"
| "exec_cmd (Load_cmd v) s = load v s"

lemma exec_invar: "invar s \<Longrightarrow> invar (exec_cmd c s)"
  by (cases c) (simp_all add: invar_add invar_visual invar_remove invar_load)

lemma run_invar: "invar s \<Longrightarrow> invar (fold exec_cmd cs s)"
  by (induction cs arbitrary: s) (simp_all add: exec_invar)

text \<open>A post leaves the store only through a removal by its author or the administrator.\<close>

lemma exec_keeps:
  assumes "invar s" "p \<in># cores s" "\<not> may_remove p c"
  shows "p \<in># cores (exec_cmd c s)"
proof (cases c)
  case (Remove_cmd i a adm)
  obtain b s' where r: "remove i a adm s = (b, s')" by fastforce
  show ?thesis
  proof (cases b)
    case True
    with r have "remove i a adm s = (True, s')" by simp
    from remove_True [OF assms(1) this] obtain d where
      d: "p_id d = i" "p_from d = a \<or> adm" "cores s = add_mset d (cores s')" by blast
    then have "d \<noteq> p" using assms(3) Remove_cmd by (auto simp: may_remove_def)
    with d(3) assms(2) Remove_cmd r show ?thesis by simp
  next
    case False
    with r have "remove i a adm s = (False, s')" by simp
    then have "s' = s" by (rule remove_False)
    with r assms(2) Remove_cmd show ?thesis by simp
  qed
qed (use assms in \<open>simp_all add: cores_add cores_visual cores_load\<close>)

lemma run_keeps:
  "invar s \<Longrightarrow> p \<in># cores s \<Longrightarrow> \<forall>c \<in> set cs. \<not> may_remove p c \<Longrightarrow>
     p \<in># cores (fold exec_cmd cs s)"
  by (induction cs arbitrary: s) (simp_all add: exec_keeps exec_invar)

lemma run_adds:
  "invar s \<Longrightarrow> cores (fold add ps s) = image_mset post_core (mset ps) + cores s"
  by (induction ps arbitrary: s) (simp_all add: cores_add invar_add)

end

section \<open>The operations against their specification\<close>

definition sorted_posts :: "channel \<Rightarrow> bool" where
  "sorted_posts posts \<longleftrightarrow> sorted (map p_id posts)"

lemma sorted_posts_Nil [simp, intro]: "sorted_posts []"
  by (simp add: sorted_posts_def)

lemma p_id_empty_post [simp]: "p_id empty_post = ''''"
  by (simp add: empty_post_def)

lemma lower_bound_posts:
  assumes "sorted_posts posts"
  shows "std_lower_bound comp_post_id_less posts v = length (takeWhile (\<lambda>p. p_id p < p_id v) posts)"
  unfolding std_lower_bound_def comp_post_id_less_def
  by (rule bsearch_takeWhile)
    (use assms in \<open>auto simp: sorted_posts_def sorted_wrt_map intro: sorted_wrt_mono_rel [rotated]\<close>)

lemma upper_bound_posts:
  assumes "sorted_posts posts"
  shows "std_upper_bound comp_post_id_less posts v = length (takeWhile (\<lambda>p. p_id p \<le> p_id v) posts)"
  unfolding std_upper_bound_def comp_post_id_less_def not_less
  by (rule bsearch_takeWhile)
    (use assms in \<open>auto simp: sorted_posts_def sorted_wrt_map intro: sorted_wrt_mono_rel [rotated]\<close>)

lemma channel_get_eq:
  assumes "sorted_posts posts"
  shows "channel_get posts pid =
    (case dropWhile (\<lambda>p. p_id p < pid) posts of [] \<Rightarrow> empty_post | p # _ \<Rightarrow> p)"
proof -
  let ?P = "\<lambda>p. p_id p < pid"
  have k: "std_lower_bound comp_post_id_less posts (empty_post\<lparr>p_id := pid\<rparr>)
      = length (takeWhile ?P posts)"
    using assms by (simp add: lower_bound_posts)
  have "posts = takeWhile ?P posts @ dropWhile ?P posts" by simp
  then have l: "length posts = length (takeWhile ?P posts) + length (dropWhile ?P posts)"
    by (metis length_append)
  have n: "posts ! length (takeWhile ?P posts) = p" if "dropWhile ?P posts = p # ps" for p ps
    using that by (metis nth_append_length takeWhile_dropWhile_id)
  show ?thesis
    using l n by (auto simp: channel_get_def k Let_def simp del: dropWhile_eq_Nil_conv
      split: list.splits)
qed

lemma channel_get_find:
  assumes "sorted_posts posts" "pid \<in> p_id ` set posts"
  shows "List.find (\<lambda>p. p_id p = pid) posts = Some (channel_get posts pid)"
  using assms
proof (induction posts)
  case (Cons p ps)
  have s: "sorted_posts ps" using Cons.prems(1) by (simp add: sorted_posts_def)
  show ?case
  proof (cases "p_id p = pid")
    case True
    with Cons.prems(1) show ?thesis by (simp add: channel_get_eq)
  next
    case False
    with Cons.prems have "pid \<in> p_id ` set ps" "p_id p < pid"
      by (auto simp: sorted_posts_def less_le)
    with Cons.IH s Cons.prems(1) False show ?thesis by (simp add: channel_get_eq)
  qed
qed simp

lemma channel_get_in:
  assumes "sorted_posts posts" "p \<in> set posts" "p_id p = pid"
  shows "channel_get posts pid \<in> set posts \<and> p_id (channel_get posts pid) = pid"
proof -
  have "pid \<in> p_id ` set posts" using assms(2,3) by blast
  from channel_get_find [OF assms(1) this] show ?thesis
    by (auto simp: find_Some_iff)
qed

lemma remove_post_find:
  "snd (remove_post i a adm ps) =
    (case List.find (\<lambda>p. p_id p = i) ps of
       Some r \<Rightarrow> if p_from r = a \<or> adm then remove1 r ps else ps
     | None \<Rightarrow> ps)"
  by (auto simp: remove_post_def find_std_find_if erase_at_find split: option.splits)

lemma add_post_eq:
  assumes "sorted_posts posts"
  shows "add_post p posts =
    takeWhile (\<lambda>q. p_id q \<le> p_id p) posts @ p # dropWhile (\<lambda>q. p_id q \<le> p_id p) posts"
  using assms
  by (simp add: add_post_def Let_def upper_bound_posts std_rotate_last length_takeWhile_le
      flip: takeWhile_eq_take dropWhile_eq_drop)

lemma sorted_add_post:
  assumes "sorted_posts posts"
  shows "sorted_posts (add_post p posts)"
proof -
  let ?P = "\<lambda>q. p_id q \<le> p_id p"
  have "sorted (map p_id (takeWhile ?P posts @ dropWhile ?P posts))"
    using assms by (simp add: sorted_posts_def)
  then have parts: "sorted (map p_id (takeWhile ?P posts))" "sorted (map p_id (dropWhile ?P posts))"
    unfolding map_append sorted_append by blast+
  have low: "p_id q \<le> p_id p" if "q \<in> set (takeWhile ?P posts)" for q
    using that by (auto dest: set_takeWhileD)
  have high: "p_id p \<le> p_id q" if q: "q \<in> set (dropWhile ?P posts)" for q
  proof -
    have "dropWhile ?P posts \<noteq> []" using q by fastforce
    then obtain r rs where r: "dropWhile ?P posts = r # rs" by (meson neq_Nil_conv)
    then have "p_id p \<le> p_id r" using hd_dropWhile [of ?P posts] by auto
    with parts(2) q r show ?thesis by auto
  qed
  show ?thesis
    unfolding add_post_eq [OF assms] sorted_posts_def map_append list.map(2)
    by (rule sorted_mid [OF parts]) (use low high in auto)
qed

lemma mset_add_post: "sorted_posts posts \<Longrightarrow> mset (add_post p posts) = add_mset p (mset posts)"
  by (simp add: add_post_eq)
    (metis mset_append takeWhile_dropWhile_id)

lemma post_core_sel [simp]:
  "p_id (post_core p) = p_id p" "p_from (post_core p) = p_from p"
  "post_core (p\<lparr>p_visualizations := n\<rparr>) = post_core p"
  "post_core (post_core p) = post_core p"
  by (simp_all add: post_core_def)

lemma map_core_ids: "map post_core xs = map post_core ys \<Longrightarrow> map p_id xs = map p_id ys"
proof -
  assume "map post_core xs = map post_core ys"
  then have "map p_id (map post_core xs) = map p_id (map post_core ys)" by (rule arg_cong)
  then show ?thesis by (simp add: comp_def)
qed

lemma core_on_visualization:
  "map post_core (channel_on_visualization i posts) = map post_core posts"
proof (cases "std_find_if (\<lambda>p. p_id p = i) posts")
  case None
  then show ?thesis by (simp add: channel_on_visualization_def)
next
  case (Some j)
  then have "j < length posts" by (blast dest: std_find_if_Some)
  with Some show ?thesis
    by (simp add: channel_on_visualization_def map_update list_update_same_conv)
qed

lemma core_load_visualizations:
  "map post_core (load_visualizations v posts) = map post_core posts"
  by (induction v posts rule: load_visualizations.induct) simp_all

lemmas channel_frames = core_on_visualization core_load_visualizations

lemma sorted_remove_post: "sorted_posts posts \<Longrightarrow> sorted_posts (snd (remove_post i a adm posts))"
  by (auto simp: remove_post_def sorted_posts_def map_erase_at sorted_erase_at split: option.splits)

lemma remove_post_True:
  assumes "remove_post i a adm posts = (True, posts')"
  shows "\<exists>p. p_id p = i \<and> (p_from p = a \<or> adm) \<and> mset posts = add_mset p (mset posts')"
proof -
  from assms obtain k where k: "std_find_if (\<lambda>p. p_id p = i) posts = Some k"
    and own: "p_from (posts ! k) = a \<or> adm" and posts': "posts' = erase_at k posts"
    by (auto simp: remove_post_def split: option.splits if_splits)
  from k have "k < length posts" "p_id (posts ! k) = i" by (auto dest: std_find_if_Some)
  with own posts' show ?thesis using mset_erase_at by blast
qed

definition post_cores :: "channel \<Rightarrow> post multiset" where
  "post_cores posts = image_mset post_core (mset posts)"

lemma post_cores_cong: "map post_core xs = map post_core ys \<Longrightarrow> post_cores xs = post_cores ys"
  unfolding post_cores_def by (metis mset_map)

interpretation chan: post_store add_post channel_on_visualization remove_post
  load_visualizations post_cores sorted_posts
proof unfold_locales
  fix posts posts' :: channel and p :: post and i a adm v
  show "post_cores (channel_on_visualization i posts) = post_cores posts"
    and "post_cores (load_visualizations v posts) = post_cores posts"
    by (intro post_cores_cong channel_frames)+
  show "sorted_posts posts \<Longrightarrow> sorted_posts (add_post p posts)" by (rule sorted_add_post)
  show "sorted_posts posts \<Longrightarrow> sorted_posts (channel_on_visualization i posts)"
    using map_core_ids [OF core_on_visualization [of i posts]] by (simp add: sorted_posts_def)
  show "sorted_posts posts \<Longrightarrow> sorted_posts (load_visualizations v posts)"
    using map_core_ids [OF core_load_visualizations [of v posts]] by (simp add: sorted_posts_def)
  show "sorted_posts posts \<Longrightarrow> sorted_posts (snd (remove_post i a adm posts))"
    by (rule sorted_remove_post)
  show "sorted_posts posts \<Longrightarrow> post_cores (add_post p posts) = add_mset (post_core p) (post_cores posts)"
    by (simp add: post_cores_def mset_add_post)
  show "posts' = posts" if "remove_post i a adm posts = (False, posts')"
    using that by (auto simp: remove_post_def split: option.splits if_splits)
  show "\<exists>c. c \<in># post_cores posts \<and> p_id c = i \<and> (p_from c = a \<or> adm) \<and>
      post_cores posts = add_mset c (post_cores posts')"
    if "sorted_posts posts" "remove_post i a adm posts = (True, posts')"
  proof -
    from remove_post_True [OF that(2)] obtain p
      where "p_id p = i" "p_from p = a \<or> adm" "mset posts = add_mset p (mset posts')" by blast
    then show ?thesis by (intro exI [of _ "post_core p"]) (simp add: post_cores_def)
  qed
qed

fun channel_exec :: "store_cmd \<Rightarrow> channel \<Rightarrow> channel" where
  "channel_exec (Add_cmd p) s = add_post p s"
| "channel_exec (Visual_cmd i) s = channel_on_visualization i s"
| "channel_exec (Remove_cmd i a adm) s = snd (remove_post i a adm s)"
| "channel_exec (Load_cmd v) s = load_visualizations v s"

lemma channel_exec_eq: "chan.exec_cmd = channel_exec"
proof (intro ext)
  fix c s show "chan.exec_cmd c s = channel_exec c s" by (cases c) simp_all
qed

section \<open>Searching\<close>

lemma child_loop_le: "i \<le> length wanted \<Longrightarrow> child_loop code wanted i \<le> length wanted"
proof (induction code wanted i rule: child_loop.induct)
  case (1 code wanted i)
  then show ?case by (subst child_loop.simps) auto
qed

lemma child_loop_full:
  assumes "i \<le> length wanted" "length wanted \<le> length code"
  shows "child_loop code wanted i = length wanted \<longleftrightarrow> (\<forall>j. i \<le> j \<and> j < length wanted \<longrightarrow> wanted ! j = code ! j)"
  using assms
proof (induction code wanted i rule: child_loop.induct)
  case (1 code wanted i)
  show ?case
  proof (cases "i < length wanted \<and> wanted ! i = code ! i")
    case True
    with 1 have "child_loop code wanted (Suc i) = length wanted \<longleftrightarrow>
        (\<forall>j. Suc i \<le> j \<and> j < length wanted \<longrightarrow> wanted ! j = code ! j)" by simp
    with True show ?thesis
      by (subst child_loop.simps) (metis Suc_leD Suc_leI le_neq_implies_less)
  next
    case False
    with 1(2) show ?thesis by (subst child_loop.simps) auto
  qed
qed

lemma is_child_of_prefix: "is_child_of code wanted \<longleftrightarrow> prefix wanted code"
proof (cases "length code < length wanted")
  case True
  then show ?thesis using prefix_length_le by (force simp: is_child_of_def)
next
  case False
  then have "is_child_of code wanted \<longleftrightarrow> (\<forall>j < length wanted. wanted ! j = code ! j)"
    by (simp add: is_child_of_def child_loop_full)
  also have "\<dots> \<longleftrightarrow> take (length wanted) code = wanted"
    using False by (auto simp: list_eq_iff_nth_eq)
  also have "\<dots> \<longleftrightarrow> prefix wanted code"
    by (metis append_eq_conv_conj prefix_def take_is_prefix)
  finally show ?thesis .
qed

definition post_matches :: "post \<Rightarrow> post \<Rightarrow> bool" where
  "post_matches q p \<longleftrightarrow> prefix (p_location q) (p_location p) \<and> prefix (p_product q) (p_product p)"

lemma filter_post_eq: "filter_post p q recv acc = (if post_matches q p then recv p acc else acc)"
  by (simp add: filter_post_def is_child_of_prefix post_matches_def)

lemma fold_query:
  "fold (\<lambda>p. filter_post p q (\<lambda>p ret. ret @ [p])) posts acc = acc @ filter (post_matches q) posts"
  by (induction posts arbitrary: acc) (simp_all add: filter_post_eq)

lemma channel_query_filter: "channel_query q n posts = filter (post_matches q) posts"
  by (simp add: channel_query_def fold_query)

text \<open>A search does not look at the counters.\<close>

lemma core_query: "map post_core (channel_query q n posts) = filter (post_matches q) (map post_core posts)"
proof -
  have "post_matches q \<circ> post_core = post_matches q"
    by (simp add: fun_eq_iff post_matches_def post_core_def)
  then show ?thesis by (simp add: channel_query_filter filter_map)
qed

lemma channel_count_eq:
  "channel_count ret0 q posts = ret0 + of_nat (length (filter (post_matches q) posts))"
  unfolding channel_count_def
  by (induction posts arbitrary: ret0) (simp_all add: filter_post_eq)

section \<open>Properties\<close>

text \<open>Looking up a post id that is present finds a post with that id, the first one stored.\<close>

lemma get_present:
  assumes "sorted_posts posts" "pid \<in> p_id ` set posts"
  shows "List.find (\<lambda>p. p_id p = pid) posts = Some (channel_get posts pid)"
  using assms by (rule channel_get_find)

text \<open>Looking up a post id that is absent does not report it: when a larger id is stored, the
  post with the least larger id is returned in its place.\<close>

lemma get_absent_returns_neighbour:
  assumes "sorted_posts posts" "pid \<notin> p_id ` set posts" "\<exists>q \<in> set posts. pid < p_id q"
  shows "channel_get posts pid \<in> set posts \<and> pid < p_id (channel_get posts pid)
    \<and> (\<forall>q \<in> set posts. pid < p_id q \<longrightarrow> p_id (channel_get posts pid) \<le> p_id q)"
  using assms
proof (induction posts)
  case (Cons p ps)
  show ?case
  proof (cases "p_id p < pid")
    case True
    with Cons.prems have "sorted_posts ps" "pid \<notin> p_id ` set ps" "\<exists>q \<in> set ps. pid < p_id q"
      by (auto simp: sorted_posts_def)
    with Cons.IH Cons.prems(1) True show ?thesis by (auto simp: channel_get_eq)
  next
    case False
    with Cons.prems have "pid < p_id p" by (auto simp: less_le not_less)
    with Cons.prems(1) False show ?thesis by (auto simp: channel_get_eq sorted_posts_def)
  qed
qed simp

text \<open>C24: the binary search and the rotation of \<open>add_post\<close> amount to a stable insertion: the new
  post lands behind every post with an id up to its own, the others keep their places.\<close>

theorem add_post_insertion:
  assumes "sorted_posts posts"
  shows "add_post p posts =
      filter (\<lambda>q. p_id q \<le> p_id p) posts @ [p] @ filter (\<lambda>q. p_id p < p_id q) posts
    \<and> sorted_posts (add_post p posts)"
proof -
  let ?P = "\<lambda>q. p_id q \<le> p_id p"
  have "takeWhile ?P xs = filter ?P xs \<and> dropWhile ?P xs = filter (\<lambda>q. \<not> ?P q) xs"
    if "sorted_posts xs" for xs
    using that
  proof (induction xs)
    case (Cons x xs)
    then have "sorted_posts xs" by (simp add: sorted_posts_def)
    show ?case
    proof (cases "?P x")
      case True
      with Cons.IH [OF \<open>sorted_posts xs\<close>] show ?thesis by simp
    next
      case False
      with Cons.prems have "\<forall>y \<in> set xs. \<not> ?P y" by (fastforce simp: sorted_posts_def)
      with False show ?thesis by (simp add: filter_empty_conv)
    qed
  qed simp
  from this [OF assms] have "add_post p posts =
      filter ?P posts @ [p] @ filter (\<lambda>q. p_id p < p_id q) posts"
    by (simp add: add_post_eq [OF assms] not_le)
  with sorted_add_post [OF assms] show ?thesis by blast
qed

theorem add_post_insertion_witness:
  "add_post (empty_post\<lparr>p_id := ''b''\<rparr>) [empty_post\<lparr>p_id := ''a''\<rparr>, empty_post\<lparr>p_id := ''c''\<rparr>] =
     [empty_post\<lparr>p_id := ''a''\<rparr>, empty_post\<lparr>p_id := ''b''\<rparr>, empty_post\<lparr>p_id := ''c''\<rparr>]"
  using add_post_insertion [of "[empty_post\<lparr>p_id := ''a''\<rparr>, empty_post\<lparr>p_id := ''c''\<rparr>]"
      "empty_post\<lparr>p_id := ''b''\<rparr>"]
  by (simp add: sorted_posts_def)

text \<open>Whatever sequence of commands the posts go through, they stay sorted by id, and a post
  leaves the store only through a removal that names its id and either its author or the override
  of the administrator; nothing but its visualization counter changes meanwhile.\<close>

lemma posts_safe:
  assumes "sorted_posts posts"
  shows "sorted_posts (fold channel_exec cs posts)
    \<and> (\<forall>p \<in># post_cores posts. (\<forall>c \<in> set cs. \<not> may_remove p c) \<longrightarrow>
          p \<in># post_cores (fold channel_exec cs posts))"
  using chan.run_invar [OF assms, of cs] chan.run_keeps [OF assms, of _ cs]
  by (simp add: channel_exec_eq)

text \<open>A removal succeeds exactly when a post with the id is stored and the first such post
  belongs to the caller or the owner is to be ignored; it then removes that one post, and nothing
  otherwise.\<close>

lemma remove_post_result:
  "remove_post i a adm posts =
     (case std_find_if (\<lambda>p. p_id p = i) posts of
        None \<Rightarrow> (False, posts)
      | Some k \<Rightarrow> if p_from (posts ! k) = a \<or> adm then (True, take k posts @ drop (Suc k) posts)
                  else (False, posts))
   \<and> (\<forall>posts'. remove_post i a adm posts = (True, posts') \<longrightarrow>
        (\<exists>p. p_id p = i \<and> (p_from p = a \<or> adm) \<and> mset posts = add_mset p (mset posts')))
   \<and> (i \<notin> p_id ` set posts \<longrightarrow> remove_post i a adm posts = (False, posts))"
proof -
  have "std_find_if (\<lambda>p. p_id p = i) posts = None" if "i \<notin> p_id ` set posts"
    using that by (auto simp: std_find_if_None)
  then show ?thesis
    using remove_post_True
    by (auto simp: remove_post_def erase_at_def split: option.splits)
qed

text \<open>\<open>is_child_of\<close> decides whether the wanted code is a prefix of the code: the loop
  over an index agrees with the specification on every pair of vectors.\<close>

lemma is_child_of_correct:
  "is_child_of code wanted \<longleftrightarrow> (\<exists>rest. code = wanted @ rest)"
  by (simp add: is_child_of_prefix prefix_def)

text \<open>A search returns, in order of post id, exactly the posts whose location and product lie
  below those of the query, whatever maximum is passed: the limit on the number of results is
  never applied.\<close>

lemma query_ignores_limit:
  "channel_query q mx posts =
     filter (\<lambda>p. prefix (p_location q) (p_location p) \<and> prefix (p_product q) (p_product p)) posts
   \<and> (sorted_posts posts \<longrightarrow> sorted_posts (channel_query q mx posts))
   \<and> length (channel_query q 0 posts) = length (channel_query q mx posts)"
proof -
  have "post_matches q = (\<lambda>p. prefix (p_location q) (p_location p) \<and> prefix (p_product q) (p_product p))"
    by (simp add: fun_eq_iff post_matches_def)
  moreover have "sorted (map p_id (filter P posts))" if "sorted (map p_id posts)" for P
    using that sorted_filter by blast
  ultimately show ?thesis
    by (simp add: channel_query_filter sorted_posts_def)
qed

text \<open>Counting adds the number of matches of the search to the initial value of its counter,
  which the code never sets: the result is right only when that value happens to be zero, and two
  calls on the same posts can differ.\<close>

lemma count_uninitialised:
  "channel_count ret0 q posts = ret0 + of_nat (length (channel_query q mx posts))
   \<and> (channel_count ret0 q posts = of_nat (length (channel_query q mx posts)) \<longleftrightarrow> ret0 = 0)
   \<and> (channel_count ret0 q posts = channel_count ret1 q posts \<longleftrightarrow> ret0 = ret1)"
  by (simp add: channel_count_eq channel_query_filter)

section \<open>Loading the visualizations\<close>

lemma load_no_match:
  "p_id p \<notin> fst ` set v \<Longrightarrow> load_visualizations v (p # posts) = p # posts"
  by (induction v) auto

text \<open>When every post has an entry and the entries come in the order of the posts, loading sets
  every counter to the value of its entry.\<close>

lemma load_complete:
  assumes "subseq (map p_id posts) (map fst v)" "distinct (map fst v)"
  shows "load_visualizations v posts =
    map (\<lambda>p. p\<lparr>p_visualizations := the (map_of v (p_id p))\<rparr>) posts"
  using assms
proof (induction v posts rule: load_visualizations.induct)
  case (3 k n v p posts)
  show ?case
  proof (cases "k = p_id p")
    case True
    with "3.prems" have sub: "subseq (map p_id posts) (map fst v)" and d: "distinct (map fst v)"
      by simp_all
    have "k \<notin> p_id ` set posts"
    proof
      assume "k \<in> p_id ` set posts"
      then have "k \<in> set (map fst v)" using sub by (metis list.set_map subseq_set subsetD)
      with "3.prems"(2) show False by simp
    qed
    then have "map (\<lambda>p. p\<lparr>p_visualizations := the (map_of v (p_id p))\<rparr>) posts =
        map (\<lambda>p. p\<lparr>p_visualizations := the (map_of ((k, n) # v) (p_id p))\<rparr>) posts"
      by (auto simp: image_iff)
    with "3.IH"(1) [OF True sub d] True show ?thesis by simp
  next
    case False
    with "3.prems" have sub: "subseq (map p_id (p # posts)) (map fst v)" and d: "distinct (map fst v)"
      by simp_all
    have "k \<notin> p_id ` set (p # posts)"
    proof
      assume "k \<in> p_id ` set (p # posts)"
      then have "k \<in> set (map fst v)" using sub by (metis list.set_map subseq_set subsetD)
      with "3.prems"(2) show False by simp
    qed
    then have "map (\<lambda>p. p\<lparr>p_visualizations := the (map_of v (p_id p))\<rparr>) (p # posts) =
        map (\<lambda>p. p\<lparr>p_visualizations := the (map_of ((k, n) # v) (p_id p))\<rparr>) (p # posts)"
      by (auto simp: image_iff)
    with "3.IH"(2) [OF False sub d] False show ?thesis by simp
  qed
qed (auto dest: list_emb_Nil2)

text \<open>A post without an entry stops the loading: it and every post behind it keep their counters,
  although later entries may name those posts.\<close>

lemma load_stalls:
  assumes "subseq (map p_id ps) (map fst v)" "p_id p \<notin> fst ` set v" "distinct (map fst v)"
  shows "load_visualizations v (ps @ p # qs) = load_visualizations v ps @ p # qs"
  using assms
proof (induction v ps rule: load_visualizations.induct)
  case (1 posts)
  then show ?case by simp
next
  case (2 v va)
  then show ?case using load_no_match [of p "v # va" qs] by simp
next
  case (3 k n v r posts)
  show ?case
  proof (cases "k = p_id r")
    case True
    with 3 show ?thesis by simp
  next
    case False
    with 3 show ?thesis by simp
  qed
qed

end
