(* ===== verification/Ws_Session.thy ===== *)
theory Ws_Session
  imports Prelude
begin

text \<open>
  \<open>src/ws_session.hpp\<close>, \<open>src/ws_session_base.hpp\<close>: one websocket session, its queue of outgoing
  messages and its part in the life of a connection. The asynchronous operations a handler starts
  on the stream are appended to \<open>pending_ops\<close>; they leave the list when they complete and their
  completion handler runs. The locale \<open>session_base\<close> is the abstract class \<open>ws_session_base\<close>, the
  only view the worker has of a session.
\<close>

datatype ev_res =
    Register_ok | Register_fail
  | Login_ok | Login_fail
  | Subscribe_ok | Subscribe_fail
  | Publish_ok | Publish_fail
  | Chat_msg_ok | Chat_msg_fail
  | Presence_ok | Presence_fail
  | Unknown

record msg_entry =
  e_msg :: string
  e_persist :: bool

datatype ws_op = Async_accept | Async_read | Async_write string | Async_close

record ws_session =
  pong_counter :: c_int
  msg_queue :: "msg_entry list"
  closing :: bool
  pub_hash :: string
  pending_ops :: "ws_op list"

section \<open>Operations\<close>

definition new_session :: ws_session where
  "new_session =
     \<lparr> pong_counter = 0, msg_queue = [], closing = False, pub_hash = '''', pending_ops = [] \<rparr>"

definition start_op :: "ws_op \<Rightarrow> ws_session \<Rightarrow> ws_session" where
  "start_op ope s = s\<lparr>pending_ops := pending_ops s @ [ope]\<rparr>"

definition complete_op :: "ws_op \<Rightarrow> ws_session \<Rightarrow> ws_session" where
  "complete_op ope s = s\<lparr>pending_ops := remove1 ope (pending_ops s)\<rparr>"

definition ws_run :: "ws_session \<Rightarrow> ws_session" where
  "ws_run s = start_op Async_accept s"

definition do_read :: "ws_session \<Rightarrow> ws_session" where
  "do_read s = start_op Async_read s"

definition do_write :: "string \<Rightarrow> ws_session \<Rightarrow> ws_session" where
  "do_write msg s = start_op (Async_write msg) s"

definition ws_send :: "string \<Rightarrow> bool \<Rightarrow> ws_session \<Rightarrow> ws_session" where
  "ws_send msg persist s =
     (let is_empty = (msg_queue s = []);
          s = s\<lparr>msg_queue := msg_queue s @ [\<lparr>e_msg = msg, e_persist = persist\<rparr>]\<rparr>
      in if is_empty \<and> \<not> closing s then do_write (e_msg (hd (msg_queue s))) s else s)"

definition ws_shutdown :: "ws_session \<Rightarrow> ws_session" where
  "ws_shutdown s = (if closing s then s else start_op Async_close (s\<lparr>closing := True\<rparr>))"

definition set_pub_hash :: "string \<Rightarrow> ws_session \<Rightarrow> ws_session" where
  "set_pub_hash h s = s\<lparr>pub_hash := h\<rparr>"

definition get_pub_hash :: "ws_session \<Rightarrow> string" where
  "get_pub_hash s = pub_hash s"

definition is_logged_in :: "ws_session \<Rightarrow> bool" where
  "is_logged_in s \<longleftrightarrow> pub_hash s \<noteq> ''''"

text \<open>The completion handler of a write; \<open>ec\<close> tells whether it failed.\<close>

definition on_write :: "bool \<Rightarrow> ws_session \<Rightarrow> ws_session" where
  "on_write ec s =
     (if ec then s
      else let s = s\<lparr>msg_queue := tl (msg_queue s)\<rparr>
           in if msg_queue s = [] then s else do_write (e_msg (hd (msg_queue s))) s)"

text \<open>The control callback on a pong frame.\<close>

definition on_pong :: "ws_session \<Rightarrow> ws_session" where
  "on_pong s =
     (let s = s\<lparr>pong_counter := pong_counter s + 1\<rparr>
      in if 1 < sint (pong_counter s) \<and> \<not> is_logged_in s then ws_shutdown s else s)"

definition handle_ev :: "ev_res \<Rightarrow> ws_session \<Rightarrow> ws_session" where
  "handle_ev r s =
     (case r of
        Register_fail \<Rightarrow> ws_shutdown s
      | Login_fail \<Rightarrow> ws_shutdown s
      | Subscribe_fail \<Rightarrow> ws_shutdown s
      | Chat_msg_fail \<Rightarrow> ws_shutdown s
      | Unknown \<Rightarrow> ws_shutdown s
      | _ \<Rightarrow> s)"

text \<open>
  What \<open>finish\<close> does to the queue of a logged in session: \<open>std::remove_if\<close> moves the persistent
  entries to the front and their texts are then moved into the vector handed to the worker. A
  moved-from string is empty.
\<close>

definition take_undelivered :: "ws_session \<Rightarrow> string list \<times> ws_session" where
  "take_undelivered s =
     (let kept = filter e_persist (msg_queue s);
          moved = (\<lambda>e. e\<lparr>e_msg := ''''\<rparr>);
          rest = map (\<lambda>e. if e_persist e then moved e else e) (drop (length kept) (msg_queue s))
      in (map e_msg kept, s\<lparr>msg_queue := map moved kept @ rest\<rparr>))"

section \<open>The interface of a session\<close>

locale session_base =
  fixes set_hash :: "string \<Rightarrow> 's \<Rightarrow> 's"
    and get_hash :: "'s \<Rightarrow> string"
    and logged_in :: "'s \<Rightarrow> bool"
    and shut :: "'s \<Rightarrow> 's"
    and send :: "string \<Rightarrow> bool \<Rightarrow> 's \<Rightarrow> 's"
    and queue :: "'s \<Rightarrow> (string \<times> bool) list"
    and closed :: "'s \<Rightarrow> bool"
  assumes logged_in_iff: "logged_in s \<longleftrightarrow> get_hash s \<noteq> ''''"
    and hash_set: "get_hash (set_hash h s) = h"
    and hash_send: "get_hash (send m p s) = get_hash s"
    and hash_shut: "get_hash (shut s) = get_hash s"
    and queue_set: "queue (set_hash h s) = queue s"
    and queue_send: "queue (send m p s) = queue s @ [(m, p)]"
    and queue_shut: "queue (shut s) = queue s"
    and closed_set: "closed (set_hash h s) = closed s"
    and closed_send: "closed (send m p s) = closed s"
    and closed_shut: "closed (shut s)"
    and shut_closed: "closed s \<Longrightarrow> shut s = s"
begin

lemmas frames = hash_set hash_send hash_shut queue_set queue_send queue_shut
  closed_set closed_send closed_shut

lemma shut_twice: "shut (shut s) = shut s"
  by (simp add: shut_closed closed_shut)

lemma logged_in_send: "logged_in (send m p s) = logged_in s"
  by (simp add: logged_in_iff hash_send)

text \<open>Delivering several messages to one session.\<close>

lemma hash_send_all: "get_hash (fold (\<lambda>m. send m p) ms s) = get_hash s"
  by (induction ms arbitrary: s) (simp_all add: hash_send)

lemma queue_send_all: "queue (fold (\<lambda>m. send m p) ms s) = queue s @ map (\<lambda>m. (m, p)) ms"
  by (induction ms arbitrary: s) (simp_all add: queue_send)

lemma closed_send_all: "closed (fold (\<lambda>m. send m p) ms s) = closed s"
  by (induction ms arbitrary: s) (simp_all add: closed_send)

end

definition queued :: "ws_session \<Rightarrow> (string \<times> bool) list" where
  "queued s = map (\<lambda>e. (e_msg e, e_persist e)) (msg_queue s)"

named_theorems ws_defs \<open>definitions of the session operations\<close>
declare start_op_def [ws_defs] complete_op_def [ws_defs] do_read_def [ws_defs]
  do_write_def [ws_defs] ws_run_def [ws_defs] ws_send_def [ws_defs] ws_shutdown_def [ws_defs]
  set_pub_hash_def [ws_defs] get_pub_hash_def [ws_defs] is_logged_in_def [ws_defs]
  on_write_def [ws_defs] on_pong_def [ws_defs] queued_def [ws_defs] new_session_def [ws_defs]

interpretation ws: session_base set_pub_hash get_pub_hash is_logged_in ws_shutdown ws_send
  queued closing
  by unfold_locales (simp_all add: ws_defs Let_def)

section \<open>One write at a time, in the order of the queue\<close>

definition writes :: "ws_session \<Rightarrow> string list" where
  "writes s = concat (map (\<lambda>ope. case ope of Async_write m \<Rightarrow> [m] | _ \<Rightarrow> []) (pending_ops s))"

definition write_inv :: "ws_session \<Rightarrow> bool" where
  "write_inv s \<longleftrightarrow> writes s = [] \<or> (msg_queue s \<noteq> [] \<and> writes s = [e_msg (hd (msg_queue s))])"

text \<open>
  The life of the queue of one session: messages sent, writes completing or failing, the other
  operations on the session in between, and its end while a user is logged in. \<open>sent\<close> and \<open>written\<close>
  list the texts sent so far and the texts whose write has completed. \<open>ended\<close> is set by the end: what
  had been written then, the queue at that moment and the texts handed back to the worker. From then
  on nothing is sent to the session, which is no longer in the table of the worker, but a write that
  is outstanding can still complete.
\<close>

type_synonym ended = "(string list \<times> msg_entry list \<times> string list) option"

inductive ws_trace :: "string list \<Rightarrow> string list \<Rightarrow> ended \<Rightarrow> ws_session \<Rightarrow> bool" where
  fresh: "ws_trace [] [] None new_session"
| accept: "ws_trace sent written d s \<Longrightarrow> ws_trace sent written d (ws_run s)"
| accepted: "ws_trace sent written d s \<Longrightarrow> ws_trace sent written d (complete_op Async_accept s)"
| read: "ws_trace sent written d s \<Longrightarrow> ws_trace sent written d (do_read s)"
| read_done: "ws_trace sent written d s \<Longrightarrow> ws_trace sent written d (complete_op Async_read s)"
| send: "ws_trace sent written None s \<Longrightarrow> ws_trace (sent @ [m]) written None (ws_send m p s)"
| hash: "ws_trace sent written d s \<Longrightarrow> ws_trace sent written d (set_pub_hash h s)"
| shut: "ws_trace sent written d s \<Longrightarrow> ws_trace sent written d (ws_shutdown s)"
| closed: "ws_trace sent written d s \<Longrightarrow> ws_trace sent written d (complete_op Async_close s)"
| pong: "ws_trace sent written d s \<Longrightarrow> ws_trace sent written d (on_pong s)"
| write_ok: "ws_trace sent written d s \<Longrightarrow> Async_write m \<in> set (pending_ops s) \<Longrightarrow>
     ws_trace sent (written @ [m]) d (on_write False (complete_op (Async_write m) s))"
| write_err: "ws_trace sent written d s \<Longrightarrow> Async_write m \<in> set (pending_ops s) \<Longrightarrow>
     ws_trace sent written d (on_write True (complete_op (Async_write m) s))"
| finished: "ws_trace sent written None s \<Longrightarrow> is_logged_in s \<Longrightarrow> take_undelivered s = (kept, s') \<Longrightarrow>
     ws_trace sent written (Some (written, msg_queue s, kept)) s'"

lemma writes_simps [simp]:
  "writes (start_op (Async_write m) s) = writes s @ [m]"
  "writes (start_op Async_read s) = writes s"
  "writes (start_op Async_accept s) = writes s"
  "writes (start_op Async_close s) = writes s"
  "writes (s\<lparr>msg_queue := q\<rparr>) = writes s"
  "writes (s\<lparr>closing := c\<rparr>) = writes s"
  "writes (s\<lparr>pub_hash := h\<rparr>) = writes s"
  "writes (s\<lparr>pong_counter := n\<rparr>) = writes s"
  by (simp_all add: writes_def start_op_def)

lemma start_op_sel [simp]:
  "msg_queue (start_op ope s) = msg_queue s" "closing (start_op ope s) = closing s"
  "pub_hash (start_op ope s) = pub_hash s" "pong_counter (start_op ope s) = pong_counter s"
  by (simp_all add: start_op_def)

lemma complete_op_sel [simp]:
  "msg_queue (complete_op ope s) = msg_queue s" "closing (complete_op ope s) = closing s"
  "pub_hash (complete_op ope s) = pub_hash s" "pong_counter (complete_op ope s) = pong_counter s"
  by (simp_all add: complete_op_def)

lemma in_writes: "Async_write m \<in> set (pending_ops s) \<Longrightarrow> m \<in> set (writes s)"
  by (force simp: writes_def)

lemma writes_complete [simp]:
  "writes (complete_op (Async_write m) s) = remove1 m (writes s)"
  "writes (complete_op Async_accept s) = writes s"
  "writes (complete_op Async_read s) = writes s"
  "writes (complete_op Async_close s) = writes s"
proof -
  let ?w = "\<lambda>ops. concat (map (\<lambda>ope. case ope of Async_write m \<Rightarrow> [m] | _ \<Rightarrow> []) ops)"
  have "?w (remove1 (Async_write m) ops) = remove1 m (?w ops)" for ops
    by (induction ops) (auto split: ws_op.splits)
  moreover have "?w (remove1 ope ops) = ?w ops" if "\<forall>m. ope \<noteq> Async_write m" for ope ops
    using that by (induction ops) (auto split: ws_op.splits)
  ultimately show "writes (complete_op (Async_write m) s) = remove1 m (writes s)"
    "writes (complete_op Async_accept s) = writes s" "writes (complete_op Async_read s) = writes s"
    "writes (complete_op Async_close s) = writes s"
    by (simp_all add: writes_def complete_op_def)
qed

lemma write_inv_frames:
  "write_inv (set_pub_hash h s) = write_inv s"
  "write_inv (ws_shutdown s) = write_inv s"
  "write_inv (on_pong s) = write_inv s"
  "write_inv (do_read s) = write_inv s"
  "write_inv (ws_run s) = write_inv s"
  "write_inv (complete_op Async_accept s) = write_inv s"
  "write_inv (complete_op Async_read s) = write_inv s"
  "write_inv (complete_op Async_close s) = write_inv s"
  by (simp_all add: write_inv_def set_pub_hash_def ws_shutdown_def on_pong_def do_read_def
      ws_run_def Let_def)

lemma queue_frames:
  "msg_queue (set_pub_hash h s) = msg_queue s"
  "msg_queue (ws_shutdown s) = msg_queue s"
  "msg_queue (on_pong s) = msg_queue s"
  "msg_queue (do_read s) = msg_queue s"
  "msg_queue (ws_run s) = msg_queue s"
  by (simp_all add: set_pub_hash_def ws_shutdown_def on_pong_def do_read_def ws_run_def Let_def)

lemma write_inv_send: "write_inv s \<Longrightarrow> write_inv (ws_send m p s)"
  by (auto simp: write_inv_def ws_send_def do_write_def Let_def)

lemma write_inv_on_write:
  assumes "write_inv s" "Async_write m \<in> set (pending_ops s)"
  shows "msg_queue s \<noteq> []" "m = e_msg (hd (msg_queue s))"
    "write_inv (on_write ec (complete_op (Async_write m) s))"
proof -
  from in_writes [OF assms(2)] assms(1)
  have w: "msg_queue s \<noteq> []" "writes s = [e_msg (hd (msg_queue s))]" "m = e_msg (hd (msg_queue s))"
    by (auto simp: write_inv_def)
  then show "msg_queue s \<noteq> []" "m = e_msg (hd (msg_queue s))" by simp_all
  from w have "writes (complete_op (Async_write m) s) = []" by simp
  then show "write_inv (on_write ec (complete_op (Async_write m) s))"
    by (simp add: write_inv_def on_write_def do_write_def Let_def)
qed

lemma write_inv_new [simp]: "write_inv new_session"
  by (simp add: write_inv_def writes_def new_session_def)

text \<open>After the end of a session: what the queue still holds, and what can still be written.\<close>

definition leftover :: "msg_entry list \<Rightarrow> string set" where
  "leftover q = insert '''' (e_msg ` {e \<in> set q. \<not> e_persist e})"

lemma take_undelivered_queue:
  assumes "take_undelivered s = (kept, s')"
  shows "kept = map e_msg (filter e_persist (msg_queue s)) \<and> length (msg_queue s') = length (msg_queue s)
    \<and> e_msg ` set (msg_queue s') \<subseteq> leftover (msg_queue s) \<and> pending_ops s' = pending_ops s"
proof -
  have "length (filter e_persist q) \<le> length q" for q :: "msg_entry list" by (rule length_filter_le)
  with assms show ?thesis
    by (auto simp: take_undelivered_def Let_def leftover_def split: if_splits)
      (blast dest: in_set_dropD)
qed

definition after_end :: "string list \<Rightarrow> msg_entry list \<Rightarrow> string list \<Rightarrow> ws_session \<Rightarrow> bool" where
  "after_end w q written s \<longleftrightarrow> e_msg ` set (msg_queue s) \<subseteq> leftover q \<and>
     (writes s \<noteq> [] \<longrightarrow> msg_queue s \<noteq> []) \<and>
     (written = w \<and> (writes s = [] \<or> q \<noteq> [] \<and> writes s = [e_msg (hd q)])
      \<or> length (writes s) \<le> 1 \<and> set (writes s) \<subseteq> leftover q \<and>
        (\<exists>ws. q \<noteq> [] \<and> written = w @ e_msg (hd q) # ws \<and> set ws \<subseteq> leftover q))"

lemma after_end_start:
  assumes "write_inv s" "take_undelivered s = (kept, s')"
  shows "after_end written (msg_queue s) written s'"
proof -
  have "writes s' = writes s"
    using take_undelivered_queue [OF assms(2)] by (simp add: writes_def)
  then show ?thesis
    using assms take_undelivered_queue [OF assms(2)]
    by (auto simp: after_end_def write_inv_def simp flip: length_greater_0_conv)
qed

lemma after_end_write:
  assumes "after_end w q written s" "Async_write m \<in> set (pending_ops s)"
  shows "after_end w q (written @ [m]) (on_write False (complete_op (Async_write m) s))"
    "after_end w q written (on_write True (complete_op (Async_write m) s))"
proof -
  let ?s = "complete_op (Async_write m) s" and ?t = "on_write False (complete_op (Async_write m) s)"
  have one: "writes s = [m]"
    using in_writes [OF assms(2)] assms(1)
    by (cases "writes s") (auto simp: after_end_def)
  with assms(1) show "after_end w q written (on_write True ?s)"
    by (auto simp: after_end_def on_write_def)
  have "msg_queue ?t = tl (msg_queue s)"
    by (simp add: on_write_def do_write_def Let_def)
  moreover have "writes ?t = (if tl (msg_queue s) = [] then [] else [e_msg (hd (tl (msg_queue s)))])"
    using one by (simp add: on_write_def do_write_def Let_def)
  moreover have "e_msg ` set (tl (msg_queue s)) \<subseteq> leftover q"
    using assms(1) by (cases "msg_queue s") (auto simp: after_end_def)
  moreover have "\<exists>ws. q \<noteq> [] \<and> written @ [m] = w @ e_msg (hd q) # ws \<and> set ws \<subseteq> leftover q"
    using assms(1) one by (auto simp: after_end_def)
  ultimately show "after_end w q (written @ [m]) ?t"
    by (cases "tl (msg_queue s)") (auto simp: after_end_def)
qed

lemma after_end_frames:
  "after_end w q written (set_pub_hash h s) = after_end w q written s"
  "after_end w q written (ws_shutdown s) = after_end w q written s"
  "after_end w q written (on_pong s) = after_end w q written s"
  "after_end w q written (do_read s) = after_end w q written s"
  "after_end w q written (ws_run s) = after_end w q written s"
  "after_end w q written (complete_op Async_accept s) = after_end w q written s"
  "after_end w q written (complete_op Async_read s) = after_end w q written s"
  "after_end w q written (complete_op Async_close s) = after_end w q written s"
  by (simp_all add: after_end_def set_pub_hash_def ws_shutdown_def on_pong_def do_read_def
      ws_run_def Let_def)

lemma write_ok_fifo:
  assumes "write_inv s" "Async_write m \<in> set (pending_ops s)" "sent = written @ map e_msg (msg_queue s)"
  shows "sent = (written @ [m]) @ map e_msg (msg_queue (on_write False (complete_op (Async_write m) s)))"
proof -
  from write_inv_on_write(1,2) [OF assms(1,2)] assms(3)
  have "sent = (written @ [m]) @ map e_msg (tl (msg_queue s))" by (cases "msg_queue s") simp_all
  then show ?thesis by (simp add: on_write_def do_write_def Let_def)
qed

text \<open>C18: messages reach the stream one at a time and in the order in which they were sent: up to the end
  of a session at most one write is outstanding, it is for the message at the front of the queue,
  and the messages written so far followed by the queue are exactly the messages sent, none lost,
  duplicated or reordered. The end of a session hands back exactly the messages still queued that
  are to be kept, in order, and its one exception is the message at the front: if its write is
  outstanding then, it can be handed back and also be written. Of the other messages in the queue
  only those that are not to be kept, and empty texts, can be written after the end.\<close>

theorem session_fifo:
  assumes "ws_trace sent written ended s"
  shows "length (writes s) \<le> 1 \<and>
    (case ended of
       None \<Rightarrow> write_inv s \<and> sent = written @ map e_msg (msg_queue s)
     | Some (w, q, kept) \<Rightarrow> sent = w @ map e_msg q \<and> kept = map e_msg (filter e_persist q) \<and>
         (written = w \<or> (\<exists>ws. q \<noteq> [] \<and> written = w @ e_msg (hd q) # ws \<and>
            set ws \<subseteq> {''''} \<union> e_msg ` {e \<in> set q. \<not> e_persist e})))"
proof -
  from assms have "case ended of
      None \<Rightarrow> write_inv s \<and> sent = written @ map e_msg (msg_queue s)
    | Some (w, q, kept) \<Rightarrow> sent = w @ map e_msg q \<and> kept = map e_msg (filter e_persist q) \<and>
        after_end w q written s"
  proof (induction rule: ws_trace.induct)
    case fresh
    show ?case by (simp add: new_session_def write_inv_def writes_def)
  next
    case (send sent written s m p)
    then show ?case by (simp add: write_inv_send) (simp add: ws_send_def do_write_def Let_def)
  next
    case (write_ok sent written d s m)
    then show ?case
      using write_inv_on_write(3) write_ok_fifo after_end_write(1)
      by (cases d) (auto split: prod.splits)
  next
    case (write_err sent written d s m)
    then show ?case
      using write_inv_on_write(3) [of s m True] after_end_write(2)
      by (cases d) (auto simp: on_write_def split: prod.splits)
  next
    case (finished sent written s kept s')
    then show ?case
      using take_undelivered_queue after_end_start by simp
  qed (auto simp: write_inv_frames queue_frames after_end_frames split: option.splits)
  then show ?thesis
    by (cases ended) (auto simp: write_inv_def after_end_def leftover_def)
qed

text \<open>The exception occurs: a message to be kept that is both handed back and written.\<close>

theorem session_fifo_witness:
  "\<exists>s w q kept. ws_trace [''a'', ''b''] [''a''] (Some (w, q, kept)) s \<and> kept = [''a'', ''b''] \<and>
     length (writes s) \<le> 1"
proof -
  let ?s1 = "ws_send ''b'' True (ws_send ''a'' True (set_pub_hash ''u'' new_session))"
  let ?s2 = "snd (take_undelivered ?s1)"
  let ?s = "on_write False (complete_op (Async_write ''a'') ?s2)"
  have "ws_trace ([] @ [''a''] @ [''b'']) [] None ?s1"
    using ws_trace.send [OF ws_trace.send [OF ws_trace.hash [OF ws_trace.fresh]]] by simp
  then have "ws_trace [''a'', ''b''] [] (Some ([], msg_queue ?s1, fst (take_undelivered ?s1))) ?s2"
    by (intro ws_trace.finished) (simp_all add: ws_defs Let_def)
  then have "ws_trace [''a'', ''b''] ([] @ [''a'']) (Some ([], msg_queue ?s1, fst (take_undelivered ?s1))) ?s"
    by (intro ws_trace.write_ok) (simp_all add: ws_defs Let_def take_undelivered_def)
  moreover have "fst (take_undelivered ?s1) = [''a'', ''b'']"
    by (simp add: ws_defs Let_def take_undelivered_def)
  ultimately have t: "ws_trace [''a'', ''b''] [''a''] (Some ([], msg_queue ?s1, [''a'', ''b''])) ?s"
    by (simp only: append_Nil)
  from session_fifo [OF t] have "length (writes ?s) \<le> 1" by (rule conjunct1)
  with t show ?thesis by blast
qed

text \<open>When a logged in session ends, exactly the texts of its undelivered persistent messages
  are handed to the worker, in the order in which they were queued.\<close>

lemma undelivered_persistent:
  "fst (take_undelivered s) = map fst (filter snd (queued s))
   \<and> length (msg_queue (snd (take_undelivered s))) = length (msg_queue s)"
proof -
  have "length (filter e_persist q) \<le> length q" for q :: "msg_entry list" by (rule length_filter_le)
  then show ?thesis
    by (simp add: take_undelivered_def queued_def Let_def filter_map comp_def)
qed

text \<open>The keep-alive rule: on a pong frame a session that is not logged in is shut down from the
  second pong on, and a session that is logged in is never shut down by it.\<close>

lemma pong_timeout:
  "closing (on_pong s) \<longleftrightarrow>
     closing s \<or> (\<not> is_logged_in s \<and> 1 < sint (pong_counter s + 1))"
  by (auto simp: on_pong_def ws_shutdown_def is_logged_in_def Let_def)

end
