(* ===== verification/Worker_State.thy ===== *)
theory Worker_State
  imports Config Crypto Channel Ws_Session
begin

text \<open>
  The state of \<open>worker\<close> (\<open>src/worker.hpp\<close>) and the operations its handlers are made of: commands
  sent to redis, messages sent to sessions, the table of logged in users, the acceptor
  (\<open>src/acceptor_mgr.cpp\<close>).
\<close>

type_synonym sid = nat

text \<open>
  The commands the worker pipelines to redis. \<open>redis_conn_->send(f)\<close> runs \<open>f\<close> on the current
  request, so the commands appear in the order of the calls.
\<close>

datatype redis_cmd =
    R_hvals string
  | R_hgetall string
  | R_hset string "(string \<times> string) list"
  | R_hdel string "string list"
  | R_hincrby string string int
  | R_lrange string int int
  | R_rpush string "string list"
  | R_del string
  | R_incr string
  | R_expire string c_int
  | R_publish string string
  | R_subscribe string
  | R_unsubscribe string
  | R_psubscribe "string list"
  | R_quit

record acceptor =
  acc_open :: bool
  acc_pending :: bool
  acc_cancelled :: bool

text \<open>
  \<open>heap\<close> holds the session objects that are alive: a \<open>std::weak_ptr\<close> is a \<open>sid\<close>, and locking
  it succeeds when the object is still there. \<open>sessions\<close> is \<open>sessions_\<close>, from user ids to weak
  pointers. \<open>crashed\<close> is set when an assertion fails or an exception leaves a \<open>noexcept\<close>
  function: the process is gone.
\<close>

record worker =
  heap :: "sid \<Rightarrow> ws_session option"
  sessions :: "(string \<times> sid) list"
  posts :: channel
  chat_queue :: "string list"
  redis_out :: "redis_cmd list"
  number_of_sessions :: c_int
  gen :: nat
  accept_mgr :: acceptor
  crashed :: bool

definition init_worker :: worker where
  "init_worker =
     \<lparr> heap = (\<lambda>_. None), sessions = [], posts = [], chat_queue = [], redis_out = [],
       number_of_sessions = 0, gen = 0,
       accept_mgr = \<lparr>acc_open = False, acc_pending = False, acc_cancelled = False\<rparr>, crashed = False \<rparr>"

definition chat_admin_id_key :: string where
  "chat_admin_id_key = ''chat_admin_id_key_0''"

section \<open>Parts of a handler\<close>

definition crash :: "worker \<Rightarrow> worker" where
  "crash w = w\<lparr>crashed := True\<rparr>"

definition redis_send :: "redis_cmd list \<Rightarrow> worker \<Rightarrow> worker" where
  "redis_send cmds w = w\<lparr>redis_out := redis_out w @ cmds\<rparr>"

definition upd_session :: "sid \<Rightarrow> (ws_session \<Rightarrow> ws_session) \<Rightarrow> worker \<Rightarrow> worker" where
  "upd_session sid f w =
     (case heap w sid of None \<Rightarrow> w | Some s \<Rightarrow> w\<lparr>heap := (heap w)(sid \<mapsto> f s)\<rparr>)"

definition session_hash :: "worker \<Rightarrow> sid \<Rightarrow> string" where
  "session_hash w sid = (case heap w sid of None \<Rightarrow> '''' | Some s \<Rightarrow> get_pub_hash s)"

definition logged_in :: "worker \<Rightarrow> sid \<Rightarrow> bool" where
  "logged_in w sid = (case heap w sid of None \<Rightarrow> False | Some s \<Rightarrow> is_logged_in s)"

text \<open>\<open>s->send(msg, persist)\<close>, with the assertion that the message is not empty.\<close>

definition send_msg :: "sid \<Rightarrow> string \<Rightarrow> bool \<Rightarrow> worker \<Rightarrow> worker" where
  "send_msg sid msg persist w =
     (if msg = '''' then crash w else upd_session sid (ws_send msg persist) w)"

definition store_chat_msg :: "core \<Rightarrow> string list \<Rightarrow> string \<Rightarrow> worker \<Rightarrow> worker" where
  "store_chat_msg cfg msgs to_user w =
     (if msgs = [] then w
      else
        let key = r_chat_msg_prefix (c_redis cfg) @ to_user
        in redis_send
             [ R_incr (r_chat_msgs_counter_key (c_redis cfg)),
               R_rpush key msgs,
               R_expire key (r_chat_msg_exp_time (c_redis cfg)),
               R_publish (r_notify_channel (c_redis cfg)) (last msgs) ] w)"

definition on_session_dtor :: "core \<Rightarrow> string \<Rightarrow> string list \<Rightarrow> worker \<Rightarrow> worker" where
  "on_session_dtor cfg user_id msgs w =
     (case map_of (sessions w) user_id of
        None \<Rightarrow> w
      | Some _ \<Rightarrow>
          let w = w\<lparr>sessions := AList.delete user_id (sessions w)\<rparr>;
              w = redis_send
                    [ R_unsubscribe (r_user_notify_prefix (c_redis cfg) @ user_id),
                      R_unsubscribe (r_presence_channel_prefix (c_redis cfg) @ user_id) ] w
          in if msgs \<noteq> [] then store_chat_msg cfg msgs user_id w else w)"

text \<open>
  \<open>finish\<close> of a session: the end of its life as the worker sees it. The statistics are
  decremented first; a session that is not logged in has nothing else to give back.
\<close>

definition finish :: "core \<Rightarrow> sid \<Rightarrow> worker \<Rightarrow> worker" where
  "finish cfg sid w =
     (case heap w sid of
        None \<Rightarrow> w
      | Some s \<Rightarrow>
          let w = w\<lparr>number_of_sessions := number_of_sessions w - 1\<rparr>
          in if is_logged_in s
             then let (msgs, s) = take_undelivered s
                  in on_session_dtor cfg (pub_hash s) msgs (upd_session sid (\<lambda>_. s) w)
             else w)"

section \<open>The acceptor\<close>

definition do_accept :: "acceptor \<Rightarrow> acceptor" where
  "do_accept a = a\<lparr>acc_pending := True\<rparr>"

text \<open>\<open>throws\<close>: opening or binding the socket fails, which throws; \<open>ec\<close>: listening fails.\<close>

definition acceptor_run :: "bool \<Rightarrow> bool \<Rightarrow> acceptor \<Rightarrow> acceptor option" where
  "acceptor_run throws ec a =
     (if throws then None
      else let a = a\<lparr>acc_open := True\<rparr> in if ec then Some a else Some (do_accept a))"

text \<open>The completion of an accept: \<open>aborted\<close> is \<open>operation_aborted\<close>; every other result accepts
  again. The result tells whether a new connection is handed to a \<open>detect_session\<close>.\<close>

definition on_accept :: "bool \<Rightarrow> bool \<Rightarrow> acceptor \<Rightarrow> bool \<times> acceptor" where
  "on_accept ec aborted a =
     (let a = a\<lparr>acc_pending := False, acc_cancelled := False\<rparr>
      in if ec then (if aborted then (False, a) else (False, do_accept a))
         else (True, do_accept a))"

text \<open>\<open>shutdown\<close> cancels the outstanding accept; its handler runs later.\<close>

definition acceptor_shutdown :: "acceptor \<Rightarrow> acceptor" where
  "acceptor_shutdown a = (if acc_open a then a\<lparr>acc_cancelled := acc_pending a\<rparr> else a)"

end
