(* ===== verification/Worker.thy ===== *)
theory Worker
  imports Worker_State
begin

text \<open>
  \<open>src/worker.cpp\<close>: the handlers of the worker, each the whole function. A handler that can throw
  returns \<open>None\<close> beside the state it had reached: an exception undoes nothing.
\<close>

section \<open>Commands of logged in users\<close>

definition get_chat_to_field :: "'j extern \<Rightarrow> core \<Rightarrow> 'j \<Rightarrow> (string \<times> 'j \<times> string) option" where
  "get_chat_to_field L cfg j = do {
     to \<leftarrow> at_str L j ''to'';
     Some (if to = chat_admin_id_key
           then (to, jset L j ''to'' (of_str L (c_chat_admin_id cfg)), c_chat_admin_id cfg)
           else (to, j, to))
   }"

definition chat_ack :: "'j extern \<Rightarrow> string \<Rightarrow> string \<Rightarrow> string \<Rightarrow> c_int \<Rightarrow> 'j" where
  "chat_ack L old_to user post_id message_id = jobject L
     [ (''cmd'', of_str L ''message''),
       (''from'', of_str L old_to),
       (''to'', of_str L user),
       (''post_id'', of_str L post_id),
       (''ack_id'', of_int32 L message_id),
       (''type'', of_str L ''server_ack''),
       (''result'', of_str L ''ok'') ]"

text \<open>
  Forwarding a chat message: to the session of the peer if it is on this node, else to the
  database. A peer whose session object is gone gets nothing.
\<close>

definition forward_chat_msg :: "'j extern \<Rightarrow> core \<Rightarrow> 'j \<Rightarrow> string \<Rightarrow> worker \<Rightarrow> unit option \<times> worker" where
  "forward_chat_msg L cfg j to_user w =
     (case map_of (sessions w) to_user of
        None \<Rightarrow>
          (case jdump L j of
             None \<Rightarrow> (None, w)
           | Some msg \<Rightarrow> (Some (), store_chat_msg cfg [msg] to_user w))
      | Some peer \<Rightarrow>
          (case heap w peer of
             None \<Rightarrow> (Some (), w)
           | Some _ \<Rightarrow>
               (case jdump L j of
                  None \<Rightarrow> (None, w)
                | Some msg \<Rightarrow> (Some (), send_msg peer msg True w))))"

definition on_app_chat_msg :: "'j extern \<Rightarrow> core \<Rightarrow> 'j \<Rightarrow> sid \<Rightarrow> worker \<Rightarrow> ev_res option \<times> worker" where
  "on_app_chat_msg L cfg j s w =
     (let j = jset L j ''from'' (of_str L (session_hash w s))
      in case get_chat_to_field L cfg j of
           None \<Rightarrow> (None, w)
         | Some (old_to, j, to_user) \<Rightarrow>
             (case forward_chat_msg L cfg j to_user w of
                (None, w) \<Rightarrow> (None, w)
              | (Some _, w) \<Rightarrow>
                  (case do {
                       post_id \<leftarrow> at_str L j ''post_id'';
                       message_id \<leftarrow> Option.bind (jat L j ''id'') (get_int32 L);
                       jdump L (chat_ack L old_to (session_hash w s) post_id message_id)
                     } of
                     None \<Rightarrow> (None, w)
                   | Some ack \<Rightarrow> (Some Chat_msg_ok, send_msg s ack False w))))"

definition on_app_presence :: "'j extern \<Rightarrow> core \<Rightarrow> 'j \<Rightarrow> sid \<Rightarrow> worker \<Rightarrow> ev_res option \<times> worker" where
  "on_app_presence L cfg j s w =
     (let j = jset L j ''from'' (of_str L (session_hash w s))
      in case get_chat_to_field L cfg j of
           None \<Rightarrow> (None, w)
         | Some (_, j, to_user) \<Rightarrow>
             (case map_of (sessions w) to_user of
                None \<Rightarrow>
                  (case jdump L j of
                     None \<Rightarrow> (None, w)
                   | Some msg \<Rightarrow>
                       (Some Presence_ok,
                        redis_send
                          [R_publish (r_presence_channel_prefix (c_redis cfg) @ to_user) msg] w))
              | Some peer \<Rightarrow>
                  (case heap w peer of
                     None \<Rightarrow> (Some Presence_ok, w)
                   | Some _ \<Rightarrow>
                       (case jdump L j of
                          None \<Rightarrow> (None, w)
                        | Some msg \<Rightarrow> (Some Presence_ok, send_msg peer msg False w)))))"

definition publish_fail_ack :: "'j extern \<Rightarrow> 'j" where
  "publish_fail_ack L = jobject L
     [ (''cmd'', of_str L ''publish_ack''),
       (''result'', of_str L ''fail''),
       (''reason'', of_str L ''Invalid user id.'') ]"

definition publish_ok_ack :: "'j extern \<Rightarrow> post \<Rightarrow> 'j" where
  "publish_ok_ack L p = jobject L
     [ (''cmd'', of_str L ''publish_ack''),
       (''result'', of_str L ''ok''),
       (''id'', of_str L (p_id p)),
       (''date'', of_long L (p_date p)),
       (''admin_id'', of_str L chat_admin_id_key) ]"

definition publish_internal :: "'j extern \<Rightarrow> post \<Rightarrow> 'j" where
  "publish_internal L p = jobject L
     [ (''cmd'', of_str L ''publish_internal''), (''post'', to_json L p) ]"

text \<open>\<open>on_publish_impl\<close>; \<open>now\<close> is the system clock in seconds.\<close>

definition on_publish_impl ::
  "'j extern \<Rightarrow> core \<Rightarrow> c_long \<Rightarrow> 'j \<Rightarrow> worker \<Rightarrow> string option \<times> worker" where
  "on_publish_impl L cfg now j w =
     (case do { user \<leftarrow> at_str L j ''user''; key \<leftarrow> at_str L j ''key'';
                Some (make_hex_digest L user key) } of
        None \<Rightarrow> (None, w)
      | Some user_id \<Rightarrow>
          if user_id = '''' then (jdump L (publish_fail_ack L), w)
          else
            (case Option.bind (jat L j ''post'') (from_json L) of
               None \<Rightarrow> (None, w)
             | Some p \<Rightarrow>
                 let (pid, g) = pwd_make L (c_pwd_size cfg) (gen w);
                     w = w\<lparr>gen := g\<rparr>;
                     p = p\<lparr>p_from := user_id, p_date := now, p_id := pid, p_visualizations := 0\<rparr>
                 in case jdump L (publish_internal L p) of
                      None \<Rightarrow> (None, w)
                    | Some msg \<Rightarrow>
                        (jdump L (publish_ok_ack L p),
                         redis_send
                           [ R_hset (r_posts_key (c_redis cfg)) [(p_id p, msg)],
                             R_publish (r_posts_channel_key (c_redis cfg)) msg ] w)))"

definition on_app_publish ::
  "'j extern \<Rightarrow> core \<Rightarrow> c_long \<Rightarrow> 'j \<Rightarrow> sid \<Rightarrow> worker \<Rightarrow> ev_res option \<times> worker" where
  "on_app_publish L cfg now j s w =
     (case on_publish_impl L cfg now j w of
        (None, w) \<Rightarrow> (None, w)
      | (Some body, w) \<Rightarrow> (Some Publish_ok, send_msg s body True w))"

section \<open>Login\<close>

definition login_ack :: "'j extern \<Rightarrow> string \<Rightarrow> 'j" where
  "login_ack L result = jobject L
     [ (''cmd'', of_str L ''login_ack''), (''result'', of_str L result) ]"

text \<open>
  The table entry of a user: a session that was already there is shut down and forgets its user,
  so that its end does not remove the new entry.
\<close>

definition register_session :: "string \<Rightarrow> sid \<Rightarrow> worker \<Rightarrow> worker" where
  "register_session user_id s w =
     (case map_of (sessions w) user_id of
        None \<Rightarrow> w\<lparr>sessions := (user_id, s) # sessions w\<rparr>
      | Some old_ss \<Rightarrow>
          let w = (case heap w old_ss of
                     None \<Rightarrow> w
                   | Some _ \<Rightarrow> upd_session old_ss (set_pub_hash '''') (upd_session old_ss ws_shutdown w))
          in w\<lparr>sessions := AList.update user_id s (sessions w)\<rparr>)"

definition token_msg :: "'j extern \<Rightarrow> string \<Rightarrow> string \<Rightarrow> 'j" where
  "token_msg L user_id token = jobject L
     [ (''cmd'', of_str L ''token''), (''user_id'', of_str L user_id),
       (''token'', of_str L token) ]"

definition publish_token :: "'j extern \<Rightarrow> core \<Rightarrow> 'j \<Rightarrow> string \<Rightarrow> worker \<Rightarrow> unit option \<times> worker" where
  "publish_token L cfg j user_id w =
     (case jat L j ''token'' of
        None \<Rightarrow> (Some (), w)
      | Some t \<Rightarrow>
          if jempty L t then (Some (), w)
          else
            (case do { token \<leftarrow> get_str L t; msg \<leftarrow> jdump L (token_msg L user_id token);
                       Some (token, msg) } of
               None \<Rightarrow> (None, w)
             | Some (token, msg) \<Rightarrow>
                 (Some (),
                  redis_send
                    [ R_publish (r_notify_channel (c_redis cfg)) msg,
                      R_hset (r_tokens_key (c_redis cfg)) [(user_id, token)] ] w)))"

definition subscribe_user :: "core \<Rightarrow> string \<Rightarrow> worker \<Rightarrow> worker" where
  "subscribe_user cfg user_id w =
     (let key = r_chat_msg_prefix (c_redis cfg) @ user_id;
          w = redis_send
                [ R_subscribe (r_user_notify_prefix (c_redis cfg) @ user_id),
                  R_subscribe (r_presence_channel_prefix (c_redis cfg) @ user_id),
                  R_lrange key 0 (-1),
                  R_del key ] w
      in w\<lparr>chat_queue := chat_queue w @ [user_id]\<rparr>)"

definition on_app_login :: "'j extern \<Rightarrow> core \<Rightarrow> 'j \<Rightarrow> sid \<Rightarrow> worker \<Rightarrow> ev_res option \<times> worker" where
  "on_app_login L cfg j s w =
     (case do { user \<leftarrow> at_str L j ''user''; key \<leftarrow> at_str L j ''key'';
                Some (make_hex_digest L user key) } of
        None \<Rightarrow> (None, w)
      | Some user_id \<Rightarrow>
          if user_id = '''' then
            (case jdump L (login_ack L ''fail'') of
               None \<Rightarrow> (None, w)
             | Some resp \<Rightarrow> (Some Login_fail, send_msg s resp False w))
          else
            let w = upd_session s (set_pub_hash user_id) w;
                w = register_session user_id s w
            in case publish_token L cfg j user_id w of
                 (None, w) \<Rightarrow> (None, w)
               | (Some _, w) \<Rightarrow>
                   let w = subscribe_user cfg user_id w
                   in case jdump L (login_ack L ''ok'') of
                        None \<Rightarrow> (None, w)
                      | Some resp \<Rightarrow> (Some Login_ok, send_msg s resp False w))"

section \<open>The dispatcher of websocket messages\<close>

text \<open>An exception of a handler is logged and the message answered with \<open>unknown\<close>.\<close>

definition catch_unknown :: "ev_res option \<times> worker \<Rightarrow> ev_res \<times> worker" where
  "catch_unknown r = (case r of (None, w) \<Rightarrow> (Unknown, w) | (Some e, w) \<Rightarrow> (e, w))"

definition on_app :: "'j extern \<Rightarrow> core \<Rightarrow> c_long \<Rightarrow> sid \<Rightarrow> string \<Rightarrow> worker \<Rightarrow> ev_res \<times> worker" where
  "on_app L cfg now s msg w =
     (case do { j \<leftarrow> jparse L msg; cmd \<leftarrow> at_str L j ''cmd''; Some (j, cmd) } of
        None \<Rightarrow> (Unknown, w)
      | Some (j, cmd) \<Rightarrow>
          if logged_in w s then
            if cmd = ''presence'' then catch_unknown (on_app_presence L cfg j s w)
            else if cmd = ''message'' then catch_unknown (on_app_chat_msg L cfg j s w)
            else if cmd = ''publish'' then catch_unknown (on_app_publish L cfg now j s w)
            else (Unknown, w)
          else
            if cmd = ''login'' then catch_unknown (on_app_login L cfg j s w)
            else (Unknown, w))"

end
