(* ===== verification/Worker_Db.thy ===== *)
theory Worker_Db
  imports Worker
begin

text \<open>
  \<open>src/worker.cpp\<close>: the handlers of redis responses and notifications, the operations behind the
  HTTP interface, and the shutdown.
\<close>

section \<open>Messages from the database\<close>

text \<open>
  The receiver functions are \<open>noexcept\<close>. \<open>on_db_chat_msg\<close> and \<open>on_db_presence\<close> assert that a
  session in the table is alive.
\<close>

definition on_db_chat_msg :: "core \<Rightarrow> string \<Rightarrow> string list \<Rightarrow> worker \<Rightarrow> worker" where
  "on_db_chat_msg cfg user_id msgs w =
     (case map_of (sessions w) user_id of
        None \<Rightarrow> store_chat_msg cfg msgs user_id w
      | Some s \<Rightarrow>
          (case heap w s of
             None \<Rightarrow> crash w
           | Some _ \<Rightarrow> fold (\<lambda>m. send_msg s m True) msgs w))"

definition on_db_presence :: "string \<Rightarrow> string \<Rightarrow> worker \<Rightarrow> worker" where
  "on_db_presence user_id msg w =
     (case map_of (sessions w) user_id of
        None \<Rightarrow> w
      | Some s \<Rightarrow>
          (case heap w s of
             None \<Rightarrow> crash w
           | Some _ \<Rightarrow> send_msg s msg False w))"

text \<open>
  \<open>on_db_channel_post\<close> on the posts: the commands that reach every node through the posts
  channel. Every exception is caught and logged; the posts keep what was done before it.
\<close>

definition channel_post :: "'j extern \<Rightarrow> core \<Rightarrow> c_long \<Rightarrow> string \<Rightarrow> channel \<Rightarrow> channel" where
  "channel_post L cfg now msg ps =
     (case do { j \<leftarrow> jparse L msg; cmd \<leftarrow> at_str L j ''cmd''; Some (j, cmd) } of
        None \<Rightarrow> ps
      | Some (j, cmd) \<Rightarrow>
          if cmd = ''visualization'' then
            (case at_str L j ''post_id'' of
               None \<Rightarrow> ps
             | Some post_id \<Rightarrow> channel_on_visualization post_id ps)
          else if cmd = ''delete'' then
            (case do { post_id \<leftarrow> at_str L j ''post_id''; author \<leftarrow> at_str L j ''from'';
                       Some (post_id, author) } of
               None \<Rightarrow> ps
             | Some (post_id, author) \<Rightarrow>
                 let ignore_owner = (author = c_chat_admin_id cfg)
                 in snd (remove_post post_id author ignore_owner ps))
          else if cmd = ''publish_internal'' then
            (case Option.bind (jat L j ''post'') (from_json L) of
               None \<Rightarrow> ps
             | Some item \<Rightarrow>
                 let post_exp = t_post_expiration (c_timeouts cfg);
                     ps = add_post item ps
                 in snd (remove_expired_posts now post_exp ps))
          else ps)"

definition on_db_channel_post :: "'j extern \<Rightarrow> core \<Rightarrow> c_long \<Rightarrow> string \<Rightarrow> worker \<Rightarrow> worker" where
  "on_db_channel_post L cfg now msg w = w\<lparr>posts := channel_post L cfg now msg (posts w)\<rparr>"

section \<open>The receiver of redis\<close>

definition on_hello :: "core \<Rightarrow> worker \<Rightarrow> worker" where
  "on_hello cfg w =
     redis_send [R_hvals (r_posts_key (c_redis cfg)),
                 R_subscribe (r_posts_channel_key (c_redis cfg))] w"

definition on_hvals :: "'j extern \<Rightarrow> core \<Rightarrow> c_long \<Rightarrow> string list \<Rightarrow> worker \<Rightarrow> worker" where
  "on_hvals L cfg now msgs w =
     (let w = fold (on_db_channel_post L cfg now) msgs w
      in redis_send [R_hgetall (r_post_visualizations_key (c_redis cfg))] w)"

text \<open>The loop of \<open>on_hgetall\<close> over pairs of field and value; \<open>std::stoi\<close> may throw.\<close>

fun visual_pairs :: "string list \<Rightarrow> (string \<times> c_int) list option" where
  "visual_pairs (k # n # v) =
     (case std_stoi n of
        None \<Rightarrow> None
      | Some i \<Rightarrow> map_option ((#) (k, i)) (visual_pairs v))"
| "visual_pairs _ = Some []"

text \<open>\<open>run_throws\<close> and \<open>listen_fails\<close> are the outcome of opening the acceptor.\<close>

definition on_hgetall :: "bool \<Rightarrow> bool \<Rightarrow> string list \<Rightarrow> worker \<Rightarrow> worker" where
  "on_hgetall run_throws listen_fails v w =
     (if length v mod 2 \<noteq> 0 then crash w
      else
        (case visual_pairs v of
           None \<Rightarrow> crash w
         | Some pairs \<Rightarrow>
             let w = w\<lparr>posts := load_visualizations pairs (posts w)\<rparr>
             in if \<not> acc_open (accept_mgr w)
                then (case acceptor_run run_throws listen_fails (accept_mgr w) of
                        None \<Rightarrow> crash w
                      | Some a \<Rightarrow> w\<lparr>accept_mgr := a\<rparr>)
                else w))"

definition on_push :: "'j extern \<Rightarrow> core \<Rightarrow> c_long \<Rightarrow> string list \<Rightarrow> worker \<Rightarrow> worker" where
  "on_push L cfg now v w =
     (if length v \<noteq> 3 then crash w
      else if v ! 0 = ''message'' \<and> v ! 2 = ''rpush'' then
        (let pos = length (r_user_notify_prefix (c_redis cfg))
         in case std_substr (v ! 1) pos (length (v ! 1)) of
              None \<Rightarrow> crash w
            | Some user_id \<Rightarrow>
                if user_id = '''' then crash w
                else
                  let key = r_chat_msg_prefix (c_redis cfg) @ user_id;
                      w = redis_send [R_lrange key 0 (-1), R_del key] w
                  in w\<lparr>chat_queue := chat_queue w @ [key]\<rparr>)
      else
        (let prefix = r_presence_channel_prefix (c_redis cfg);
             size = length prefix
         in if v ! 0 = ''message'' \<and> take size (v ! 1) = prefix
            then on_db_presence (drop size (v ! 1)) (v ! 2) w
            else if v ! 0 = ''message'' \<and> v ! 1 = r_posts_channel_key (c_redis cfg)
            then on_db_channel_post L cfg now (v ! 2) w
            else w))"

definition on_lrange :: "core \<Rightarrow> string list \<Rightarrow> worker \<Rightarrow> worker" where
  "on_lrange cfg msgs w =
     (if chat_queue w = [] then crash w
      else
        let w = on_db_chat_msg cfg (hd (chat_queue w)) msgs w
        in w\<lparr>chat_queue := tl (chat_queue w)\<rparr>)"

section \<open>Operations behind the HTTP interface\<close>

definition search_posts :: "core \<Rightarrow> post \<Rightarrow> worker \<Rightarrow> post list" where
  "search_posts cfg p w = channel_query p (c_max_posts_on_search cfg) (posts w)"

definition count_posts :: "c_int \<Rightarrow> post \<Rightarrow> worker \<Rightarrow> c_int" where
  "count_posts ret0 p w = channel_count ret0 p (posts w)"

record worker_stats =
  s_number_of_sessions :: c_int
  s_worker_post_queue_size :: c_int
  s_worker_reg_queue_size :: c_int
  s_worker_login_queue_size :: c_int
  s_db_post_queue_size :: c_int
  s_db_chat_queue_size :: c_int

definition get_stats :: "worker \<Rightarrow> worker_stats" where
  "get_stats w =
     \<lparr> s_number_of_sessions = number_of_sessions w, s_worker_post_queue_size = 0,
       s_worker_reg_queue_size = 0, s_worker_login_queue_size = 0, s_db_post_queue_size = 0,
       s_db_chat_queue_size = of_nat (length (chat_queue w)) \<rparr>"

definition stats_to_string :: "worker_stats \<Rightarrow> string" where
  "stats_to_string st =
     (let tab = [CHR 0x09]
      in show_int (s_number_of_sessions st) @ tab
         @ show_int (s_worker_post_queue_size st) @ tab
         @ show_int (s_worker_reg_queue_size st) @ tab
         @ show_int (s_worker_login_queue_size st) @ tab
         @ show_int (s_db_post_queue_size st) @ tab
         @ show_int (s_db_chat_queue_size st))"

definition delete_cmd :: "'j extern \<Rightarrow> string \<Rightarrow> string \<Rightarrow> 'j" where
  "delete_cmd L user_id post_id = jobject L
     [ (''cmd'', of_str L ''delete''), (''from'', of_str L user_id),
       (''post_id'', of_str L post_id) ]"

definition delete_post ::
  "'j extern \<Rightarrow> core \<Rightarrow> string \<Rightarrow> string \<Rightarrow> string \<Rightarrow> worker \<Rightarrow> unit option \<times> worker" where
  "delete_post L cfg user key post_id w =
     (case jdump L (delete_cmd L (make_hex_digest L user key) post_id) of
        None \<Rightarrow> (None, w)
      | Some msg \<Rightarrow>
          let p = channel_get (posts w) post_id
          in if p_id p = '''' then (Some (), w)
             else
               (case jdump L (to_json L p) of
                  None \<Rightarrow> (None, w)
                | Some post_str \<Rightarrow>
                    (Some (),
                     redis_send
                       [ R_hset (r_removed_posts_key (c_redis cfg)) [(post_id, post_str)],
                         R_hdel (r_posts_key (c_redis cfg)) [post_id],
                         R_publish (r_posts_channel_key (c_redis cfg)) msg ] w)))"

text \<open>One upload credit, the lambda of \<open>get_upload_credit\<close>, and \<open>std::generate_n\<close> over it.\<close>

definition upload_credit :: "'j extern \<Rightarrow> core \<Rightarrow> worker \<Rightarrow> (dir_error + string) \<times> worker" where
  "upload_credit L cfg w =
     (let (filename, g) = pwd_make L (of_nat mms_filename_size) (gen w);
          w = w\<lparr>gen := g\<rparr>
      in case make_dir filename of
           Inl e \<Rightarrow> (Inl e, w)
         | Inr dir \<Rightarrow>
             let path = ''/posts/imgs'' @ dir @ ''/'' @ filename @ ''.jpeg''
             in (Inr (c_mms_host cfg @ path @ ''?hmac=''
                      @ make_hex_digest L path (c_mms_key cfg)), w))"

fun credit_loop :: "'j extern \<Rightarrow> core \<Rightarrow> nat \<Rightarrow> worker \<Rightarrow> (dir_error + string list) \<times> worker" where
  "credit_loop L cfg 0 w = (Inr [], w)"
| "credit_loop L cfg (Suc n) w =
     (case upload_credit L cfg w of
        (Inl e, w) \<Rightarrow> (Inl e, w)
      | (Inr c, w) \<Rightarrow>
          (case credit_loop L cfg n w of
             (Inl e, w) \<Rightarrow> (Inl e, w)
           | (Inr cs, w) \<Rightarrow> (Inr (c # cs), w)))"

definition get_upload_credit :: "'j extern \<Rightarrow> core \<Rightarrow> worker \<Rightarrow> (dir_error + string list) \<times> worker" where
  "get_upload_credit L cfg w = credit_loop L cfg mms_filename_size w"

definition on_visualization ::
  "'j extern \<Rightarrow> core \<Rightarrow> string \<Rightarrow> worker \<Rightarrow> unit option \<times> worker" where
  "on_visualization L cfg msg w =
     (case do { j \<leftarrow> jparse L msg; at_str L j ''post_id'' } of
        None \<Rightarrow> (None, w)
      | Some post_id \<Rightarrow>
          (Some (),
           redis_send
             [ R_publish (r_posts_channel_key (c_redis cfg)) msg,
               R_hincrby (r_post_visualizations_key (c_redis cfg)) post_id 1 ] w))"

definition user_id_resp :: "'j extern \<Rightarrow> string \<Rightarrow> string \<Rightarrow> string \<Rightarrow> 'j" where
  "user_id_resp L user key user_id = jobject L
     [ (''result'', of_str L ''ok''), (''user'', of_str L user), (''key'', of_str L key),
       (''user_id'', of_str L user_id) ]"

definition on_get_user_id :: "'j extern \<Rightarrow> core \<Rightarrow> worker \<Rightarrow> string option \<times> worker" where
  "on_get_user_id L cfg w =
     (let (user, g) = pwd_make L (c_pwd_size cfg) (gen w);
          (key, g) = pwd_make_key L g;
          w = w\<lparr>gen := g\<rparr>;
          user_id = make_hex_digest L user key
      in (jdump L (user_id_resp L user key user_id), w))"

section \<open>Shutdown\<close>

definition shutdown_impl :: "worker \<Rightarrow> worker" where
  "shutdown_impl w =
     (let w = w\<lparr>accept_mgr := acceptor_shutdown (accept_mgr w)\<rparr>;
          w = fold (\<lambda>(_, s). upd_session s ws_shutdown) (sessions w) w
      in redis_send [R_quit] w)"

definition on_signal :: "bool \<Rightarrow> worker \<Rightarrow> worker" where
  "on_signal ec w = (if ec then w else shutdown_impl w)"

end
