(* ===== verification/Http_Session.thy ===== *)
theory Http_Session
  imports Worker_Db
begin

text \<open>
  \<open>src/http_session_impl.hpp\<close>: the HTTP interface of the worker. A request is its method, target
  and body; a response is what the code sets of it. Reading, writing and the TLS or plain stream
  underneath are asynchronous I/O.
\<close>

datatype verb = Verb_get | Verb_post | Verb_other string

record request =
  q_method :: verb
  q_target :: string
  q_body :: string
  q_upgrade :: bool

datatype status = Status_ok | Status_not_found | Status_bad_request

record response =
  rs_status :: status
  rs_keep_alive :: bool
  rs_content_type :: "string option"
  rs_server :: "string option"
  rs_content_length :: "nat option"
  rs_allow_origin :: "string option"
  rs_body :: string

definition new_response :: response where
  "new_response =
     \<lparr> rs_status = Status_ok, rs_keep_alive = True, rs_content_type = None, rs_server = None,
       rs_content_length = None, rs_allow_origin = None, rs_body = '''' \<rparr>"

definition crlf :: string where
  "crlf = [CHR 0x0d, CHR 0x0a]"

section \<open>Targets\<close>

definition prepare_target :: "string \<Rightarrow> char \<Rightarrow> string" where
  "prepare_target t s =
     (if t = '''' then ''''
      else
        let b1 = (hd t = s); b2 = (last t = s)
        in if b1 \<and> b2 then take (length t - 1) (drop 1 t)
           else if b1 then take (length t) (drop 1 t)
           else if b2 then take (length t - 1) (drop 0 t)
           else t)"

text \<open>
  \<open>t.compare(0, sizeof route, route) == 0\<close> for a route in a character array: \<open>sizeof\<close> counts the
  terminating NUL, so one more character of the target is compared than the route has.
\<close>

definition route_matches :: "string \<Rightarrow> string \<Rightarrow> bool" where
  "route_matches t route \<longleftrightarrow> take (length route + 1) t = route"

section \<open>Handlers\<close>

definition set_body :: "string \<Rightarrow> string \<Rightarrow> response \<Rightarrow> response" where
  "set_body ctype body resp = resp\<lparr>rs_content_type := Some ctype, rs_body := body\<rparr>"

definition set_not_fount_header :: "response \<Rightarrow> response" where
  "set_not_fount_header resp =
     set_body ''text/plain'' (''File not found'' @ crlf) (resp\<lparr>rs_status := Status_not_found\<rparr>)"

definition search_query :: "'j extern \<Rightarrow> string \<Rightarrow> post option" where
  "search_query L body =
     (if body = '''' then Some empty_post
      else do { j \<leftarrow> jparse L body; jp \<leftarrow> jat L j ''post''; from_json L jp })"

definition post_search_handler ::
  "'j extern \<Rightarrow> core \<Rightarrow> c_int \<Rightarrow> bool \<Rightarrow> string \<Rightarrow> worker \<Rightarrow> response \<Rightarrow> response" where
  "post_search_handler L cfg ret0 only_count body w resp =
     (case search_query L body of
        None \<Rightarrow> set_not_fount_header resp
      | Some p \<Rightarrow>
          let resp = resp\<lparr>rs_content_type := Some ''application/json''\<rparr>
          in if only_count
             then resp\<lparr>rs_body := show_int (count_posts ret0 p w) @ crlf\<rparr>
             else
               (case jdump L (jobject L
                        [(''posts'', of_arr L (map (to_json L) (search_posts cfg p w)))]) of
                  None \<Rightarrow> set_not_fount_header resp
                | Some s \<Rightarrow> resp\<lparr>rs_body := s @ crlf\<rparr>))"

definition post_upload_credit_handler ::
  "'j extern \<Rightarrow> core \<Rightarrow> worker \<Rightarrow> response \<Rightarrow> response \<times> worker" where
  "post_upload_credit_handler L cfg w resp =
     (let resp = resp\<lparr>rs_content_type := Some ''application/json''\<rparr>
      in case get_upload_credit L cfg w of
           (Inl Assert_failed, w) \<Rightarrow> (resp, crash w)
         | (Inl Out_of_range, w) \<Rightarrow> (set_not_fount_header resp, w)
         | (Inr credit, w) \<Rightarrow>
             (case jdump L (jobject L [(''credit'', of_strs L credit)]) of
                None \<Rightarrow> (set_not_fount_header resp, w)
              | Some s \<Rightarrow> (resp\<lparr>rs_body := s @ crlf\<rparr>, w)))"

definition post_delete_handler ::
  "'j extern \<Rightarrow> core \<Rightarrow> string \<Rightarrow> worker \<Rightarrow> response \<Rightarrow> response \<times> worker" where
  "post_delete_handler L cfg body w resp =
     (case do { j \<leftarrow> jparse L body; user \<leftarrow> at_str L j ''user''; key \<leftarrow> at_str L j ''key'';
                post_id \<leftarrow> at_str L j ''post_id''; Some (user, key, post_id) } of
        None \<Rightarrow> (set_not_fount_header resp, w)
      | Some (user, key, post_id) \<Rightarrow>
          (case delete_post L cfg user key post_id w of
             (None, w) \<Rightarrow> (set_not_fount_header resp, w)
           | (Some _, w) \<Rightarrow> (set_body ''text/plain'' (''Ok'' @ crlf) resp, w)))"

definition post_publish_handler ::
  "'j extern \<Rightarrow> core \<Rightarrow> c_long \<Rightarrow> string \<Rightarrow> worker \<Rightarrow> response \<Rightarrow> response \<times> worker" where
  "post_publish_handler L cfg now body w resp =
     (case jparse L body of
        None \<Rightarrow> (set_not_fount_header resp, w)
      | Some j \<Rightarrow>
          (case on_publish_impl L cfg now j w of
             (None, w) \<Rightarrow> (set_not_fount_header resp, w)
           | (Some ack, w) \<Rightarrow> (set_body ''application/json'' (ack @ crlf) resp, w)))"

definition get_user_id_handler ::
  "'j extern \<Rightarrow> core \<Rightarrow> worker \<Rightarrow> response \<Rightarrow> response \<times> worker" where
  "get_user_id_handler L cfg w resp =
     (case on_get_user_id L cfg w of
        (None, w) \<Rightarrow> (set_not_fount_header resp, w)
      | (Some s, w) \<Rightarrow> (set_body ''application/json'' (s @ crlf) resp, w))"

definition post_visualization_handler ::
  "'j extern \<Rightarrow> core \<Rightarrow> string \<Rightarrow> worker \<Rightarrow> response \<Rightarrow> response \<times> worker" where
  "post_visualization_handler L cfg body w resp =
     (case on_visualization L cfg body w of
        (None, w) \<Rightarrow> (set_not_fount_header resp, w)
      | (Some _, w) \<Rightarrow> (set_body ''text/plain'' (''Ok'' @ crlf) resp, w))"

definition stats_handler :: "worker \<Rightarrow> response \<Rightarrow> response" where
  "stats_handler w resp = set_body ''text/csv'' (stats_to_string (get_stats w)) resp"

text \<open>\<open>do_write\<close> completes the header of every response.\<close>

definition finish_response :: "core \<Rightarrow> response \<Rightarrow> response" where
  "finish_response cfg resp =
     resp\<lparr>rs_content_length := Some (length (rs_body resp)),
          rs_allow_origin := Some (c_http_allow_origin cfg)\<rparr>"

definition get_handler :: "core \<Rightarrow> string \<Rightarrow> worker \<Rightarrow> response \<Rightarrow> response" where
  "get_handler cfg target w resp =
     (let resp = resp\<lparr>rs_status := Status_ok, rs_server := Some (c_server_name cfg)\<rparr>;
          resp = (if prepare_target target CHR ''/'' = ''stats'' then stats_handler w resp
                  else set_not_fount_header resp)
      in finish_response cfg resp)"

definition post_handler ::
  "'j extern \<Rightarrow> core \<Rightarrow> c_long \<Rightarrow> c_int \<Rightarrow> string \<Rightarrow> string \<Rightarrow> worker \<Rightarrow> response \<Rightarrow>
     response \<times> worker" where
  "post_handler L cfg now ret0 t body w resp =
     (let resp = resp\<lparr>rs_status := Status_ok, rs_server := Some (c_server_name cfg)\<rparr>;
          (resp, w) =
            (if route_matches t ''/posts/count''
             then (post_search_handler L cfg ret0 True body w resp, w)
             else if route_matches t ''/posts/visualization''
             then post_visualization_handler L cfg body w resp
             else if route_matches t ''/posts/search''
             then (post_search_handler L cfg ret0 False body w resp, w)
             else if route_matches t ''/posts/upload-credit''
             then post_upload_credit_handler L cfg w resp
             else if route_matches t ''/posts/delete''
             then post_delete_handler L cfg body w resp
             else if route_matches t ''/posts/publish''
             then post_publish_handler L cfg now body w resp
             else if route_matches t ''/get-user-id''
             then get_user_id_handler L cfg w resp
             else (set_not_fount_header resp, w))
      in (finish_response cfg resp, w))"

definition default_handler :: "core \<Rightarrow> string \<Rightarrow> response \<Rightarrow> response" where
  "default_handler cfg name resp =
     finish_response cfg
       (set_body ''text/plain'' (''Invalid request-method: '' @ [CHR 0x27] @ name @ [CHR 0x27])
          (resp\<lparr>rs_status := Status_bad_request\<rparr>))"

definition process_request ::
  "'j extern \<Rightarrow> core \<Rightarrow> c_long \<Rightarrow> c_int \<Rightarrow> request \<Rightarrow> worker \<Rightarrow> response \<times> worker" where
  "process_request L cfg now ret0 req w =
     (let resp = new_response\<lparr>rs_keep_alive := False\<rparr>
      in case q_method req of
           Verb_get \<Rightarrow> (get_handler cfg (q_target req) w resp, w)
         | Verb_post \<Rightarrow> post_handler L cfg now ret0 (q_target req) (q_body req) w resp
         | Verb_other name \<Rightarrow> (default_handler cfg name resp, w))"

text \<open>The completion of the read of a request: what the session does next.\<close>

datatype read_result = Read_ok | Read_end_of_stream | Read_failed

datatype http_action = Do_eof | Drop | Upgrade | Respond response

definition http_on_read ::
  "'j extern \<Rightarrow> core \<Rightarrow> c_long \<Rightarrow> c_int \<Rightarrow> read_result \<Rightarrow> request \<Rightarrow> worker \<Rightarrow>
     http_action \<times> worker" where
  "http_on_read L cfg now ret0 ec req w =
     (case ec of
        Read_end_of_stream \<Rightarrow> (Do_eof, w)
      | Read_failed \<Rightarrow> (Drop, w)
      | Read_ok \<Rightarrow>
          if q_upgrade req then (Upgrade, w)
          else let (resp, w) = process_request L cfg now ret0 req w in (Respond resp, w))"

end
