(* ===== verification/Worker_Inv.thy ===== *)
theory Worker_Inv
  imports Http_Session
begin

text \<open>
  What the handlers keep: the shape of the pending operations of every session, and the agreement
  between the table of logged in users, the live sessions and the ids they carry. Handlers that do
  not log anyone in or out are shown to be made of \<open>quiet\<close> updates, and every quiet update keeps
  the invariants, so each handler is treated once.
\<close>

section \<open>One session\<close>

definition n_ops :: "ws_op \<Rightarrow> ws_session \<Rightarrow> nat" where
  "n_ops ope s = count_list (pending_ops s) ope"

text \<open>The websocket stream allows one write and one read at a time; the accept comes before both.\<close>

definition sess_inv :: "ws_session \<Rightarrow> bool" where
  "sess_inv s \<longleftrightarrow>
     length (writes s) \<le> 1 \<and> (writes s \<noteq> [] \<longrightarrow> msg_queue s \<noteq> []) \<and>
     n_ops Async_read s + n_ops Async_accept s \<le> 1 \<and>
     n_ops Async_close s \<le> (if closing s then 1 else 0) \<and>
     (n_ops Async_accept s = 1 \<longrightarrow> pub_hash s = '''')"

lemma n_ops_start [simp]:
  "n_ops ope (start_op ope' s) = n_ops ope s + (if ope = ope' then 1 else 0)"
  by (simp add: n_ops_def start_op_def)

lemma n_ops_upd [simp]:
  "n_ops ope (s\<lparr>msg_queue := q\<rparr>) = n_ops ope s"
  "n_ops ope (s\<lparr>closing := c\<rparr>) = n_ops ope s"
  "n_ops ope (s\<lparr>pub_hash := h\<rparr>) = n_ops ope s"
  "n_ops ope (s\<lparr>pong_counter := n\<rparr>) = n_ops ope s"
  by (simp_all add: n_ops_def)

lemma count_list_remove1:
  "count_list (remove1 y xs) x = count_list xs x - (if x = y then 1 else 0)"
  by (induction xs) auto

lemma n_ops_complete [simp]:
  "n_ops ope (complete_op ope' s) = n_ops ope s - (if ope = ope' then 1 else 0)"
  by (simp add: n_ops_def complete_op_def count_list_remove1)

lemma n_ops_pos: "0 < n_ops ope s \<longleftrightarrow> ope \<in> set (pending_ops s)"
  by (simp add: n_ops_def count_list_0_iff flip: neq0_conv)

text \<open>Two states of a session between which a handler neither started nor finished a read or an
  accept, and kept the invariant and the user.\<close>

definition benign :: "ws_session \<Rightarrow> ws_session \<Rightarrow> bool" where
  "benign s s' \<longleftrightarrow>
     (sess_inv s \<longrightarrow> sess_inv s') \<and> pub_hash s' = pub_hash s \<and>
     n_ops Async_read s' = n_ops Async_read s \<and> n_ops Async_accept s' = n_ops Async_accept s"

lemma benign_refl [simp]: "benign s s"
  by (simp add: benign_def)

lemma benign_trans: "benign s t \<Longrightarrow> benign t u \<Longrightarrow> benign s u"
  by (auto simp: benign_def)

lemma benign_send [simp]: "benign s (ws_send m p s)"
  by (auto simp: benign_def sess_inv_def ws_send_def do_write_def Let_def)

lemma benign_shutdown [simp]: "benign s (ws_shutdown s)"
  by (auto simp: benign_def sess_inv_def ws_shutdown_def)

lemma benign_pong [simp]: "benign s (on_pong s)"
proof -
  have "benign s (s\<lparr>pong_counter := n\<rparr>)" for n
    by (auto simp: benign_def sess_inv_def)
  then show ?thesis
    by (simp add: on_pong_def Let_def benign_trans [OF _ benign_shutdown])
qed

lemma benign_handle_ev [simp]: "benign s (handle_ev r s)"
  by (cases r) (simp_all add: handle_ev_def)

section \<open>Quiet updates of the worker\<close>

fun lrange_keys :: "redis_cmd list \<Rightarrow> string list" where
  "lrange_keys [] = []"
| "lrange_keys (R_lrange key a b # cs) = key # lrange_keys cs"
| "lrange_keys (c # cs) = lrange_keys cs"

lemma lrange_keys_append [simp]: "lrange_keys (xs @ ys) = lrange_keys xs @ lrange_keys ys"
  by (induction xs rule: lrange_keys.induct) simp_all

text \<open>The commands that read or delete the stored messages of a user.\<close>

fun list_cmd :: "redis_cmd \<Rightarrow> bool" where
  "list_cmd (R_lrange key a b) = True"
| "list_cmd (R_del key) = True"
| "list_cmd c = False"

lemma lrange_keys_free: "list_all (\<lambda>c. \<not> list_cmd c) cs \<Longrightarrow> lrange_keys cs = []"
  by (induction cs rule: lrange_keys.induct) simp_all

text \<open>Those, and the commands that change the subscriptions of the node.\<close>

fun user_cmd :: "redis_cmd \<Rightarrow> bool" where
  "user_cmd (R_subscribe c) = True"
| "user_cmd (R_unsubscribe c) = True"
| "user_cmd c = list_cmd c"

lemma user_cmd_list: "list_all (\<lambda>c. \<not> user_cmd c) cs \<Longrightarrow> list_all (\<lambda>c. \<not> list_cmd c) cs"
proof (rule list.pred_mono_strong)
  fix c
  show "\<not> user_cmd c \<Longrightarrow> \<not> list_cmd c" by (cases c) auto
qed

text \<open>The flag \<open>ok\<close> forbids updates that end the process; \<open>C\<close> is the set of the commands that the
  posts in memory may be subject to.\<close>

inductive quiet :: "bool \<Rightarrow> store_cmd set \<Rightarrow> worker \<Rightarrow> worker \<Rightarrow> bool" for ok C w where
  q_refl: "quiet ok C w w"
| q_send: "ok \<longrightarrow> m \<noteq> '''' \<Longrightarrow> quiet ok C w v \<Longrightarrow> quiet ok C w (send_msg s m p v)"
| q_shut: "quiet ok C w v \<Longrightarrow> quiet ok C w (upd_session s ws_shutdown v)"
| q_pong: "quiet ok C w v \<Longrightarrow> quiet ok C w (upd_session s on_pong v)"
| q_event: "quiet ok C w v \<Longrightarrow> quiet ok C w (upd_session s (handle_ev r) v)"
| q_redis: "list_all (\<lambda>c. \<not> user_cmd c) cmds \<Longrightarrow> quiet ok C w v \<Longrightarrow> quiet ok C w (redis_send cmds v)"
| q_posts: "set cs \<subseteq> C \<Longrightarrow> quiet ok C w v \<Longrightarrow>
     quiet ok C w (v\<lparr>posts := fold channel_exec cs (posts v)\<rparr>)"
| q_gen: "quiet ok C w v \<Longrightarrow> quiet ok C w (v\<lparr>gen := g\<rparr>)"
| q_accept: "quiet ok C w v \<Longrightarrow> quiet ok C w (v\<lparr>accept_mgr := a\<rparr>)"
| q_crash: "\<not> ok \<Longrightarrow> quiet ok C w v \<Longrightarrow> quiet ok C w (crash v)"

lemmas quiet_intros = quiet.intros

lemma quiet_trans: "quiet ok C v u \<Longrightarrow> quiet ok C w v \<Longrightarrow> quiet ok C w u"
  by (induction rule: quiet.induct) (auto intro: quiet_intros)

lemma heap_upd_session:
  "heap (upd_session s f w) t = (if t = s then map_option f (heap w s) else heap w t)"
  by (simp add: upd_session_def split: option.splits)

lemma upd_session_sel [simp]:
  "sessions (upd_session s f w) = sessions w" "posts (upd_session s f w) = posts w"
  "chat_queue (upd_session s f w) = chat_queue w" "redis_out (upd_session s f w) = redis_out w"
  "number_of_sessions (upd_session s f w) = number_of_sessions w" "gen (upd_session s f w) = gen w"
  "accept_mgr (upd_session s f w) = accept_mgr w" "crashed (upd_session s f w) = crashed w"
  by (simp_all add: upd_session_def split: option.splits)

lemma redis_send_sel [simp]:
  "sessions (redis_send cs w) = sessions w" "posts (redis_send cs w) = posts w"
  "chat_queue (redis_send cs w) = chat_queue w" "redis_out (redis_send cs w) = redis_out w @ cs"
  "number_of_sessions (redis_send cs w) = number_of_sessions w" "gen (redis_send cs w) = gen w"
  "accept_mgr (redis_send cs w) = accept_mgr w" "crashed (redis_send cs w) = crashed w"
  "heap (redis_send cs w) = heap w"
  by (simp_all add: redis_send_def)

lemma crash_sel [simp]:
  "sessions (crash w) = sessions w" "posts (crash w) = posts w" "chat_queue (crash w) = chat_queue w"
  "redis_out (crash w) = redis_out w" "number_of_sessions (crash w) = number_of_sessions w"
  "gen (crash w) = gen w" "accept_mgr (crash w) = accept_mgr w" "crashed (crash w)"
  "heap (crash w) = heap w"
  by (simp_all add: crash_def)

lemma send_msg_sel [simp]:
  "sessions (send_msg s m p w) = sessions w" "posts (send_msg s m p w) = posts w"
  "chat_queue (send_msg s m p w) = chat_queue w" "redis_out (send_msg s m p w) = redis_out w"
  "number_of_sessions (send_msg s m p w) = number_of_sessions w" "gen (send_msg s m p w) = gen w"
  "accept_mgr (send_msg s m p w) = accept_mgr w"
  by (simp_all add: send_msg_def)

lemma heap_send_msg:
  "heap (send_msg s m p w) t =
     (if m \<noteq> '''' \<and> t = s then map_option (ws_send m p) (heap w s) else heap w t)"
  by (simp add: send_msg_def heap_upd_session)

lemma quiet_frame:
  assumes "quiet ok C w v"
  shows "sessions v = sessions w" "chat_queue v = chat_queue w"
    "number_of_sessions v = number_of_sessions w"
    "lrange_keys (redis_out v) = lrange_keys (redis_out w)"
  using assms by (induction rule: quiet.induct) (simp_all add: lrange_keys_free user_cmd_list)

lemma quiet_out:
  "quiet ok C w v \<Longrightarrow> \<exists>cs. redis_out v = redis_out w @ cs \<and> list_all (\<lambda>c. \<not> user_cmd c) cs"
proof (induction rule: quiet.induct)
  case (q_redis cmds v)
  then obtain cs where "redis_out v = redis_out w @ cs" "list_all (\<lambda>c. \<not> user_cmd c) cs" by blast
  with q_redis.hyps(1) show ?case by (intro exI [of _ "cs @ cmds"]) simp
qed simp_all

lemma quiet_not_crashed: "quiet True C w v \<Longrightarrow> crashed v = crashed w"
  by (induction rule: quiet.induct) (simp_all add: send_msg_def)

lemma quiet_posts:
  "quiet ok C w v \<Longrightarrow> \<exists>cs. set cs \<subseteq> C \<and> posts v = fold channel_exec cs (posts w)"
proof (induction rule: quiet.induct)
  case q_refl
  show ?case by (intro exI [of _ "[]"]) simp
next
  case (q_posts cs v)
  then obtain ds where "set ds \<subseteq> C" "posts v = fold channel_exec ds (posts w)" by blast
  with q_posts.hyps(1) show ?case by (intro exI [of _ "ds @ cs"]) simp
qed simp_all

lemma quiet_posts_same: "quiet ok {} w v \<Longrightarrow> posts v = posts w"
  using quiet_posts [of ok "{}" w v] by auto

lemma rel_option_benign_upd:
  assumes "rel_option benign o1 (heap v s)" "\<And>x. benign x (f x)"
  shows "rel_option benign o1 (heap (upd_session t f v) s)"
  using assms by (auto simp: heap_upd_session rel_option_iff split: option.splits
      intro: benign_trans)

lemma quiet_heap: "quiet ok C w v \<Longrightarrow> rel_option benign (heap w s) (heap v s)"
proof (induction rule: quiet.induct)
  case q_refl
  show ?case by (simp add: option.rel_refl)
qed (auto simp: send_msg_def intro: rel_option_benign_upd)

lemma quiet_heap_Some:
  assumes "quiet ok C w v" "heap w s = Some x"
  obtains y where "heap v s = Some y" "benign x y"
  using quiet_heap [OF assms(1), of s] assms(2) by (auto simp: option_rel_Some1)

lemma quiet_heap_back:
  assumes "quiet ok C w v" "heap v s = Some y"
  obtains x where "heap w s = Some x" "benign x y"
  using quiet_heap [OF assms(1), of s] assms(2) by (auto simp: option_rel_Some2)

lemma quiet_heap_None: "quiet ok C w v \<Longrightarrow> heap v s = None \<longleftrightarrow> heap w s = None"
  using quiet_heap [of ok C w v s] by (auto simp: rel_option_iff split: option.splits)

lemma quiet_hash: "quiet ok C w v \<Longrightarrow> map_option pub_hash (heap v s) = map_option pub_hash (heap w s)"
  using quiet_heap [of ok C w v s] by (auto simp: rel_option_iff benign_def split: option.splits)

section \<open>Handlers made of quiet updates\<close>

lemma quiet_store: "quiet ok C w v \<Longrightarrow> quiet ok C w (store_chat_msg cfg msgs u v)"
  by (simp add: store_chat_msg_def Let_def q_redis)

lemma quiet_send_all:
  "ok \<longrightarrow> '''' \<notin> set ms \<Longrightarrow> quiet ok C w v \<Longrightarrow> quiet ok C w (fold (\<lambda>m. send_msg s m p) ms v)"
  by (induction ms arbitrary: v) (simp_all add: q_send eq_commute)

lemma quiet_fold_shut: "quiet ok C w v \<Longrightarrow> quiet ok C w (fold (\<lambda>(_, s). upd_session s ws_shutdown) ss v)"
  by (induction ss arbitrary: v) (auto intro!: q_shut)

lemma dump_not_Nil [simp]: "json_laws L \<Longrightarrow> jdump L j \<noteq> Some ''''"
  using dump_nonempty [of L j "[]"] by auto

lemma quiet_forward:
  "json_laws L \<Longrightarrow> forward_chat_msg L cfg j u w = (r, v) \<Longrightarrow> quiet ok C w v"
  by (auto simp: forward_chat_msg_def split: option.splits
      intro!: quiet_intros quiet_store)

lemma quiet_chat_msg:
  "json_laws L \<Longrightarrow> on_app_chat_msg L cfg j s w = (r, v) \<Longrightarrow> quiet ok C w v"
  by (auto simp: on_app_chat_msg_def Let_def split: option.splits prod.splits bind_splits
      dest: quiet_forward [where ok = ok, rotated] intro!: quiet_intros)

lemma quiet_presence:
  "json_laws L \<Longrightarrow> on_app_presence L cfg j s w = (r, v) \<Longrightarrow> quiet ok C w v"
  by (auto simp: on_app_presence_def Let_def split: option.splits prod.splits
      intro!: quiet_intros)

lemma quiet_publish_impl: "on_publish_impl L cfg now j w = (r, v) \<Longrightarrow> quiet ok C w v"
  by (auto simp: on_publish_impl_def Let_def split: option.splits prod.splits if_splits
      intro!: quiet_intros)

lemma publish_impl_nonempty:
  "json_laws L \<Longrightarrow> on_publish_impl L cfg now j w = (Some r, v) \<Longrightarrow> r \<noteq> ''''"
  by (auto simp: on_publish_impl_def Let_def split: option.splits prod.splits if_splits
      dest: dump_nonempty)

lemma quiet_publish:
  "json_laws L \<Longrightarrow> on_app_publish L cfg now j s w = (r, v) \<Longrightarrow> quiet ok C w v"
  by (auto simp: on_app_publish_def split: option.splits prod.splits
      dest: publish_impl_nonempty intro!: q_send elim!: quiet_publish_impl)

lemma quiet_db_chat_msg:
  assumes "ok \<longrightarrow> '''' \<notin> set msgs \<and> (\<forall>s. map_of (sessions w) u = Some s \<longrightarrow> heap w s \<noteq> None)"
  shows "quiet ok C w (on_db_chat_msg cfg u msgs w)"
  using assms by (auto simp: on_db_chat_msg_def split: option.splits
      intro!: quiet_store quiet_send_all quiet_intros)

lemma quiet_db_presence:
  assumes "ok \<longrightarrow> msg \<noteq> '''' \<and> (\<forall>s. map_of (sessions w) u = Some s \<longrightarrow> heap w s \<noteq> None)"
  shows "quiet ok C w (on_db_presence u msg w)"
  using assms by (auto simp: on_db_presence_def split: option.splits intro!: quiet_intros)

text \<open>The commands on the posts that a message of the posts channel stands for.\<close>

definition node_cmds :: "'j extern \<Rightarrow> core \<Rightarrow> string \<Rightarrow> store_cmd list" where
  "node_cmds L cfg msg =
     (case do { j \<leftarrow> jparse L msg; cmd \<leftarrow> at_str L j ''cmd''; Some (j, cmd) } of
        None \<Rightarrow> []
      | Some (j, cmd) \<Rightarrow>
          if cmd = ''visualization'' then
            (case at_str L j ''post_id'' of None \<Rightarrow> [] | Some i \<Rightarrow> [Visual_cmd i])
          else if cmd = ''delete'' then
            (case (at_str L j ''post_id'', at_str L j ''from'') of
               (Some i, Some a) \<Rightarrow> [Remove_cmd i a (a = c_chat_admin_id cfg)]
             | _ \<Rightarrow> [])
          else if cmd = ''publish_internal'' then
            (case Option.bind (jat L j ''post'') (from_json L) of
               None \<Rightarrow> [] | Some p \<Rightarrow> [Add_cmd p])
          else [])"

lemma channel_post_cmds: "channel_post L cfg now msg ps = fold channel_exec (node_cmds L cfg msg) ps"
  by (simp add: channel_post_def node_cmds_def Let_def remove_expired_posts_def
      split: option.splits prod.splits bind_splits)

lemma quiet_channel_post:
  "set (node_cmds L cfg msg) \<subseteq> C \<Longrightarrow> quiet ok C w v \<Longrightarrow> quiet ok C w (on_db_channel_post L cfg now msg v)"
  by (simp add: on_db_channel_post_def channel_post_cmds q_posts)

text \<open>The greeting of redis subscribes to the channel of the posts, and changes nothing else.\<close>

lemma hello_sel [simp]:
  "sessions (on_hello cfg w) = sessions w" "posts (on_hello cfg w) = posts w"
  "chat_queue (on_hello cfg w) = chat_queue w" "heap (on_hello cfg w) = heap w"
  "number_of_sessions (on_hello cfg w) = number_of_sessions w" "crashed (on_hello cfg w) = crashed w"
  "lrange_keys (redis_out (on_hello cfg w)) = lrange_keys (redis_out w)"
  by (simp_all add: on_hello_def)

lemma quiet_hvals:
  assumes "\<And>m. m \<in> set msgs \<Longrightarrow> set (node_cmds L cfg m) \<subseteq> C"
  shows "quiet ok C w (on_hvals L cfg now msgs w)"
proof -
  have "quiet ok C w v \<Longrightarrow> quiet ok C w (fold (on_db_channel_post L cfg now) msgs v)" for v
    using assms by (induction msgs arbitrary: v) (simp_all add: quiet_channel_post)
  then show ?thesis by (simp add: on_hvals_def Let_def q_redis q_refl)
qed

lemma quiet_load: "Load_cmd ps \<in> C \<Longrightarrow> quiet ok C w v \<Longrightarrow>
    quiet ok C w (v\<lparr>posts := load_visualizations ps (posts v)\<rparr>)"
  using q_posts [of "[Load_cmd ps]" C ok w v] by simp

lemma quiet_hgetall:
  assumes "ok \<longrightarrow> \<not> t \<and> even (length v) \<and> visual_pairs v \<noteq> None"
    "\<And>ps. visual_pairs v = Some ps \<Longrightarrow> Load_cmd ps \<in> C"
  shows "quiet ok C w (on_hgetall t l v w)"
  using assms by (auto simp: on_hgetall_def acceptor_run_def Let_def even_iff_mod_2_eq_zero
      split: option.splits intro!: quiet_load quiet_intros)

lemma quiet_credit: "upload_credit L cfg w = (c, v) \<Longrightarrow> quiet ok C w v"
  by (auto simp: upload_credit_def Let_def split: prod.splits sum.splits intro!: quiet_intros)

lemma quiet_credit_loop: "credit_loop L cfg n w = (r, v) \<Longrightarrow> quiet ok C w v"
proof (induction n arbitrary: w r v)
  case 0
  then show ?case by (auto intro: q_refl)
next
  case (Suc n)
  obtain c u where cu: "upload_credit L cfg w = (c, u)" by fastforce
  with Suc quiet_credit [OF cu, of ok C] show ?case
    by (auto split: sum.splits prod.splits intro: quiet_trans)
qed

lemma quiet_shutdown_impl: "quiet ok C w (shutdown_impl w)"
  by (simp add: shutdown_impl_def Let_def q_redis q_accept q_refl quiet_fold_shut)

end
