(* ===== verification/Worker_Table.thy ===== *)
theory Worker_Table
  imports Worker_Inv
begin

text \<open>
  The invariant of the worker that relates the table of logged in users to the sessions that are
  alive, and the queue of pending chat reads to the commands sent to redis. It is kept by every
  quiet update, by the login and by the end of a session.
\<close>

section \<open>The invariant\<close>

definition heap_inv :: "worker \<Rightarrow> bool" where
  "heap_inv w \<longleftrightarrow> (\<forall>s x. heap w s = Some x \<longrightarrow> sess_inv x)"

text \<open>\<open>R\<close> is the set of the sessions being served: those whose end has not been processed.\<close>

definition table_inv :: "sid set \<Rightarrow> worker \<Rightarrow> bool" where
  "table_inv R w \<longleftrightarrow>
     distinct (map fst (sessions w)) \<and>
     (\<forall>u s. map_of (sessions w) u = Some s \<longrightarrow>
        s \<in> R \<and> u \<noteq> '''' \<and> map_option pub_hash (heap w s) = Some u) \<and>
     (\<forall>s \<in> R. \<forall>u. map_option pub_hash (heap w s) = Some u \<longrightarrow> u \<noteq> '''' \<longrightarrow>
        map_of (sessions w) u = Some s)"

text \<open>An entry of the queue of pending reads: the user of a login, or the key of a notification.\<close>

definition key_matches :: "core \<Rightarrow> string \<Rightarrow> string \<Rightarrow> bool" where
  "key_matches cfg key q \<longleftrightarrow> key = q \<or> key = r_chat_msg_prefix (c_redis cfg) @ q"

definition queue_inv :: "core \<Rightarrow> nat \<Rightarrow> worker \<Rightarrow> bool" where
  "queue_inv cfg n w \<longleftrightarrow>
     n \<le> length (lrange_keys (redis_out w)) \<and>
     list_all2 (key_matches cfg) (drop n (lrange_keys (redis_out w))) (chat_queue w)"

definition winv :: "core \<Rightarrow> nat \<Rightarrow> sid set \<Rightarrow> worker \<Rightarrow> bool" where
  "winv cfg n R w \<longleftrightarrow> heap_inv w \<and> table_inv R w \<and> queue_inv cfg n w"

lemma table_invD:
  assumes "table_inv R w" "map_of (sessions w) u = Some s"
  obtains x where "s \<in> R" "u \<noteq> ''''" "heap w s = Some x" "pub_hash x = u"
  using assms unfolding table_inv_def by (metis map_option_eq_Some)

lemma table_inv_logged_in:
  "table_inv R w \<Longrightarrow> s \<in> R \<Longrightarrow> heap w s = Some x \<Longrightarrow> pub_hash x \<noteq> '''' \<Longrightarrow>
     map_of (sessions w) (pub_hash x) = Some s"
  unfolding table_inv_def by (metis option.map(2))

lemma table_inv_cong:
  assumes "sessions v = sessions w"
    "\<And>s. map_option pub_hash (heap v s) = map_option pub_hash (heap w s)"
  shows "table_inv R v = table_inv R w"
  by (simp add: table_inv_def assms)

lemma table_inv_live: "table_inv R w \<Longrightarrow> map_of (sessions w) u = Some s \<Longrightarrow> heap w s \<noteq> None"
  by (metis table_invD option.distinct(1))

lemma queue_inv_cong:
  "chat_queue v = chat_queue w \<Longrightarrow> lrange_keys (redis_out v) = lrange_keys (redis_out w) \<Longrightarrow>
     queue_inv cfg n v = queue_inv cfg n w"
  by (simp add: queue_inv_def)

lemma queue_inv_push:
  assumes "queue_inv cfg n w" "lrange_keys (redis_out v) = lrange_keys (redis_out w) @ [k]"
    "chat_queue v = chat_queue w @ [q]" "key_matches cfg k q"
  shows "queue_inv cfg n v"
  using assms by (simp add: queue_inv_def list_all2_appendI)

section \<open>Quiet updates\<close>

lemma heap_inv_quiet: "quiet ok C w v \<Longrightarrow> heap_inv w \<Longrightarrow> heap_inv v"
  unfolding heap_inv_def by (metis quiet_heap_back benign_def)

lemma winv_quiet: "quiet ok C w v \<Longrightarrow> winv cfg n R w \<Longrightarrow> winv cfg n R v"
  using table_inv_cong [of v w R] queue_inv_cong [of v w cfg n]
  by (simp add: winv_def heap_inv_quiet quiet_frame quiet_hash)

section \<open>The end of a session\<close>

lemma sess_inv_take: "take_undelivered s = (ms, s') \<Longrightarrow> sess_inv s \<Longrightarrow> sess_inv s'"
  by (auto simp: take_undelivered_def Let_def sess_inv_def)

lemma take_undelivered_sel:
  "take_undelivered s = (ms, s') \<Longrightarrow> pub_hash s' = pub_hash s \<and> pending_ops s' = pending_ops s"
  by (auto simp: take_undelivered_def Let_def)

lemma lrange_store [simp]:
  "lrange_keys (redis_out (store_chat_msg cfg ms u w)) = lrange_keys (redis_out w)"
  "sessions (store_chat_msg cfg ms u w) = sessions w" "heap (store_chat_msg cfg ms u w) = heap w"
  "chat_queue (store_chat_msg cfg ms u w) = chat_queue w"
  "number_of_sessions (store_chat_msg cfg ms u w) = number_of_sessions w"
  "crashed (store_chat_msg cfg ms u w) = crashed w"
  "posts (store_chat_msg cfg ms u w) = posts w"
  by (simp_all add: store_chat_msg_def Let_def)

lemma dtor_sel:
  "heap (on_session_dtor cfg u ms w) = heap w"
  "sessions (on_session_dtor cfg u ms w) = AList.delete u (sessions w)"
  "lrange_keys (redis_out (on_session_dtor cfg u ms w)) = lrange_keys (redis_out w)"
  "chat_queue (on_session_dtor cfg u ms w) = chat_queue w"
  "number_of_sessions (on_session_dtor cfg u ms w) = number_of_sessions w"
  "crashed (on_session_dtor cfg u ms w) = crashed w"
  "posts (on_session_dtor cfg u ms w) = posts w"
  by (auto simp: on_session_dtor_def Let_def delete_id map_of_eq_None_iff split: option.splits)

lemma finish_sel:
  "chat_queue (finish cfg s w) = chat_queue w"
  "lrange_keys (redis_out (finish cfg s w)) = lrange_keys (redis_out w)"
  "crashed (finish cfg s w) = crashed w" "posts (finish cfg s w) = posts w"
  "heap w s \<noteq> None \<Longrightarrow> number_of_sessions (finish cfg s w) = number_of_sessions w - 1"
  by (auto simp: finish_def Let_def dtor_sel split: option.splits prod.splits)

lemma finish_heap_eq:
  "heap (finish cfg s w) t =
     (if t = s then map_option (\<lambda>x. if is_logged_in x then snd (take_undelivered x) else x) (heap w s)
      else heap w t)"
  by (auto simp: finish_def Let_def dtor_sel heap_upd_session split: option.splits prod.splits)

lemma finish_heap:
  "rel_option (\<lambda>x y. pub_hash y = pub_hash x \<and> pending_ops y = pending_ops x \<and>
      (sess_inv x \<longrightarrow> sess_inv y)) (heap w t) (heap (finish cfg s w) t)"
proof (cases "heap w t")
  case None
  then show ?thesis by (auto simp: finish_heap_eq)
next
  case (Some x)
  obtain ms y where "take_undelivered x = (ms, y)" by fastforce
  with Some take_undelivered_sel [OF this] sess_inv_take [OF this] show ?thesis
    by (cases "t = s") (simp_all add: finish_heap_eq)
qed

lemma finish_hash:
  "map_option pub_hash (heap (finish cfg s w) t) = map_option pub_hash (heap w t)"
  using finish_heap [of w t cfg s] by (auto simp: rel_option_iff split: option.splits)

lemma finish_sessions:
  assumes "heap w s = Some x"
  shows "sessions (finish cfg s w) =
    (if pub_hash x = '''' then sessions w else AList.delete (pub_hash x) (sessions w))"
  using assms take_undelivered_sel [of x]
  by (auto simp: finish_def Let_def dtor_sel is_logged_in_def split: prod.splits)

lemma table_inv_finish:
  assumes inv: "table_inv R w" and s: "s \<in> R" "heap w s = Some x"
  shows "table_inv (R - {s}) (finish cfg s w)"
proof -
  let ?v = "finish cfg s w"
  have nil: "map_of (sessions w) '''' = None"
    using inv unfolding table_inv_def by (metis not_Some_eq)
  have ses: "map_of (sessions ?v) u = (if u = pub_hash x then None else map_of (sessions w) u)" for u
    by (simp add: finish_sessions [OF s(2)] delete_conv nil)
  have d: "distinct (map fst (sessions ?v))"
    using inv by (simp add: finish_sessions [OF s(2)] table_inv_def distinct_delete)
  have other: "t \<in> R - {s}" if "map_of (sessions w) u = Some t" "u \<noteq> pub_hash x" for u t
    using table_invD [OF inv that(1)] that(2) s(2) by (metis DiffI option.inject singletonD)
  have mine: "u \<noteq> pub_hash x"
    if "t \<in> R - {s}" "map_option pub_hash (heap w t) = Some u" "u \<noteq> ''''" for t u
    using that table_inv_logged_in [OF inv _ s(2)] table_inv_logged_in [OF inv, of t] s(1)
    by auto
  show ?thesis
    unfolding table_inv_def ses finish_hash
    using inv d other mine unfolding table_inv_def by (metis DiffD1 option.distinct(1))
qed

lemma heap_inv_finish: "heap_inv w \<Longrightarrow> heap_inv (finish cfg s w)"
proof -
  assume "heap_inv w"
  then have "sess_inv y" if "heap (finish cfg s w) t = Some y" for t y
    using finish_heap [of w t cfg s] that by (auto simp: heap_inv_def option_rel_Some2)
  then show ?thesis by (auto simp: heap_inv_def)
qed

lemma winv_finish:
  "winv cfg n R w \<Longrightarrow> s \<in> R \<Longrightarrow> heap w s = Some x \<Longrightarrow> winv cfg n (R - {s}) (finish cfg s w)"
  by (simp add: winv_def heap_inv_finish table_inv_finish queue_inv_def finish_sel)

section \<open>The login\<close>

lemma register_sel [simp]:
  "redis_out (register_session u s w) = redis_out w" "chat_queue (register_session u s w) = chat_queue w"
  "number_of_sessions (register_session u s w) = number_of_sessions w"
  "crashed (register_session u s w) = crashed w" "posts (register_session u s w) = posts w"
  by (auto simp: register_session_def Let_def split: option.splits)

lemma register_map_of: "map_of (sessions (register_session u s w)) = (map_of (sessions w))(u \<mapsto> s)"
  by (auto simp: register_session_def Let_def update_conv' split: option.splits)

lemma register_distinct:
  "distinct (map fst (sessions w)) \<Longrightarrow> distinct (map fst (sessions (register_session u s w)))"
  by (auto simp: register_session_def Let_def distinct_update map_of_eq_None_iff split: option.splits)

text \<open>The session of the previous login of \<open>u\<close>.\<close>

definition replaced :: "string \<Rightarrow> worker \<Rightarrow> sid \<Rightarrow> bool" where
  "replaced u w t \<longleftrightarrow> map_of (sessions w) u = Some t"

lemma register_heap:
  "heap (register_session u s w) t =
     (if replaced u w t then map_option (\<lambda>x. set_pub_hash '''' (ws_shutdown x)) (heap w t) else heap w t)"
  by (auto simp: register_session_def replaced_def Let_def heap_upd_session split: option.splits)

text \<open>Logging \<open>s\<close> in as \<open>u\<close>: the two first steps of \<open>on_app_login\<close>.\<close>

abbreviation enter :: "string \<Rightarrow> sid \<Rightarrow> worker \<Rightarrow> worker" where
  "enter u s w \<equiv> register_session u s (upd_session s (set_pub_hash u) w)"

lemma enter_heap:
  assumes "table_inv R w" "heap w s = Some x" "pub_hash x = ''''"
  shows "heap (enter u s w) t =
    (if t = s then Some (set_pub_hash u x)
     else if replaced u w t then map_option (\<lambda>x. set_pub_hash '''' (ws_shutdown x)) (heap w t)
     else heap w t)"
proof -
  have "\<not> replaced u w s"
    using assms by (auto simp: replaced_def elim: table_invD)
  with assms(2) show ?thesis
    by (auto simp: register_heap replaced_def heap_upd_session)
qed

lemma enter_hash:
  assumes "table_inv R w" "heap w s = Some x" "pub_hash x = ''''"
  shows "map_option pub_hash (heap (enter u s w) t) =
    (if t = s then Some u else if replaced u w t then map_option (\<lambda>_. '''') (heap w t)
     else map_option pub_hash (heap w t))"
  by (simp add: enter_heap [OF assms] option.map_comp comp_def set_pub_hash_def)

lemma table_inv_enter:
  assumes inv: "table_inv R w" and s: "s \<in> R" "heap w s = Some x" "pub_hash x = ''''"
    and u: "u \<noteq> ''''"
  shows "table_inv R (enter u s w)"
proof -
  have d: "distinct (map fst (sessions (enter u s w)))"
    using inv by (simp add: table_inv_def register_distinct)
  have m: "map_of (sessions (enter u s w)) = (map_of (sessions w))(u \<mapsto> s)"
    by (simp add: register_map_of)
  have ent: "t \<in> R \<and> v \<noteq> '''' \<and> map_option pub_hash (heap (enter u s w) t) = Some v"
    if "((map_of (sessions w))(u \<mapsto> s)) v = Some t" for t v
  proof (cases "v = u")
    case True
    with that have "t = s" by simp
    with True s u show ?thesis unfolding enter_hash [OF inv s(2,3)] by simp
  next
    case False
    with that have e: "map_of (sessions w) v = Some t" by simp
    from table_invD [OF inv this] obtain y where y: "t \<in> R" "v \<noteq> ''''" "heap w t = Some y" "pub_hash y = v"
      by blast
    have "\<not> replaced u w t"
      using y False table_invD [OF inv, of u t] by (auto simp: replaced_def)
    moreover have "t \<noteq> s" using y s by auto
    ultimately show ?thesis using y by (simp add: enter_hash [OF inv s(2,3)])
  qed
  have conv: "((map_of (sessions w))(u \<mapsto> s)) v = Some t"
    if t: "t \<in> R" "map_option pub_hash (heap (enter u s w) t) = Some v" "v \<noteq> ''''" for t v
  proof (cases "t = s")
    case True
    with t show ?thesis by (simp add: enter_hash [OF inv s(2,3)])
  next
    case False
    with t have nr: "\<not> replaced u w t" and h: "map_option pub_hash (heap w t) = Some v"
      by (auto simp: enter_hash [OF inv s(2,3)] split: if_splits)
    from h inv t(1,3) have "map_of (sessions w) v = Some t"
      unfolding table_inv_def by blast
    with nr show ?thesis by (auto simp: replaced_def)
  qed
  show ?thesis
    unfolding table_inv_def m using d ent conv by blast
qed

lemma sess_inv_shut: "sess_inv x \<Longrightarrow> sess_inv (ws_shutdown x)"
  using benign_shutdown [of x] by (simp add: benign_def)

lemma heap_inv_enter:
  assumes "table_inv R w" "heap w s = Some x" "pub_hash x = ''''" "heap_inv w"
    "n_ops Async_accept x = 0"
  shows "heap_inv (enter u s w)"
proof -
  have "sess_inv x" using assms(2,4) by (simp add: heap_inv_def)
  then have "sess_inv (set_pub_hash u x)"
    using assms(5) by (simp add: sess_inv_def set_pub_hash_def)
  moreover have "sess_inv (set_pub_hash '''' (ws_shutdown y))" if "heap w t = Some y" for t y
    using assms(4) sess_inv_shut [of y] that by (auto simp: heap_inv_def sess_inv_def set_pub_hash_def)
  ultimately show ?thesis
    using assms(4) by (auto simp: heap_inv_def enter_heap [OF assms(1-3)] split: if_splits)
qed

lemma winv_enter:
  assumes "winv cfg n R w" "s \<in> R" "heap w s = Some x" "pub_hash x = ''''"
    "n_ops Async_accept x = 0" "u \<noteq> ''''"
  shows "winv cfg n R (enter u s w)"
  using assms heap_inv_enter [of R w s x u] table_inv_enter [of R w s x u]
  by (simp add: winv_def queue_inv_def)

section \<open>The dispatcher of the apps\<close>

definition ops :: "worker \<Rightarrow> sid \<Rightarrow> (nat \<times> nat) option" where
  "ops w t = map_option (\<lambda>x. (n_ops Async_read x, n_ops Async_accept x)) (heap w t)"

lemma ops_quiet: "quiet ok C w v \<Longrightarrow> ops v t = ops w t"
  using quiet_heap [of ok C w v t]
  by (auto simp: ops_def benign_def rel_option_iff split: option.splits)

text \<open>What serving a message of \<open>s\<close> keeps.\<close>

definition kept :: "core \<Rightarrow> bool \<Rightarrow> sid \<Rightarrow> worker \<Rightarrow> worker \<Rightarrow> bool" where
  "kept cfg ok s w v \<longleftrightarrow>
     ops v = ops w \<and> number_of_sessions v = number_of_sessions w \<and> posts v = posts w \<and>
     (ok \<longrightarrow> crashed v = crashed w) \<and>
     (\<forall>n R. s \<in> R \<longrightarrow> (\<exists>k. ops w s = Some (k, 0)) \<longrightarrow> winv cfg n R w \<longrightarrow> winv cfg n R v)"

lemma kept_trans: "kept cfg ok s w v \<Longrightarrow> kept cfg ok s v u \<Longrightarrow> kept cfg ok s w u"
  by (simp add: kept_def)

lemma kept_quiet: "quiet ok {} w v \<Longrightarrow> kept cfg ok s w v"
  using quiet_not_crashed [of "{}" w v]
  by (auto simp: kept_def ops_quiet quiet_frame winv_quiet quiet_posts_same)

lemma kept_enter:
  assumes "heap w s = Some x" "pub_hash x = ''''" "u \<noteq> ''''"
    "\<exists>R. table_inv R w"
  shows "kept cfg ok s w (enter u s w)"
proof -
  from assms(4) obtain R where R: "table_inv R w" by blast
  have "ops (enter u s w) t = ops w t" for t
    using assms(1)
    by (cases "heap w t")
      (auto simp: ops_def enter_heap [OF R assms(1,2)] set_pub_hash_def ws_shutdown_def)
  then have "ops (enter u s w) = ops w" by blast
  moreover have "winv cfg n R (enter u s w)"
    if "s \<in> R" "winv cfg n R w" "ops w s = Some (k, 0)" for n R k
    using winv_enter [OF that(2,1) assms(1,2) _ assms(3)] that(3) assms(1) by (simp add: ops_def)
  ultimately show ?thesis by (auto simp: kept_def)
qed

lemma kept_subscribe: "kept cfg ok s w (subscribe_user cfg u w)"
proof -
  let ?v = "subscribe_user cfg u w"
  have heap: "heap ?v = heap w" "sessions ?v = sessions w"
    "number_of_sessions ?v = number_of_sessions w" "crashed ?v = crashed w" "posts ?v = posts w"
    by (simp_all add: subscribe_user_def Let_def)
  have "queue_inv cfg n ?v" if "queue_inv cfg n w" for n
    by (rule queue_inv_push [OF that]) (auto simp: subscribe_user_def Let_def key_matches_def)
  then show ?thesis
    using table_inv_cong [OF heap(2)]
    by (simp add: kept_def heap ops_def fun_eq_iff winv_def heap_inv_def)
qed

lemma quiet_token: "publish_token L cfg j u w = (r, v) \<Longrightarrow> quiet ok C w v"
  by (auto simp: publish_token_def split: option.splits if_splits prod.splits
      intro!: quiet_intros)

lemma kept_login:
  assumes L: "json_laws L" and run: "on_app_login L cfg j s w = (r, v)"
    and s: "heap w s = Some x" "pub_hash x = ''''" "\<exists>R. table_inv R w"
  shows "kept cfg ok s w v"
proof (cases "\<exists>u. do { user \<leftarrow> at_str L j ''user''; key \<leftarrow> at_str L j ''key'';
                Some (make_hex_digest L user key) } = Some u \<and> u \<noteq> ''''")
  case False
  with run L have "quiet ok {} w v"
    by (auto simp: on_app_login_def split: option.splits intro!: quiet_intros)
  then show ?thesis by (rule kept_quiet)
next
  case True
  then obtain u where u: "do { user \<leftarrow> at_str L j ''user''; key \<leftarrow> at_str L j ''key'';
                Some (make_hex_digest L user key) } = Some u" "u \<noteq> ''''" by blast
  note e = kept_enter [OF s(1,2) u(2) s(3), of cfg ok]
  obtain t w1 where tok: "publish_token L cfg j u (enter u s w) = (t, w1)" by fastforce
  note k = kept_trans [OF e kept_quiet [OF quiet_token [OF tok]]]
  show ?thesis
  proof (cases t)
    case None
    with run u tok k show ?thesis by (simp add: on_app_login_def Let_def)
  next
    case (Some a)
    have "quiet ok {} (subscribe_user cfg u w1) v"
      using run u tok Some L
      by (auto simp: on_app_login_def Let_def split: option.splits intro!: quiet_intros)
    from kept_trans [OF kept_trans [OF k kept_subscribe] kept_quiet [OF this]] show ?thesis .
  qed
qed

lemma catch_unknown_snd: "catch_unknown p = (r, v) \<Longrightarrow> \<exists>r'. p = (r', v)"
  by (auto simp: catch_unknown_def split: prod.splits option.splits)

lemma kept_on_app:
  assumes L: "json_laws L" and run: "on_app L cfg now s msg w = (r, v)"
    and s: "heap w s = Some x" "\<exists>R. table_inv R w"
  shows "kept cfg ok s w v"
proof -
  have pr: "kept cfg ok s w v'" if "catch_unknown (on_app_presence L cfg j s w) = (r', v')" for r' v' j
    using catch_unknown_snd [OF that] quiet_presence [OF L] kept_quiet by blast
  have ms: "kept cfg ok s w v'" if "catch_unknown (on_app_chat_msg L cfg j s w) = (r', v')" for r' v' j
    using catch_unknown_snd [OF that] quiet_chat_msg [OF L] kept_quiet by blast
  have pu: "kept cfg ok s w v'" if "catch_unknown (on_app_publish L cfg now j s w) = (r', v')" for r' v' j
    using catch_unknown_snd [OF that] quiet_publish [OF L] kept_quiet by blast
  have lo: "kept cfg ok s w v'" if "catch_unknown (on_app_login L cfg j s w) = (r', v')"
    "\<not> logged_in w s" for r' v' j
    using catch_unknown_snd [OF that(1)] kept_login [OF L _ s(1) _ s(2)] that(2) s(1)
    by (auto simp: logged_in_def is_logged_in_def)
  from run show ?thesis
    unfolding on_app_def
    by (auto split: option.splits prod.splits if_splits intro: kept_quiet [OF q_refl] pr ms pu lo)
qed

end
