(* ===== verification/System.thy ===== *)
theory System
  imports Worker_Table
begin

text \<open>
  One node of the server as a transition system: the worker with all its sessions, driven by the
  events of its event loop, which runs the handlers one at a time. Every event is the completion
  of an operation some handler started (an accept, a read, a write or a close of a session, a
  request on an HTTP connection), something redis sends, or a signal; its effect is the handler of
  the code. A session object is freed once no completion handler owns it. The server waits for
  one signal; the model allows it at any time and again, so that what holds of every reachable state
  does not depend on it.
\<close>

record sys =
  wk :: worker
  replies :: nat
  lost :: nat
  next_sid :: sid

text \<open>
  \<open>replies\<close> counts the answers to LRANGE commands received so far, and \<open>lost\<close> the LRANGE commands
  that will never be answered: redis answers the commands of a connection in order, and when the
  connection is lost the answers that are still due, or some of them, do not come any more.
\<close>

section \<open>Handlers of the websocket stream\<close>

definition on_run :: "bool \<Rightarrow> sid \<Rightarrow> worker \<Rightarrow> worker" where
  "on_run ec sid w =
     (let w = upd_session sid (complete_op Async_accept) w
      in if ec then w
         else upd_session sid do_read (w\<lparr>number_of_sessions := number_of_sessions w + 1\<rparr>))"

definition on_read ::
  "'j extern \<Rightarrow> core \<Rightarrow> c_long \<Rightarrow> bool \<Rightarrow> string \<Rightarrow> sid \<Rightarrow> worker \<Rightarrow> worker" where
  "on_read L cfg now ec msg sid w =
     (let w = upd_session sid (complete_op Async_read) w
      in if ec then finish cfg sid w
         else let (r, w) = on_app L cfg now sid msg w
              in upd_session sid do_read (upd_session sid (handle_ev r) w))"

definition on_written :: "bool \<Rightarrow> string \<Rightarrow> sid \<Rightarrow> worker \<Rightarrow> worker" where
  "on_written ec m sid w = upd_session sid (\<lambda>s. on_write ec (complete_op (Async_write m) s)) w"

text \<open>\<open>on_close\<close> does nothing with the result.\<close>

definition on_close :: "sid \<Rightarrow> worker \<Rightarrow> worker" where
  "on_close sid w = upd_session sid (complete_op Async_close) w"

text \<open>An upgrade request starts a session: \<open>make_plain_session\<close>, \<open>make_ssl_session\<close>.\<close>

definition make_session :: "sys \<Rightarrow> sys" where
  "make_session S =
     (let sid = next_sid S; w = wk S
      in S\<lparr>wk := w\<lparr>heap := (heap w)(sid \<mapsto> ws_run new_session)\<rparr>, next_sid := sid + 1\<rparr>)"

definition http_request ::
  "'j extern \<Rightarrow> core \<Rightarrow> c_long \<Rightarrow> c_int \<Rightarrow> read_result \<Rightarrow> request \<Rightarrow> sys \<Rightarrow> sys" where
  "http_request L cfg now ret0 ec req S =
     (case http_on_read L cfg now ret0 ec req (wk S) of
        (Upgrade, w) \<Rightarrow> make_session (S\<lparr>wk := w\<rparr>)
      | (_, w) \<Rightarrow> S\<lparr>wk := w\<rparr>)"

section \<open>What redis sends\<close>

datatype db_event =
    Hello
  | Push "string list"
  | Hvals "string list"
  | Hgetall bool bool "string list"

fun on_db_event :: "'j extern \<Rightarrow> core \<Rightarrow> c_long \<Rightarrow> db_event \<Rightarrow> worker \<Rightarrow> worker" where
  "on_db_event L cfg now Hello w = on_hello cfg w"
| "on_db_event L cfg now (Push v) w = on_push L cfg now v w"
| "on_db_event L cfg now (Hvals msgs) w = on_hvals L cfg now msgs w"
| "on_db_event L cfg now (Hgetall t l v) w = on_hgetall t l v w"

text \<open>The commands on the posts in memory that an event of redis stands for.\<close>

fun db_cmds :: "'j extern \<Rightarrow> core \<Rightarrow> db_event \<Rightarrow> store_cmd set" where
  "db_cmds L cfg (Push v) =
     (if length v = 3 \<and> v ! 0 = ''message'' \<and> v ! 1 = r_posts_channel_key (c_redis cfg)
      then set (node_cmds L cfg (v ! 2)) else {})"
| "db_cmds L cfg (Hvals msgs) = (\<Union>m \<in> set msgs. set (node_cmds L cfg m))"
| "db_cmds L cfg (Hgetall t l v) =
     (case visual_pairs v of None \<Rightarrow> {} | Some ps \<Rightarrow> {Load_cmd ps})"
| "db_cmds L cfg Hello = {}"

section \<open>Steps\<close>

definition pending :: "sid \<Rightarrow> ws_op \<Rightarrow> worker \<Rightarrow> bool" where
  "pending sid ope w = (case heap w sid of None \<Rightarrow> False | Some s \<Rightarrow> ope \<in> set (pending_ops s))"

datatype event =
    E_http c_long c_int read_result request
  | E_run bool sid
  | E_read c_long bool string sid
  | E_write bool string sid
  | E_close sid
  | E_pong sid
  | E_free sid
  | E_db c_long db_event
  | E_lrange "string list"
  | E_lost nat
  | E_signal bool
  | E_accept bool bool

inductive sys_step :: "'j extern \<Rightarrow> core \<Rightarrow> sys \<Rightarrow> event \<Rightarrow> sys \<Rightarrow> bool" for L cfg S where
  s_http: "\<not> crashed (wk S) \<Longrightarrow>
     sys_step L cfg S (E_http now ret0 ec req) (http_request L cfg now ret0 ec req S)"
| s_run: "\<not> crashed (wk S) \<Longrightarrow> pending sid Async_accept (wk S) \<Longrightarrow>
     sys_step L cfg S (E_run ec sid) (S\<lparr>wk := on_run ec sid (wk S)\<rparr>)"
| s_read: "\<not> crashed (wk S) \<Longrightarrow> pending sid Async_read (wk S) \<Longrightarrow>
     sys_step L cfg S (E_read now ec msg sid) (S\<lparr>wk := on_read L cfg now ec msg sid (wk S)\<rparr>)"
| s_write: "\<not> crashed (wk S) \<Longrightarrow> pending sid (Async_write m) (wk S) \<Longrightarrow>
     sys_step L cfg S (E_write ec m sid) (S\<lparr>wk := on_written ec m sid (wk S)\<rparr>)"
| s_close: "\<not> crashed (wk S) \<Longrightarrow> pending sid Async_close (wk S) \<Longrightarrow>
     sys_step L cfg S (E_close sid) (S\<lparr>wk := on_close sid (wk S)\<rparr>)"
| s_pong: "\<not> crashed (wk S) \<Longrightarrow> pending sid Async_read (wk S) \<Longrightarrow>
     sys_step L cfg S (E_pong sid) (S\<lparr>wk := upd_session sid on_pong (wk S)\<rparr>)"
| s_free: "\<not> crashed (wk S) \<Longrightarrow> heap (wk S) sid = Some s \<Longrightarrow> pending_ops s = [] \<Longrightarrow>
     sys_step L cfg S (E_free sid) (S\<lparr>wk := (wk S)\<lparr>heap := (heap (wk S))(sid := None)\<rparr>\<rparr>)"
| s_db: "\<not> crashed (wk S) \<Longrightarrow>
     sys_step L cfg S (E_db now d) (S\<lparr>wk := on_db_event L cfg now d (wk S)\<rparr>)"
| s_lrange: "\<not> crashed (wk S) \<Longrightarrow> replies S + lost S < length (lrange_keys (redis_out (wk S))) \<Longrightarrow>
     sys_step L cfg S (E_lrange msgs)
       (S\<lparr>wk := on_lrange cfg msgs (wk S), replies := replies S + 1\<rparr>)"
| s_lost: "\<not> crashed (wk S) \<Longrightarrow> replies S + lost S + k \<le> length (lrange_keys (redis_out (wk S))) \<Longrightarrow>
     sys_step L cfg S (E_lost k) (S\<lparr>lost := lost S + k\<rparr>)"
| s_signal: "\<not> crashed (wk S) \<Longrightarrow>
     sys_step L cfg S (E_signal ec) (S\<lparr>wk := on_signal ec (wk S)\<rparr>)"
| s_accept: "\<not> crashed (wk S) \<Longrightarrow> acc_pending (accept_mgr (wk S)) \<Longrightarrow>
     sys_step L cfg S (E_accept ec aborted)
       (S\<lparr>wk := (wk S)\<lparr>accept_mgr := snd (on_accept ec aborted (accept_mgr (wk S)))\<rparr>\<rparr>)"

inductive_cases sys_stepE: "sys_step L cfg S e S'"

definition init_sys :: sys where
  "init_sys = \<lparr> wk = init_worker, replies = 0, lost = 0, next_sid = 0 \<rparr>"

text \<open>What is lost stays as it is but for the loss of a connection.\<close>

lemma lost_step:
  "sys_step L cfg S e S' \<Longrightarrow> lost S' = (case e of E_lost k \<Rightarrow> lost S + k | _ \<Rightarrow> lost S)"
  by (cases rule: sys_step.cases)
    (auto simp: http_request_def make_session_def Let_def split: prod.splits http_action.splits)

text \<open>The states a node reaches, with the events so far.\<close>

inductive sys_run :: "'j extern \<Rightarrow> core \<Rightarrow> event list \<Rightarrow> sys \<Rightarrow> bool" for L cfg where
  start: "sys_run L cfg [] init_sys"
| step: "sys_run L cfg es S \<Longrightarrow> sys_step L cfg S e S' \<Longrightarrow> sys_run L cfg (es @ [e]) S'"

section \<open>The HTTP interface is quiet\<close>

lemma quiet_delete: "delete_post L cfg user key pid w = (r, v) \<Longrightarrow> quiet ok C w v"
  by (auto simp: delete_post_def Let_def split: option.splits if_splits intro!: quiet_intros)

lemma quiet_visualization: "on_visualization L cfg msg w = (r, v) \<Longrightarrow> quiet ok C w v"
  by (auto simp: on_visualization_def split: option.splits intro!: quiet_intros)

lemma quiet_user_id: "on_get_user_id L cfg w = (r, v) \<Longrightarrow> quiet ok C w v"
  by (auto simp: on_get_user_id_def Let_def split: prod.splits intro!: quiet_intros)

lemma upload_credit_ok:
  assumes "rng_laws L" "upload_credit L cfg w = (c, v)"
  shows "\<exists>x. c = Inr x"
proof -
  let ?f = "fst (pwd_make L (of_nat mms_filename_size) (gen w))"
  have "length ?f = mms_filename_size" by (simp add: pwd_make_eq sz_defs)
  moreover have "CHR 0x00 \<notin> set ?f"
    using set_pwd_make [OF assms(1)] by (auto simp: pwdchars_def)
  ultimately have "\<exists>d. make_dir ?f = Inr d" by (simp add: make_dir_eq)
  with assms(2) show ?thesis
    by (auto simp: upload_credit_def Let_def split: prod.splits)
qed

lemma credit_loop_ok: "rng_laws L \<Longrightarrow> \<exists>cs v. credit_loop L cfg n w = (Inr cs, v) \<and> length cs = n"
proof (induction n arbitrary: w)
  case (Suc n)
  obtain c u where cu: "upload_credit L cfg w = (c, u)" by fastforce
  from upload_credit_ok [OF Suc.prems cu] Suc.IH [OF Suc.prems, of u] cu show ?case
    by (auto simp: length_Suc_conv)
qed simp

lemma quiet_post_handler:
  assumes "ok \<longrightarrow> rng_laws L" "post_handler L cfg now ret0 t body w resp = (r, v)"
  shows "quiet ok C w v"
proof -
  have del: "quiet ok C w v" if "post_delete_handler L cfg body w x = (r, v)" for x r v
    using that quiet_delete [of L cfg _ _ _ w _ _ ok C]
    by (auto simp: post_delete_handler_def split: option.splits prod.splits intro: q_refl)
  have pub: "quiet ok C w v" if "post_publish_handler L cfg now body w x = (r, v)" for x r v
    using that quiet_publish_impl [of L cfg now _ w _ _ ok C]
    by (auto simp: post_publish_handler_def split: option.splits prod.splits intro: q_refl)
  have vis: "quiet ok C w v" if "post_visualization_handler L cfg body w x = (r, v)" for x r v
    using that quiet_visualization [of L cfg _ w _ _ ok C]
    by (auto simp: post_visualization_handler_def split: option.splits prod.splits)
  have uid: "quiet ok C w v" if "get_user_id_handler L cfg w x = (r, v)" for x r v
    using that quiet_user_id [of L cfg w _ _ ok C]
    by (auto simp: get_user_id_handler_def split: option.splits prod.splits)
  have upl: "quiet ok C w v" if run: "post_upload_credit_handler L cfg w x = (r, v)" for x r v
  proof -
    obtain c u where cu: "credit_loop L cfg mms_filename_size w = (c, u)" by fastforce
    have "quiet ok C w u" by (rule quiet_credit_loop [OF cu])
    moreover have "\<exists>cs. c = Inr cs" if ok
      using credit_loop_ok [of L cfg mms_filename_size w] assms(1) that cu by auto
    ultimately show ?thesis
      using run cu
      by (auto simp: post_upload_credit_handler_def get_upload_credit_def Let_def
          split: sum.splits dir_error.splits option.splits intro!: q_crash)
  qed
  show ?thesis
    using assms(2) del pub vis uid upl
    by (auto simp: post_handler_def Let_def split: prod.splits if_splits intro: q_refl)
qed

lemma quiet_http:
  assumes "ok \<longrightarrow> rng_laws L" "http_on_read L cfg now ret0 ec req w = (a, v)"
  shows "quiet ok C w v"
  using assms(2) quiet_post_handler [OF assms(1)]
  by (auto simp: http_on_read_def process_request_def Let_def
      split: read_result.splits if_splits prod.splits verb.splits intro: q_refl)

end
