(* ===== verification/System_Inv.thy ===== *)
theory System_Inv
  imports System
begin

text \<open>
  The invariant of a node, by rule induction over its steps: the table of logged in users and the
  live sessions agree, every session keeps its stream in order, the number of sessions is the
  number of those being read, and the queue of pending chat reads matches the commands sent.
\<close>

definition readers :: "worker \<Rightarrow> sid set" where
  "readers w = {s. \<exists>k a. ops w s = Some (Suc k, a)}"

definition sinv :: "core \<Rightarrow> sys \<Rightarrow> bool" where
  "sinv cfg S \<longleftrightarrow>
     winv cfg (replies S) (readers (wk S)) (wk S) \<and>
     number_of_sessions (wk S) = of_nat (card (readers (wk S))) \<and>
     (\<forall>s. next_sid S \<le> s \<longrightarrow> heap (wk S) s = None)"

lemma readers_cong: "ops v = ops w \<Longrightarrow> readers v = readers w"
  by (simp add: readers_def)

lemma readers_iff: "s \<in> readers w \<longleftrightarrow> (\<exists>x. heap w s = Some x \<and> 0 < n_ops Async_read x)"
  by (auto simp: readers_def ops_def gr0_conv_Suc)

lemma finite_readers: "sinv cfg S \<Longrightarrow> finite (readers (wk S))"
proof -
  assume "sinv cfg S"
  then have "readers (wk S) \<subseteq> {..<next_sid S}"
    by (auto simp: sinv_def readers_iff not_less [symmetric])
  then show ?thesis by (rule finite_subset) simp
qed

lemma heap_cong_ops: "(\<And>t. ops v t = ops w t) \<Longrightarrow> heap v s = None \<longleftrightarrow> heap w s = None"
  by (metis ops_def map_option_is_None)

lemma sinv_init: "sinv cfg init_sys"
  by (simp add: sinv_def init_sys_def init_worker_def winv_def heap_inv_def table_inv_def
      queue_inv_def readers_def ops_def)

lemma sinv_worker:
  assumes inv: "sinv cfg S" and o: "ops v = ops (wk S)"
    and n: "number_of_sessions v = number_of_sessions (wk S)"
    and w: "winv cfg (replies S) (readers (wk S)) v"
  shows "sinv cfg (S\<lparr>wk := v\<rparr>)"
  using inv w n heap_cong_ops [of v "wk S"] by (simp add: sinv_def readers_cong [OF o] o)

lemma sinv_quiet: "sinv cfg S \<Longrightarrow> quiet ok C (wk S) v \<Longrightarrow> sinv cfg (S\<lparr>wk := v\<rparr>)"
  by (rule sinv_worker) (auto simp: ops_quiet quiet_frame sinv_def intro: winv_quiet)

text \<open>An update of one session that keeps its user, its reads and its accept.\<close>

lemma winv_upd:
  assumes "winv cfg n R w" "\<And>x. heap w s = Some x \<Longrightarrow> pub_hash (f x) = pub_hash x"
    "\<And>x. heap w s = Some x \<Longrightarrow> sess_inv x \<Longrightarrow> sess_inv (f x)"
  shows "winv cfg n R (upd_session s f w)"
proof -
  have "map_option pub_hash (heap (upd_session s f w) t) = map_option pub_hash (heap w t)" for t
    using assms(2) by (cases "heap w s") (auto simp: heap_upd_session)
  then have "table_inv R (upd_session s f w) = table_inv R w"
    by (intro table_inv_cong) simp_all
  with assms(1,3) show ?thesis
    by (auto simp: winv_def heap_inv_def heap_upd_session queue_inv_def)
qed

lemma ops_upd:
  "ops (upd_session s f w) t =
     (if t = s then map_option (\<lambda>x. (n_ops Async_read (f x), n_ops Async_accept (f x))) (heap w s)
      else ops w t)"
  by (simp add: ops_def heap_upd_session option.map_comp comp_def)

lemma sinv_upd:
  assumes "sinv cfg S" "heap (wk S) s = Some x" "pub_hash (f x) = pub_hash x"
    "sess_inv x \<Longrightarrow> sess_inv (f x)" "n_ops Async_read (f x) = n_ops Async_read x"
    "n_ops Async_accept (f x) = n_ops Async_accept x"
  shows "sinv cfg (S\<lparr>wk := upd_session s f (wk S)\<rparr>)"
proof (rule sinv_worker [OF assms(1)])
  show "ops (upd_session s f (wk S)) = ops (wk S)"
    using assms by (auto simp: fun_eq_iff ops_upd) (simp add: ops_def)
  show "winv cfg (replies S) (readers (wk S)) (upd_session s f (wk S))"
    using assms by (intro winv_upd) (auto simp: sinv_def)
qed simp

lemma pendingD:
  assumes "pending s ope w"
  obtains x where "heap w s = Some x" "ope \<in> set (pending_ops x)" "0 < n_ops ope x"
  using assms by (auto simp: pending_def n_ops_pos split: option.splits)

section \<open>The steps of a stream\<close>

lemma sess_inv_close:
  "sess_inv x \<Longrightarrow> sess_inv (complete_op Async_close x)"
  by (auto simp: sess_inv_def)

lemma sess_inv_written:
  assumes "sess_inv x" "Async_write m \<in> set (pending_ops x)"
  shows "sess_inv (on_write ec (complete_op (Async_write m) x))"
proof -
  from in_writes [OF assms(2)] assms(1) have "writes x = [m]"
    by (cases "writes x") (auto simp: sess_inv_def)
  with assms(1) show ?thesis
    by (auto simp: sess_inv_def on_write_def do_write_def Let_def)
qed

lemma sinv_written:
  assumes "sinv cfg S" "pending s (Async_write m) (wk S)"
  shows "sinv cfg (S\<lparr>wk := on_written ec m s (wk S)\<rparr>)"
proof -
  from assms(2) obtain x where x: "heap (wk S) s = Some x" "Async_write m \<in> set (pending_ops x)"
    by (rule pendingD)
  show ?thesis
    unfolding on_written_def
    by (rule sinv_upd [OF assms(1) x(1)])
      (simp_all add: sess_inv_written [OF _ x(2)], simp_all add: on_write_def do_write_def Let_def)
qed

lemma sinv_closed:
  assumes "sinv cfg S" "pending s Async_close (wk S)"
  shows "sinv cfg (S\<lparr>wk := on_close s (wk S)\<rparr>)"
proof -
  from assms(2) obtain x where x: "heap (wk S) s = Some x" by (rule pendingD)
  show ?thesis
    unfolding on_close_def
    by (rule sinv_upd [OF assms(1) x]) (erule sess_inv_close | simp)+
qed

lemma sinv_free:
  assumes "sinv cfg S" "heap (wk S) s = Some x" "pending_ops x = []"
  shows "sinv cfg (S\<lparr>wk := (wk S)\<lparr>heap := (heap (wk S))(s := None)\<rparr>\<rparr>)"
proof -
  let ?w = "wk S" and ?v = "(wk S)\<lparr>heap := (heap (wk S))(s := None)\<rparr>"
  have nr: "s \<notin> readers ?w" using assms(2,3) by (simp add: readers_iff n_ops_def)
  have r: "readers ?v = readers ?w"
    using nr by (auto simp: readers_iff split: if_splits)
  have t: "table_inv (readers ?w) ?w" using assms(1) by (simp add: sinv_def winv_def)
  have keep: "map_option pub_hash (heap ?v u) = map_option pub_hash (heap ?w u)" if "u \<noteq> s" for u
    using that by simp
  have "table_inv (readers ?w) ?v"
    unfolding table_inv_def
  proof (intro conjI allI impI ballI)
    show "distinct (map fst (sessions ?v))" using t by (simp add: table_inv_def)
  next
    fix u r assume "map_of (sessions ?v) u = Some r"
    then obtain y where "r \<in> readers ?w" "u \<noteq> ''''" "heap ?w r = Some y" "pub_hash y = u"
      using table_invD [OF t, of u r] by auto
    with nr keep [of r] show "r \<in> readers ?w" "u \<noteq> ''''" "map_option pub_hash (heap ?v r) = Some u"
      by auto
  next
    fix r u assume "r \<in> readers ?w" "map_option pub_hash (heap ?v r) = Some u" "u \<noteq> ''''"
    with nr keep [of r] table_inv_logged_in [OF t, of r]
    show "map_of (sessions ?v) u = Some r" by (auto split: if_splits)
  qed
  moreover have "heap_inv ?v" "queue_inv cfg (replies S) ?v" "\<forall>u\<ge>next_sid S. heap ?v u = None"
    using assms(1) by (simp_all add: sinv_def winv_def heap_inv_def queue_inv_def)
  ultimately show ?thesis
    using assms(1) by (simp add: sinv_def winv_def r)
qed

lemma table_inv_entry:
  "table_inv R w \<Longrightarrow> t \<in> R \<Longrightarrow> map_option pub_hash (heap w t) = Some u \<Longrightarrow> u \<noteq> '''' \<Longrightarrow>
     map_of (sessions w) u = Some t"
  using table_inv_logged_in [of R w t] by auto

lemma table_inv_insert:
  assumes "table_inv R w" "map_option pub_hash (heap w s) = Some ''''"
  shows "table_inv (insert s R) w"
  unfolding table_inv_def
proof (intro conjI allI impI ballI)
  show "distinct (map fst (sessions w))" using assms(1) by (simp add: table_inv_def)
next
  fix u t assume "map_of (sessions w) u = Some t"
  with assms(1) obtain x where "t \<in> R" "u \<noteq> ''''" "heap w t = Some x" "pub_hash x = u"
    by (rule table_invD)
  then show "t \<in> insert s R" "u \<noteq> ''''" "map_option pub_hash (heap w t) = Some u"
    by simp_all
next
  fix t u
  assume u: "t \<in> insert s R" "map_option pub_hash (heap w t) = Some u" "u \<noteq> ''''"
  then have "t \<in> R" using assms(2) by (metis insertE option.inject)
  with u show "map_of (sessions w) u = Some t"
    using table_inv_entry [OF assms(1)] by blast
qed

lemma heap_inv_fun_upd:
  "heap_inv w \<Longrightarrow> sess_inv y \<Longrightarrow> heap v = (heap w)(s \<mapsto> y) \<Longrightarrow> heap_inv v"
  by (simp add: heap_inv_def)

lemma sinvD:
  assumes "sinv cfg S"
  shows "heap_inv (wk S)" "table_inv (readers (wk S)) (wk S)" "queue_inv cfg (replies S) (wk S)"
    "number_of_sessions (wk S) = of_nat (card (readers (wk S)))"
    "next_sid S \<le> s \<Longrightarrow> heap (wk S) s = None"
  using assms by (simp_all add: sinv_def winv_def)

lemma sinvI:
  "heap_inv (wk S) \<Longrightarrow> table_inv (readers (wk S)) (wk S) \<Longrightarrow> queue_inv cfg (replies S) (wk S) \<Longrightarrow>
     number_of_sessions (wk S) = of_nat (card (readers (wk S))) \<Longrightarrow>
     (\<And>s. next_sid S \<le> s \<Longrightarrow> heap (wk S) s = None) \<Longrightarrow> sinv cfg S"
  by (simp add: sinv_def winv_def)

lemma sinv_run:
  assumes inv: "sinv cfg S" and p: "pending s Async_accept (wk S)"
  shows "sinv cfg (S\<lparr>wk := on_run ec s (wk S)\<rparr>)"
    "s \<notin> readers (wk S)"
    "readers (on_run ec s (wk S)) = (if ec then readers (wk S) else insert s (readers (wk S)))"
proof -
  let ?w = "wk S" and ?v = "on_run ec s (wk S)"
  note D = sinvD [OF inv]
  from p obtain x where x: "heap ?w s = Some x" "0 < n_ops Async_accept x" by (rule pendingD)
  have sx: "sess_inv x" using D(1) x by (simp add: heap_inv_def)
  with x(2) have a: "n_ops Async_accept x = 1" "n_ops Async_read x = 0" "pub_hash x = ''''"
    by (simp_all add: sess_inv_def)
  define y where
    "y = (if ec then complete_op Async_accept x else do_read (complete_op Async_accept x))"
  have h: "heap ?v = (heap ?w)(s \<mapsto> y)"
    using x by (simp add: on_run_def Let_def heap_upd_session fun_eq_iff y_def)
  have y: "sess_inv y" "pub_hash y = ''''" "n_ops Async_read y = (if ec then 0 else 1)"
    using a sx by (auto simp: sess_inv_def do_read_def y_def)
  have nr: "s \<notin> readers ?w" using x a by (simp add: readers_iff)
  have r: "readers ?v = (if ec then readers ?w else insert s (readers ?w))"
    using nr y(3) unfolding readers_iff set_eq_iff h by (cases ec) (auto simp: readers_iff)
  have frame: "sessions ?v = sessions ?w" "chat_queue ?v = chat_queue ?w"
    "redis_out ?v = redis_out ?w"
    "number_of_sessions ?v = number_of_sessions ?w + (if ec then 0 else 1)"
    by (simp_all add: on_run_def Let_def)
  have keep: "map_option pub_hash (heap ?v t) = map_option pub_hash (heap ?w t)" for t
    using x a(3) y(2) by (simp add: h)
  have tw: "table_inv (readers ?w) ?v"
    using D(2) table_inv_cong [OF frame(1) keep] by simp
  have hs: "map_option pub_hash (heap ?v s) = Some ''''" using y(2) by (simp add: h)
  show "s \<notin> readers (wk S)" by (rule nr)
  show "readers (on_run ec s (wk S)) = (if ec then readers (wk S) else insert s (readers (wk S)))"
    by (rule r)
  show "sinv cfg (S\<lparr>wk := on_run ec s (wk S)\<rparr>)"
  proof (rule sinvI)
    show "heap_inv (wk (S\<lparr>wk := ?v\<rparr>))" using heap_inv_fun_upd [OF D(1) y(1) h] by simp
    show "table_inv (readers (wk (S\<lparr>wk := ?v\<rparr>))) (wk (S\<lparr>wk := ?v\<rparr>))"
      using tw table_inv_insert [OF tw hs] r by (cases ec) simp_all
    show "queue_inv cfg (replies (S\<lparr>wk := ?v\<rparr>)) (wk (S\<lparr>wk := ?v\<rparr>))"
      using D(3) by (simp add: queue_inv_def frame)
    show "number_of_sessions (wk (S\<lparr>wk := ?v\<rparr>)) = of_nat (card (readers (wk (S\<lparr>wk := ?v\<rparr>))))"
      using nr finite_readers [OF inv] by (simp add: r frame D(4))
    show "heap (wk (S\<lparr>wk := ?v\<rparr>)) t = None" if "next_sid (S\<lparr>wk := ?v\<rparr>) \<le> t" for t
      using D(5) [of t] that x(1) by (auto simp: h)
  qed
qed

section \<open>Reads\<close>

lemma reading:
  assumes "sinv cfg S" "pending s Async_read (wk S)"
  obtains x where "heap (wk S) s = Some x" "n_ops Async_read x = 1" "n_ops Async_accept x = 0"
    "sess_inv x" "s \<in> readers (wk S)"
proof -
  from assms(2) obtain x where x: "heap (wk S) s = Some x" "0 < n_ops Async_read x" by (rule pendingD)
  have "sess_inv x" using sinvD(1) [OF assms(1)] x by (simp add: heap_inv_def)
  with x that [of x] show thesis by (simp add: readers_iff sess_inv_def)
qed

lemma winv_complete_read: "winv cfg n R w \<Longrightarrow> winv cfg n R (upd_session s (complete_op Async_read) w)"
  by (rule winv_upd) (auto simp: sess_inv_def)

lemma sinv_read_error:
  assumes inv: "sinv cfg S" and p: "pending s Async_read (wk S)"
  shows "sinv cfg (S\<lparr>wk := on_read L cfg now True msg s (wk S)\<rparr>)"
    "readers (on_read L cfg now True msg s (wk S)) = readers (wk S) - {s}"
proof -
  let ?w = "wk S" and ?w1 = "upd_session s (complete_op Async_read) (wk S)"
  let ?v = "finish cfg s ?w1"
  from reading [OF inv p] obtain x where x: "heap ?w s = Some x" "n_ops Async_read x = 1"
    "n_ops Async_accept x = 0" "s \<in> readers ?w" by blast
  have h1: "heap ?w1 s = Some (complete_op Async_read x)" using x by (simp add: heap_upd_session)
  have "winv cfg (replies S) (readers ?w) ?w" using inv by (simp add: sinv_def)
  note w = winv_finish [OF winv_complete_read [OF this] x(4) h1]
  have o: "ops ?v t = ops ?w1 t" for t
    using finish_heap [of ?w1 t cfg s]
    by (auto simp: ops_def n_ops_def rel_option_iff split: option.splits)
  have r: "readers ?v = readers ?w - {s}"
    using x by (auto simp: readers_def o ops_upd)
  have n: "number_of_sessions ?v = of_nat (card (readers ?v))"
  proof -
    have "card (readers ?w) = Suc (card (readers ?v))"
      using x(4) finite_readers [OF inv] unfolding r by (metis card_Suc_Diff1)
    with sinvD(4) [OF inv] show ?thesis by (simp add: finish_sel h1)
  qed
  have "heap ?v t = None" if "next_sid S \<le> t" for t
    using sinvD(5) [OF inv that] o [of t] by (auto simp: ops_def heap_upd_session split: if_splits)
  with w n r show "sinv cfg (S\<lparr>wk := on_read L cfg now True msg s (wk S)\<rparr>)"
    "readers (on_read L cfg now True msg s (wk S)) = readers (wk S) - {s}"
    by (simp_all add: sinv_def on_read_def Let_def)
qed

lemma sinv_read_ok:
  assumes L: "json_laws L" and inv: "sinv cfg S" and p: "pending s Async_read (wk S)"
  shows "sinv cfg (S\<lparr>wk := on_read L cfg now False msg s (wk S)\<rparr>)"
    "crashed (on_read L cfg now False msg s (wk S)) = crashed (wk S)"
    "readers (on_read L cfg now False msg s (wk S)) = readers (wk S)"
proof -
  let ?w = "wk S" and ?w1 = "upd_session s (complete_op Async_read) (wk S)"
  from reading [OF inv p] obtain x where x: "heap ?w s = Some x" "n_ops Async_read x = 1"
    "n_ops Async_accept x = 0" "s \<in> readers ?w" by blast
  have h1: "heap ?w1 s = Some (complete_op Async_read x)" using x by (simp add: heap_upd_session)
  have w1: "winv cfg (replies S) (readers ?w) ?w1"
    using inv winv_complete_read by (simp add: sinv_def)
  have o1: "ops ?w1 t = (if t = s then Some (0, 0) else ops ?w t)" for t
    using x by (simp add: ops_upd)
  obtain r w2 where app: "on_app L cfg now s msg ?w1 = (r, w2)" by fastforce
  have "\<exists>R. table_inv R ?w1" using w1 by (auto simp: winv_def)
  from kept_on_app [OF L app h1 this, of True]
    kept_trans [OF _ kept_quiet [OF q_event [OF q_refl]], of cfg True s ?w1 w2 s r]
  have k: "kept cfg True s ?w1 (upd_session s (handle_ev r) w2)" by blast
  let ?w3 = "upd_session s (handle_ev r) w2"
  let ?v = "upd_session s do_read ?w3"
  from k o1 w1 x(4) have w3: "winv cfg (replies S) (readers ?w) ?w3" "ops ?w3 = ops ?w1"
    "number_of_sessions ?w3 = number_of_sessions ?w" "crashed ?w3 = crashed ?w"
    by (auto simp: kept_def)
  have o3: "ops ?w3 s = Some (0, 0)" using w3(2) o1 by simp
  have z: "n_ops Async_read z = 0" "n_ops Async_accept z = 0" if "heap ?w3 s = Some z" for z
    using o3 that by (simp_all add: ops_def)
  have wv: "winv cfg (replies S) (readers ?w) ?v"
    by (rule winv_upd [OF w3(1)]) (use z in \<open>auto simp: do_read_def sess_inv_def\<close>)
  have v: "on_read L cfg now False msg s ?w = ?v"
    by (simp add: on_read_def Let_def app)
  have ov: "ops ?v t = ops ?w t" for t
  proof (cases "t = s")
    case True
    obtain z where hz: "heap ?w3 s = Some z" using o3 by (auto simp: ops_def)
    from True z [OF hz] hz x show ?thesis by (simp add: ops_upd do_read_def) (simp add: ops_def)
  next
    case False
    with w3(2) o1 show ?thesis by (simp add: ops_upd)
  qed
  with ov show "sinv cfg (S\<lparr>wk := on_read L cfg now False msg s ?w\<rparr>)"
    unfolding v using w3(3) by (intro sinv_worker [OF inv]) (auto simp: wv)
  show "readers (on_read L cfg now False msg s (wk S)) = readers (wk S)"
    unfolding v using ov by (intro readers_cong) (simp add: fun_eq_iff)
  show "crashed (on_read L cfg now False msg s ?w) = crashed ?w"
    unfolding v using w3(4) by simp
qed

section \<open>Requests and redis\<close>

lemma sess_inv_new: "sess_inv (ws_run new_session)"
  by (simp add: sess_inv_def ws_run_def) (simp add: new_session_def writes_def n_ops_def)

lemma sinv_make_session:
  assumes "sinv cfg S"
  shows "sinv cfg (make_session S)" "readers (wk (make_session S)) = readers (wk S)"
proof -
  let ?x = "ws_run new_session" and ?v = "wk (make_session S)"
  note D = sinvD [OF assms]
  have h: "heap ?v = (heap (wk S))(next_sid S \<mapsto> ?x)" by (simp add: make_session_def Let_def)
  have n: "heap (wk S) (next_sid S) = None" by (rule D(5)) simp
  have y: "pub_hash ?x = ''''" "n_ops Async_read ?x = 0"
    by (simp_all add: ws_run_def) (simp_all add: new_session_def n_ops_def)
  have r: "readers ?v = readers (wk S)"
    using n y unfolding readers_iff set_eq_iff h by (auto simp: readers_iff)
  have frame: "sessions ?v = sessions (wk S)" "chat_queue ?v = chat_queue (wk S)"
    "redis_out ?v = redis_out (wk S)" "number_of_sessions ?v = number_of_sessions (wk S)"
    "replies (make_session S) = replies S" "next_sid (make_session S) = next_sid S + 1"
    by (simp_all add: make_session_def Let_def)
  have nr: "next_sid S \<notin> readers (wk S)" using n by (simp add: readers_iff)
  have t: "table_inv (readers (wk S)) ?v"
    unfolding table_inv_def
  proof (intro conjI allI impI ballI)
    show "distinct (map fst (sessions ?v))" using D(2) by (simp add: table_inv_def frame)
  next
    fix u t assume "map_of (sessions ?v) u = Some t"
    then obtain x where "t \<in> readers (wk S)" "u \<noteq> ''''" "heap (wk S) t = Some x" "pub_hash x = u"
      unfolding frame by (rule table_invD [OF D(2)])
    with nr show "t \<in> readers (wk S)" "u \<noteq> ''''" "map_option pub_hash (heap ?v t) = Some u"
      by (auto simp: h)
  next
    fix t u
    assume "t \<in> readers (wk S)" "map_option pub_hash (heap ?v t) = Some u" "u \<noteq> ''''"
    with nr table_inv_entry [OF D(2), of t u] show "map_of (sessions ?v) u = Some t"
      by (auto simp: h frame split: if_splits)
  qed
  show "readers ?v = readers (wk S)" by (rule r)
  show "sinv cfg (make_session S)"
    by (rule sinvI) (use D t in \<open>simp_all add: r frame heap_inv_fun_upd [OF D(1) sess_inv_new h]
        queue_inv_def h Suc_le_eq\<close>)
qed

lemma sinv_http:
  assumes "sinv cfg S"
  shows "sinv cfg (http_request L cfg now ret0 ec req S)"
proof -
  obtain a w where aw: "http_on_read L cfg now ret0 ec req (wk S) = (a, w)" by fastforce
  have "quiet False C (wk S) w" by (rule quiet_http [OF _ aw]) simp
  from sinv_quiet [OF assms this] sinv_make_session(1) [OF sinv_quiet [OF assms this]]
  show ?thesis by (auto simp: http_request_def aw split: http_action.splits)
qed

text \<open>A message on the presence channel of a user.\<close>

definition presence_event :: "core \<Rightarrow> string list \<Rightarrow> bool" where
  "presence_event cfg v \<longleftrightarrow> v ! 0 = ''message'' \<and>
     take (length (r_presence_channel_prefix (c_redis cfg))) (v ! 1) = r_presence_channel_prefix (c_redis cfg)"

lemma quiet_push:
  assumes "\<not> (length v = 3 \<and> v ! 0 = ''message'' \<and> v ! 2 = ''rpush'')"
    and "ok \<longrightarrow> length v = 3 \<and> (presence_event cfg v \<longrightarrow> v ! 2 \<noteq> '''') \<and>
      (\<forall>u s. map_of (sessions w) u = Some s \<longrightarrow> heap w s \<noteq> None)"
    and "db_cmds L cfg (Push v) \<subseteq> C"
  shows "quiet ok C w (on_push L cfg now v w)"
  using assms
  by (auto simp: on_push_def presence_event_def Let_def
      intro!: q_refl quiet_channel_post quiet_db_presence q_crash)

lemma push_rpush:
  assumes "length v = 3 \<and> v ! 0 = ''message'' \<and> v ! 2 = ''rpush''"
  shows "quiet False C w (on_push L cfg now v w) \<and>
      length (v ! 1) \<le> length (r_user_notify_prefix (c_redis cfg)) \<or>
    (\<exists>u. u \<noteq> '''' \<and> on_push L cfg now v w =
       (redis_send [R_lrange (r_chat_msg_prefix (c_redis cfg) @ u) 0 (-1),
                    R_del (r_chat_msg_prefix (c_redis cfg) @ u)] w)
         \<lparr>chat_queue := chat_queue w @ [r_chat_msg_prefix (c_redis cfg) @ u]\<rparr>)"
  using assms
  by (auto simp: on_push_def Let_def std_substr_def split: option.splits
      intro!: q_crash q_refl exI [of _ "drop (length (r_user_notify_prefix (c_redis cfg))) (v ! Suc 0)"])

lemma sinv_push:
  assumes inv: "sinv cfg S"
  shows "sinv cfg (S\<lparr>wk := on_push L cfg now v (wk S)\<rparr>)"
proof (cases "length v = 3 \<and> v ! 0 = ''message'' \<and> v ! 2 = ''rpush''")
  case False
  then show ?thesis using sinv_quiet [OF inv quiet_push [where ok = False and C = UNIV, of v]] by simp
next
  case True
  from push_rpush [OF this, of "{}" "wk S" L cfg now] show ?thesis
  proof (elim disjE conjE exE)
    assume "quiet False {} (wk S) (on_push L cfg now v (wk S))"
    then show ?thesis by (rule sinv_quiet [OF inv])
  next
    let ?v = "on_push L cfg now v (wk S)"
    fix u
    let ?k = "r_chat_msg_prefix (c_redis cfg) @ u"
    assume p: "?v = (redis_send [R_lrange ?k 0 (-1), R_del ?k] (wk S))
         \<lparr>chat_queue := chat_queue (wk S) @ [?k]\<rparr>"
    have frame: "heap ?v = heap (wk S)" "sessions ?v = sessions (wk S)"
      "number_of_sessions ?v = number_of_sessions (wk S)" by (simp_all add: p)
    have "queue_inv cfg (replies S) ?v"
      by (rule queue_inv_push [OF sinvD(3) [OF inv]]) (auto simp: p key_matches_def)
    with sinvD [OF inv] have "winv cfg (replies S) (readers (wk S)) ?v"
      using table_inv_cong [of ?v "wk S"] by (simp add: winv_def heap_inv_def frame)
    then show ?thesis
      by (intro sinv_worker [OF inv]) (simp_all add: frame ops_def fun_eq_iff)
  qed
qed

lemma sinv_hello: "sinv cfg S \<Longrightarrow> sinv cfg (S\<lparr>wk := on_hello cfg (wk S)\<rparr>)"
proof (rule sinv_worker)
  let ?v = "on_hello cfg (wk S)"
  assume "sinv cfg S"
  from sinvD [OF this] show "winv cfg (replies S) (readers (wk S)) ?v"
    using table_inv_cong [of ?v "wk S"] queue_inv_cong [of ?v "wk S"]
    by (simp add: winv_def heap_inv_def)
qed (simp_all add: ops_def fun_eq_iff)

lemma sinv_db: "sinv cfg S \<Longrightarrow> sinv cfg (S\<lparr>wk := on_db_event L cfg now d (wk S)\<rparr>)"
  by (cases d) (auto intro: sinv_hello sinv_push sinv_quiet [where ok = False and C = UNIV]
      quiet_hvals quiet_hgetall)

lemma sinv_lrange:
  assumes inv: "sinv cfg S" and n: "replies S < length (lrange_keys (redis_out (wk S)))"
  shows "chat_queue (wk S) \<noteq> []"
    "key_matches cfg (lrange_keys (redis_out (wk S)) ! replies S) (hd (chat_queue (wk S)))"
    "sinv cfg (S\<lparr>wk := on_lrange cfg msgs (wk S), replies := replies S + 1\<rparr>)"
proof -
  let ?w = "wk S" and ?ks = "lrange_keys (redis_out (wk S))"
  note D = sinvD [OF inv]
  have d: "drop (replies S) ?ks = ?ks ! replies S # drop (Suc (replies S)) ?ks"
    using n by (simp add: Cons_nth_drop_Suc)
  from D(3) obtain q qs where q: "chat_queue ?w = q # qs" "key_matches cfg (?ks ! replies S) q"
    "list_all2 (key_matches cfg) (drop (Suc (replies S)) ?ks) qs"
    unfolding queue_inv_def d by (auto simp: list_all2_Cons1)
  show "chat_queue ?w \<noteq> []" "key_matches cfg (?ks ! replies S) (hd (chat_queue ?w))"
    using q by simp_all
  let ?u = "on_db_chat_msg cfg q msgs ?w"
  have qu: "quiet False C ?w ?u" by (rule quiet_db_chat_msg) simp
  have v: "on_lrange cfg msgs ?w = ?u\<lparr>chat_queue := qs\<rparr>"
    using quiet_frame(2) [OF qu] by (simp add: on_lrange_def q)
  have iu: "sinv cfg (S\<lparr>wk := ?u\<rparr>)" by (rule sinv_quiet [OF inv qu])
  note U = sinvD [OF iu, simplified]
  have r: "readers (?u\<lparr>chat_queue := qs\<rparr>) = readers ?u" by (simp add: readers_def ops_def)
  have t: "table_inv R (?u\<lparr>chat_queue := qs\<rparr>) = table_inv R ?u" for R
    by (rule table_inv_cong) simp_all
  have k: "lrange_keys (redis_out ?u) = ?ks" by (rule quiet_frame(4) [OF qu])
  show "sinv cfg (S\<lparr>wk := on_lrange cfg msgs ?w, replies := replies S + 1\<rparr>)"
    unfolding v
    by (rule sinvI) (use U n q(3) in \<open>simp_all add: r t k heap_inv_def queue_inv_def\<close>)
qed

text \<open>The queue of pending reads belongs to the commands after those answered so far.\<close>

lemma sinv_queue:
  assumes "sinv cfg S" "replies S + k < length (lrange_keys (redis_out (wk S)))"
  shows "length (chat_queue (wk S)) = length (lrange_keys (redis_out (wk S))) - replies S
    \<and> key_matches cfg (lrange_keys (redis_out (wk S)) ! (replies S + k)) (chat_queue (wk S) ! k)"
proof -
  have "list_all2 (key_matches cfg) (drop (replies S) (lrange_keys (redis_out (wk S)))) (chat_queue (wk S))"
    using sinvD(3) [OF assms(1)] by (simp add: queue_inv_def)
  from list_all2_lengthD [OF this] list_all2_nthD [OF this, of k] assms(2) show ?thesis by simp
qed

lemma sinv_lost: "sinv cfg S \<Longrightarrow> sinv cfg (S\<lparr>lost := n\<rparr>)"
  by (simp add: sinv_def)

section \<open>Every step\<close>

lemma quiet_signal: "quiet ok C w (on_signal ec w)"
  by (simp add: on_signal_def q_refl quiet_shutdown_impl)

lemma sinv_step:
  assumes L: "json_laws L" and inv: "sinv cfg S" and step: "sys_step L cfg S e S'"
  shows "sinv cfg S'"
  using step
proof cases
  case (s_read sid now ec msg)
  then show ?thesis
    using sinv_read_error(1) [OF inv] sinv_read_ok(1) [OF L inv] by (cases ec) auto
next
  case (s_pong sid)
  then show ?thesis using sinv_quiet [where ok = True, OF inv q_pong [OF q_refl]] by simp
next
  case (s_signal ec)
  then show ?thesis using sinv_quiet [where ok = True, OF inv quiet_signal] by simp
next
  case (s_accept ec aborted)
  then show ?thesis using sinv_quiet [where ok = True, OF inv q_accept [OF q_refl]] by simp
next
  case (s_lrange msgs)
  then show ?thesis using sinv_lrange(3) [OF inv, of msgs] by simp
qed (use inv in \<open>auto intro: sinv_http sinv_run(1) sinv_written sinv_closed sinv_free sinv_db sinv_lost\<close>)

lemma sinv_sys_run:
  assumes "json_laws L" "sys_run L cfg es S"
  shows "sinv cfg S"
  using assms(2) by induction (auto intro: sinv_init sinv_step [OF assms(1)])

section \<open>The posts in memory\<close>

fun event_cmds :: "'j extern \<Rightarrow> core \<Rightarrow> event \<Rightarrow> store_cmd set" where
  "event_cmds L cfg (E_db now d) = db_cmds L cfg d"
| "event_cmds L cfg _ = {}"

lemma db_posts:
  "\<exists>cs. set cs \<subseteq> db_cmds L cfg d \<and> posts (on_db_event L cfg now d w) = fold channel_exec cs (posts w)"
proof (cases d)
  case Hello
  then show ?thesis by (intro exI [of _ "[]"]) simp
next
  case (Hvals msgs)
  have "quiet False (db_cmds L cfg d) w (on_hvals L cfg now msgs w)"
    by (rule quiet_hvals) (auto simp: Hvals)
  from quiet_posts [OF this] show ?thesis by (simp add: Hvals)
next
  case (Hgetall t l v)
  have "quiet False (db_cmds L cfg d) w (on_hgetall t l v w)"
    by (rule quiet_hgetall) (auto simp: Hgetall)
  from quiet_posts [OF this] show ?thesis by (simp add: Hgetall)
next
  case (Push v)
  show ?thesis
  proof (cases "length v = 3 \<and> v ! 0 = ''message'' \<and> v ! 2 = ''rpush''")
    case False
    have "quiet False (db_cmds L cfg d) w (on_push L cfg now v w)"
      by (rule quiet_push [OF False]) (simp_all add: Push)
    from quiet_posts [OF this] show ?thesis by (simp add: Push)
  next
    case True
    from push_rpush [OF this, of "{}" w L cfg now]
    have "posts (on_push L cfg now v w) = posts w" using quiet_posts_same by auto
    then show ?thesis by (intro exI [of _ "[]"]) (simp add: Push)
  qed
qed

lemma step_posts:
  assumes L: "json_laws L" and inv: "sinv cfg S" and step: "sys_step L cfg S e S'"
  shows "\<exists>cs. set cs \<subseteq> event_cmds L cfg e \<and> posts (wk S') = fold channel_exec cs (posts (wk S))"
proof -
  have same: ?thesis if "posts (wk S') = posts (wk S)"
    using that by (intro exI [of _ "[]"]) simp
  from step show ?thesis
  proof cases
    case (s_http now ret0 ec req)
    obtain a w where aw: "http_on_read L cfg now ret0 ec req (wk S) = (a, w)" by fastforce
    have "posts w = posts (wk S)" by (rule quiet_posts_same [OF quiet_http [OF _ aw], of False]) simp
    with s_http aw show ?thesis
      by (intro same) (auto simp: http_request_def make_session_def Let_def split: http_action.splits)
  next
    case (s_read t now ec msg)
    let ?w = "upd_session t (complete_op Async_read) (wk S)"
    from reading [OF inv s_read(4)] obtain x where x: "heap (wk S) t = Some x" "t \<in> readers (wk S)"
      by blast
    have h: "heap ?w t = Some (complete_op Async_read x)" using x by (simp add: heap_upd_session)
    obtain r v where app: "on_app L cfg now t msg ?w = (r, v)" by fastforce
    have "winv cfg (replies S) (readers (wk S)) ?w"
      using inv winv_complete_read by (simp add: sinv_def)
    then have "\<exists>R. table_inv R ?w" by (auto simp: winv_def)
    from kept_on_app [OF L app h this, of True] have "posts v = posts (wk S)"
      by (simp add: kept_def)
    with s_read app show ?thesis
      by (intro same) (cases ec, simp_all add: on_read_def Let_def finish_sel)
  next
    case (s_db now d)
    with db_posts [of L cfg d now "wk S"] show ?thesis by simp
  next
    case (s_lrange msgs)
    have "posts (on_db_chat_msg cfg q msgs (wk S)) = posts (wk S)" for q
      by (rule quiet_posts_same [OF quiet_db_chat_msg, of False]) simp
    with s_lrange show ?thesis
      by (intro same) (auto simp: on_lrange_def Let_def crash_def)
  next
    case (s_signal ec)
    with quiet_posts_same [OF quiet_signal] show ?thesis by (intro same) simp
  next
    case (s_run t ec)
    then show ?thesis by (intro same) (auto simp: on_run_def Let_def)
  qed (intro same, simp add: on_written_def on_close_def)+
qed

end
