(* ===== verification/Node.thy ===== *)
theory Node
  imports System_Inv
begin

text \<open>
  What holds of a node in every state it reaches: the table of logged in users is exact, what can end
  the process, where the entry of an answer of redis stands in the queue of pending reads, the
  statistics are right. The witnesses run a node on the reference library: one client connects and
  logs in.
\<close>

section \<open>Well-formed events\<close>

text \<open>
  What redis guarantees for the commands the worker sends: a notification has three parts, a key
  event names a key beyond the prefix subscribed to, HGETALL lists fields and values; and nobody
  publishes an empty text on a presence channel or stores one for a user. Nothing is required of the
  values of the visualisations or of the acceptor.
\<close>

fun wf_db :: "core \<Rightarrow> db_event \<Rightarrow> bool" where
  "wf_db cfg (Push v) \<longleftrightarrow>
     length v = 3 \<and> (presence_event cfg v \<longrightarrow> v ! 2 \<noteq> '''') \<and>
     (v ! 0 = ''message'' \<and> v ! 2 = ''rpush'' \<longrightarrow>
        length (r_user_notify_prefix (c_redis cfg)) < length (v ! 1))"
| "wf_db cfg (Hgetall run_throws l v) \<longleftrightarrow> even (length v)"
| "wf_db cfg _ \<longleftrightarrow> True"

text \<open>
  The only event that ends the process: the first visualisations after a start (or any later ones)
  hold a value that is no number or does not fit an \<open>int\<close>, or the acceptor, not open yet, cannot be
  opened or bound. Both throw inside \<open>on_hgetall\<close>, which is \<open>noexcept\<close>.
\<close>

fun fatal :: "worker \<Rightarrow> event \<Rightarrow> bool" where
  "fatal w (E_db now (Hgetall run_throws l v)) \<longleftrightarrow>
     visual_pairs v = None \<or> run_throws \<and> \<not> acc_open (accept_mgr w)"
| "fatal w _ \<longleftrightarrow> False"

fun wf_event :: "core \<Rightarrow> event \<Rightarrow> bool" where
  "wf_event cfg (E_db now d) \<longleftrightarrow> wf_db cfg d"
| "wf_event cfg (E_lrange msgs) \<longleftrightarrow> '''' \<notin> set msgs"
| "wf_event cfg _ \<longleftrightarrow> True"

lemma push_not_crashed:
  assumes "wf_db cfg (Push v)" "\<And>u s. map_of (sessions w) u = Some s \<Longrightarrow> heap w s \<noteq> None"
  shows "crashed (on_push L cfg now v w) = crashed w"
proof (cases "length v = 3 \<and> v ! 0 = ''message'' \<and> v ! 2 = ''rpush''")
  case False
  with assms have "quiet True UNIV w (on_push L cfg now v w)" by (intro quiet_push) auto
  then show ?thesis by (rule quiet_not_crashed)
next
  case True
  with assms(1) show ?thesis
    by (auto simp: on_push_def Let_def std_substr_def)
qed

lemma finish_upd_crashed: "crashed (on_read L cfg now True msg s w) = crashed w"
  by (simp add: on_read_def Let_def finish_sel)

lemma lrange_not_crashed:
  assumes "'''' \<notin> set msgs" "chat_queue w \<noteq> []"
    "\<And>u s. map_of (sessions w) u = Some s \<Longrightarrow> heap w s \<noteq> None"
  shows "crashed (on_lrange cfg msgs w) = crashed w"
proof -
  have "quiet True UNIV w (on_db_chat_msg cfg (hd (chat_queue w)) msgs w)"
    by (rule quiet_db_chat_msg) (use assms in auto)
  from quiet_not_crashed [OF this] assms(2) show ?thesis by (simp add: on_lrange_def Let_def)
qed

lemma hgetall_crashed:
  "even (length v) \<Longrightarrow> crashed (on_hgetall t l v w) \<longleftrightarrow>
     crashed w \<or> visual_pairs v = None \<or> t \<and> \<not> acc_open (accept_mgr w)"
  by (auto simp: on_hgetall_def acceptor_run_def Let_def crash_def even_iff_mod_2_eq_zero split: option.splits)

lemma crashed_step:
  assumes L: "json_laws L" "rng_laws L" and inv: "sinv cfg S" and wf: "wf_event cfg e"
    and step: "sys_step L cfg S e S'"
  shows "crashed (wk S') \<longleftrightarrow> fatal (wk S) e"
proof -
  have alive: "\<not> crashed (wk S)" using step by cases simp_all
  have live: "heap (wk S) s \<noteq> None" if "map_of (sessions (wk S)) u = Some s" for u s
    using table_inv_live [OF sinvD(2) [OF inv] that] .
  from step show ?thesis
  proof cases
    case (s_http now ret0 ec req)
    obtain a w where aw: "http_on_read L cfg now ret0 ec req (wk S) = (a, w)" by fastforce
    have "crashed w = crashed (wk S)"
      using quiet_not_crashed [OF quiet_http [OF _ aw]] L(2) by simp
    with s_http aw show ?thesis
      by (auto simp: http_request_def make_session_def Let_def split: http_action.splits)
  next
    case (s_read sid now ec msg)
    with sinv_read_ok(2) [OF L(1) inv] show ?thesis by (cases ec) (simp_all add: finish_upd_crashed)
  next
    case (s_db now d)
    show ?thesis
    proof (cases d)
      case (Push v)
      with s_db wf push_not_crashed [OF _ live] show ?thesis by simp
    next
      case (Hgetall t l v)
      with s_db wf hgetall_crashed [of v t l "wk S"] show ?thesis by simp
    qed (simp_all add: s_db quiet_not_crashed [OF quiet_hvals [where C = UNIV]])
  next
    case (s_lrange msgs)
    with wf lrange_not_crashed [OF _ sinv_lrange(1) [OF inv] live] show ?thesis by simp
  next
    case (s_signal ec)
    with quiet_not_crashed [OF quiet_signal] show ?thesis by simp
  qed (simp_all add: alive on_run_def on_written_def on_close_def Let_def)
qed

section \<open>A sample run\<close>

definition sample_req :: request where
  "sample_req = \<lparr> q_method = Verb_get, q_target = ''/'', q_body = '''', q_upgrade = True \<rparr>"

definition login_json :: "string \<Rightarrow> jval" where
  "login_json user = JObj [(''cmd'', JStr ''login''), (''user'', JStr user),
     (''key'', JStr (replicate 32 CHR ''k''))]"

definition sample_id :: "string \<Rightarrow> string" where
  "sample_id user = make_hex_digest ref_lib user (replicate 32 CHR ''k'')"

text \<open>A node after one client has connected; its session is 0.\<close>

definition sample_conn :: sys where
  "sample_conn = (let S = http_request ref_lib sample_core 0 0 Read_ok sample_req init_sys
     in S\<lparr>wk := on_run False 0 (wk S)\<rparr>)"

definition sample_as :: "string \<Rightarrow> sys" where
  "sample_as user =
     sample_conn\<lparr>wk := on_read ref_lib sample_core 0 False (enc (login_json user)) 0 (wk sample_conn)\<rparr>"

definition sample_login :: sys where
  "sample_login = sample_as ''ann''"

lemma sample_conn_run:
  "sys_run ref_lib sample_core [E_http 0 0 Read_ok sample_req, E_run False 0] sample_conn"
proof -
  let ?S = "http_request ref_lib sample_core 0 0 Read_ok sample_req init_sys"
  have "sys_run ref_lib sample_core ([] @ [E_http 0 0 Read_ok sample_req]) ?S"
    by (rule step [OF start s_http]) (simp add: init_sys_def init_worker_def)
  from step [OF this s_run, of 0 False] show ?thesis
    by (simp add: sample_conn_def Let_def http_request_def http_on_read_def sample_req_def
        init_sys_def init_worker_def make_session_def pending_def ws_run_def start_op_def)
qed

lemma sample_conn_eq:
  "sample_conn = \<lparr> wk = init_worker\<lparr>heap := [0 \<mapsto> new_session\<lparr>pending_ops := [Async_read]\<rparr>],
     number_of_sessions := 1\<rparr>, replies = 0, lost = 0, next_sid = 1 \<rparr>"
  by (simp add: sample_conn_def Let_def http_request_def http_on_read_def sample_req_def
      init_sys_def init_worker_def make_session_def on_run_def ws_run_def start_op_def do_read_def
      new_session_def complete_op_def upd_session_def fun_eq_iff)

lemma sample_as_run:
  "sys_run ref_lib sample_core [E_http 0 0 Read_ok sample_req, E_run False 0,
     E_read 0 False (enc (login_json user)) 0] (sample_as user)"
  using step [OF sample_conn_run s_read, of 0 0 False "enc (login_json user)"]
  by (simp add: sample_as_def) (simp add: sample_conn_eq init_worker_def pending_def)

lemma sample_login_run:
  "sys_run ref_lib sample_core [E_http 0 0 Read_ok sample_req, E_run False 0,
     E_read 0 False (enc (login_json ''ann'')) 0] sample_login"
  unfolding sample_login_def by (rule sample_as_run)

lemma sample_id_nonempty [simp]: "user \<noteq> '''' \<Longrightarrow> sample_id user \<noteq> ''''"
  unfolding sample_id_def by (subst make_hex_digest_empty) simp_all

lemma length_sample_id: "user \<noteq> '''' \<Longrightarrow> length (sample_id user) = 32"
  by (simp add: sample_id_def make_hex_digest_def ref_hash_def)

definition sample_ack :: string where
  "sample_ack = enc (login_ack ref_lib ''ok'')"

lemma sample_digest [simp]:
  "make_hex_digest ref_lib user (replicate 32 CHR ''k'') = sample_id user"
  by (simp add: sample_id_def)

lemma login_json_at [simp]:
  "at_str ref_lib (login_json user) ''cmd'' = Some ''login''"
  "at_str ref_lib (login_json user) ''user'' = Some user"
  "at_str ref_lib (login_json user) ''key'' = Some (replicate 32 CHR ''k'')"
  "ref_at (login_json user) ''token'' = None"
  by (simp_all add: at_str_def login_json_def)

lemma sample_login_app:
  assumes "user \<noteq> ''''" "heap w s = Some x" "pub_hash x = ''''"
  shows "on_app ref_lib cfg now s (enc (login_json user)) w =
    (Login_ok, send_msg s sample_ack False (subscribe_user cfg (sample_id user)
       (register_session (sample_id user) s (upd_session s (set_pub_hash (sample_id user)) w))))"
  using assms
  by (simp add: on_app_def logged_in_def is_logged_in_def on_app_login_def catch_unknown_def
      publish_token_def Let_def sample_ack_def)

lemma sample_ack_nonempty [simp]: "sample_ack \<noteq> ''''"
  by (simp add: sample_ack_def)

lemma sample_as_eq:
  "user \<noteq> '''' \<Longrightarrow> sample_as user = \<lparr> wk = init_worker\<lparr>
       heap := [0 \<mapsto> \<lparr> pong_counter = 0, msg_queue = [\<lparr>e_msg = sample_ack, e_persist = False\<rparr>],
                 closing = False, pub_hash = sample_id user,
                 pending_ops = [Async_write sample_ack, Async_read] \<rparr>],
       sessions := [(sample_id user, 0)], chat_queue := [sample_id user],
       redis_out :=
         [ R_subscribe (r_user_notify_prefix (c_redis sample_core) @ sample_id user),
           R_subscribe (r_presence_channel_prefix (c_redis sample_core) @ sample_id user),
           R_lrange (r_chat_msg_prefix (c_redis sample_core) @ sample_id user) 0 (-1),
           R_del (r_chat_msg_prefix (c_redis sample_core) @ sample_id user) ],
       number_of_sessions := 1\<rparr>, replies = 0, lost = 0, next_sid = 1 \<rparr>"
proof -
  assume user: "user \<noteq> ''''"
  let ?w = "upd_session 0 (complete_op Async_read) (wk sample_conn)"
  have "heap ?w 0 = Some new_session"
    by (simp add: sample_conn_eq upd_session_def complete_op_def new_session_def)
  note app = sample_login_app [OF user this, of sample_core 0]
  show ?thesis
    unfolding sample_as_def on_read_def
    by (simp add: app new_session_def Let_def)
      (simp add: sample_conn_eq init_worker_def new_session_def upd_session_def complete_op_def
        register_session_def set_pub_hash_def subscribe_user_def Let_def redis_send_def
        send_msg_def ws_send_def do_write_def start_op_def handle_ev_def do_read_def fun_eq_iff)
qed

lemma sample_login_eq:
  "sample_login = \<lparr> wk = init_worker\<lparr>
       heap := [0 \<mapsto> \<lparr> pong_counter = 0, msg_queue = [\<lparr>e_msg = sample_ack, e_persist = False\<rparr>],
                 closing = False, pub_hash = sample_id ''ann'',
                 pending_ops = [Async_write sample_ack, Async_read] \<rparr>],
       sessions := [(sample_id ''ann'', 0)], chat_queue := [sample_id ''ann''],
       redis_out :=
         [ R_subscribe (r_user_notify_prefix (c_redis sample_core) @ sample_id ''ann''),
           R_subscribe (r_presence_channel_prefix (c_redis sample_core) @ sample_id ''ann''),
           R_lrange (r_chat_msg_prefix (c_redis sample_core) @ sample_id ''ann'') 0 (-1),
           R_del (r_chat_msg_prefix (c_redis sample_core) @ sample_id ''ann'') ],
       number_of_sessions := 1\<rparr>, replies = 0, lost = 0, next_sid = 1 \<rparr>"
  unfolding sample_login_def by (rule sample_as_eq) simp

section \<open>Properties\<close>

text \<open>C1: at every moment the table of logged in users is exact: a user id is mapped to a session
  precisely when that session is alive, is still being read and carries that id. So the weak
  pointers of the table never dangle (the branch of the login that finds an expired session is
  unreachable), no user has two entries, and no session is listed for another user.\<close>

theorem session_table_exact:
  assumes "json_laws L" "sys_run L cfg es S"
  shows "map_of (sessions (wk S)) u = Some s \<longleftrightarrow>
    u \<noteq> '''' \<and> (\<exists>x. heap (wk S) s = Some x \<and> pub_hash x = u \<and> Async_read \<in> set (pending_ops x))"
proof -
  note D = sinvD(2) [OF sinv_sys_run [OF assms]]
  show ?thesis
    using table_invD [OF D, of u s] table_inv_logged_in [OF D, of s]
    by (auto simp: readers_iff n_ops_pos)
qed

theorem session_table_exact_witness:
  "\<exists>es S. sys_run ref_lib sample_core es S \<and> map_of (sessions (wk S)) (sample_id ''ann'') = Some 0"
proof -
  have "map_of (sessions (wk sample_login)) (sample_id ''ann'') = Some 0"
    by (subst session_table_exact [OF ref_json_laws sample_login_run]) (simp add: sample_login_eq)
  with sample_login_run show ?thesis by blast
qed

text \<open>C5: what ends the process is known exactly. As long as redis keeps its promises (notifications of
  three parts, fields with their values, no empty texts), no assertion of the worker or of a session
  fails and no exception leaves a \<open>noexcept\<close> function, whatever clients send on websockets or over
  HTTP and in whatever order the events are processed, with one exception, the handler of the
  visualisations: it ends the process exactly when a value does not fit an \<open>int\<close> or when the acceptor,
  not open yet, cannot be opened or bound (a port in use).\<close>

theorem node_crashes_iff:
  assumes "json_laws L" "rng_laws L" "sys_run L cfg es S" "wf_event cfg e" "sys_step L cfg S e S'"
  shows "crashed (wk S') \<longleftrightarrow>
    (\<exists>now run_throws l v. e = E_db now (Hgetall run_throws l v) \<and>
       (visual_pairs v = None \<or> run_throws \<and> \<not> acc_open (accept_mgr (wk S))))"
  using crashed_step [OF assms(1,2) sinv_sys_run [OF assms(1,3)] assms(4,5)]
  by (cases "(wk S, e)" rule: fatal.cases) auto

theorem node_crashes_iff_witness:
  "(\<exists>S'. sys_step ref_lib sample_core sample_login (E_read 0 False ''x'' 0) S' \<and> \<not> crashed (wk S'))
     \<and> (\<exists>S'. sys_step ref_lib sample_core sample_login (E_db 0 (Hgetall True False [])) S' \<and> crashed (wk S'))"
proof -
  have c: "\<not> crashed (wk sample_login)" "pending 0 Async_read (wk sample_login)"
    "\<not> acc_open (accept_mgr (wk sample_login))"
    by (simp_all add: sample_login_eq init_worker_def pending_def)
  note iff = node_crashes_iff [OF ref_json_laws ref_rng_laws sample_login_run]
  note read = s_read [OF c(1,2), of ref_lib sample_core 0 False "''x''"]
    and db = s_db [OF c(1), of ref_lib sample_core 0 "Hgetall True False []"]
  have "\<exists>S'. sys_step ref_lib sample_core sample_login (E_read 0 False ''x'' 0) S' \<and> \<not> crashed (wk S')"
    by (rule exI, rule conjI [OF read]) (subst iff [OF _ read], auto)
  moreover have "\<exists>S'. sys_step ref_lib sample_core sample_login (E_db 0 (Hgetall True False [])) S' \<and> crashed (wk S')"
    by (rule exI, rule conjI [OF db]) (subst iff [OF _ db], use c(3) in auto)
  ultimately show ?thesis by (rule conjI)
qed

text \<open>C16: when redis answers an LRANGE a user is waiting in the queue of pending chat reads (the
  assertion of \<open>on_lrange\<close> holds), and which entry belongs to the command being answered depends on
  what has been lost: the entry is the key that was read, or the user whose key that is, and it is
  behind as many entries as there are LRANGE commands that were never answered, because the
  connection to redis was lost. So it is the front, which \<open>on_lrange\<close> takes, as long as nothing is
  lost; after that the front belongs to an earlier command, and the messages of one user are taken
  for those of another.\<close>

theorem lrange_replies_match:
  assumes "json_laws L" "sys_run L cfg es S"
    "replies S + lost S < length (lrange_keys (redis_out (wk S)))"
  shows "lost S < length (chat_queue (wk S))
    \<and> key_matches cfg (lrange_keys (redis_out (wk S)) ! (replies S + lost S)) (chat_queue (wk S) ! lost S)
    \<and> key_matches cfg (lrange_keys (redis_out (wk S)) ! replies S) (hd (chat_queue (wk S)))"
proof -
  note inv = sinv_sys_run [OF assms(1,2)]
  from sinv_queue [OF inv assms(3)] sinv_queue [OF inv, of 0] assms(3) show ?thesis
    by (auto simp: hd_conv_nth simp flip: length_greater_0_conv)
qed

text \<open>
  A client logs in, the connection to redis is lost before the answer, and then a message is stored
  for another user: when the answer to the second read comes, the front is the first user.
\<close>

definition sample_lost :: sys where
  "sample_lost = sample_login\<lparr>lost := 1, wk := on_push ref_lib sample_core 0
     [''message'', r_user_notify_prefix (c_redis sample_core) @ ''x'', ''rpush''] (wk sample_login)\<rparr>"

lemma sample_lost_run: "\<exists>es. sys_run ref_lib sample_core es sample_lost"
proof -
  let ?T = "sample_login\<lparr>lost := 1\<rparr>" and ?v = "[''message'', r_user_notify_prefix (c_redis sample_core) @ ''x'', ''rpush'']"
  have c: "\<not> crashed (wk sample_login)" "lost sample_login = 0" "replies sample_login = 0"
    "length (lrange_keys (redis_out (wk sample_login))) = 1"
    by (simp_all add: sample_login_eq init_worker_def)
  from s_lost [OF c(1), of 1] c have s: "sys_step ref_lib sample_core sample_login (E_lost 1) ?T" by simp
  from s_db [of ?T ref_lib sample_core 0 "Push ?v"] c(1)
  have "sys_step ref_lib sample_core ?T (E_db 0 (Push ?v)) sample_lost" by (simp add: sample_lost_def)
  with sys_run.step [OF sys_run.step [OF sample_login_run s]] show ?thesis by blast
qed

lemma sample_lost_eq:
  "lost sample_lost = 1" "replies sample_lost = 0"
  "lrange_keys (redis_out (wk sample_lost)) =
     [r_chat_msg_prefix (c_redis sample_core) @ sample_id ''ann'', r_chat_msg_prefix (c_redis sample_core) @ ''x'']"
  by (simp_all add: sample_lost_def on_push_def std_substr_def Let_def redis_send_def)
    (simp_all add: sample_login_eq)

theorem lrange_replies_match_witness:
  "\<exists>es S. sys_run ref_lib sample_core es S
     \<and> lrange_keys (redis_out (wk S)) ! (replies S + lost S) = r_chat_msg_prefix (c_redis sample_core) @ ''x''
     \<and> key_matches sample_core (r_chat_msg_prefix (c_redis sample_core) @ sample_id ''ann'') (hd (chat_queue (wk S)))"
proof -
  obtain es where run: "sys_run ref_lib sample_core es sample_lost" using sample_lost_run by blast
  from lrange_replies_match [OF ref_json_laws run] have
    "key_matches sample_core (r_chat_msg_prefix (c_redis sample_core) @ sample_id ''ann'') (hd (chat_queue (wk sample_lost)))"
    by (simp add: sample_lost_eq)
  with run show ?thesis by (intro exI [of _ es] exI [of _ sample_lost]) (simp add: sample_lost_eq)
qed

text \<open>The number of sessions reported by the statistics is the number of websocket sessions that
  are being read: connecting counts one up, the end of a session counts one down, once each.\<close>

lemma session_count_exact:
  assumes "json_laws L" "sys_run L cfg es S"
  shows "number_of_sessions (wk S) = of_nat (card
    {s. \<exists>x. heap (wk S) s = Some x \<and> Async_read \<in> set (pending_ops x)})"
proof -
  have "readers (wk S) = {s. \<exists>x. heap (wk S) s = Some x \<and> Async_read \<in> set (pending_ops x)}"
    by (auto simp: readers_iff n_ops_pos)
  with sinvD(4) [OF sinv_sys_run [OF assms]] show ?thesis by simp
qed

text \<open>C20: every stream is used as the websocket library demands: at most one write, one read and one
  close are outstanding on a session, no read before the handshake is accepted, and a write only
  while there is a message to write.\<close>

theorem streams_disciplined:
  assumes "json_laws L" "sys_run L cfg es S" "heap (wk S) s = Some x"
  shows "length (writes x) \<le> 1 \<and> (writes x \<noteq> [] \<longrightarrow> msg_queue x \<noteq> [])
    \<and> count_list (pending_ops x) Async_close \<le> 1
    \<and> count_list (pending_ops x) Async_read + count_list (pending_ops x) Async_accept \<le> 1"
proof -
  have "sess_inv x"
    using sinvD(1) [OF sinv_sys_run [OF assms(1,2)]] assms(3) by (simp add: heap_inv_def)
  then show ?thesis by (auto simp: sess_inv_def n_ops_def split: if_splits)
qed

theorem streams_disciplined_witness:
  "\<exists>x. heap (wk sample_login) 0 = Some x \<and> writes x \<noteq> [] \<and> length (writes x) \<le> 1"
proof -
  obtain x where x: "heap (wk sample_login) 0 = Some x" "writes x \<noteq> []"
    by (simp add: sample_login_eq writes_def)
  from streams_disciplined [OF ref_json_laws sample_login_run x(1)] x show ?thesis by blast
qed

end
