(* ===== verification/Messages.thy ===== *)
theory Messages
  imports Node
begin

text \<open>
  What the messages of an app do: the login and the session it may replace, chat messages to users
  on this node and elsewhere, and what is rejected.
\<close>

section \<open>Reading one message\<close>

lemma upd_session_comp: "upd_session s f (upd_session s g w) = upd_session s (\<lambda>x. f (g x)) w"
  by (auto simp: upd_session_def split: option.splits)

lemma logged_in_upd [simp]:
  "(\<And>x. pub_hash (f x) = pub_hash x) \<Longrightarrow> logged_in (upd_session s f w) t = logged_in w t"
  by (auto simp: logged_in_def heap_upd_session is_logged_in_def split: option.splits)

definition accepted_cmds :: "bool \<Rightarrow> string set" where
  "accepted_cmds li = (if li then {''presence'', ''message'', ''publish''} else {''login''})"

lemma on_app_rejects:
  assumes "\<And>j c. jparse L msg = Some j \<Longrightarrow> at_str L j ''cmd'' = Some c \<Longrightarrow>
      c \<notin> accepted_cmds (logged_in w s)"
  shows "on_app L cfg now s msg w = (Unknown, w)"
proof (cases "do { j \<leftarrow> jparse L msg; cmd \<leftarrow> at_str L j ''cmd''; Some (j, cmd) }")
  case None
  then show ?thesis by (simp add: on_app_def)
next
  case (Some jc)
  then obtain j c where "jparse L msg = Some j" "at_str L j ''cmd'' = Some c" "jc = (j, c)"
    by (auto split: bind_splits)
  with assms [of j c] show ?thesis
    by (auto simp: on_app_def accepted_cmds_def split: if_splits)
qed

text \<open>C25: a message that is not JSON, has no command, or has a command its session may not use (a
  logged in session may send \<open>presence\<close>, \<open>message\<close> and \<open>publish\<close>, any other session only
  \<open>login\<close>) has no effect but closing the session that sent it, which is read once more.\<close>

theorem rejected_message:
  assumes "\<And>j c. jparse L msg = Some j \<Longrightarrow> at_str L j ''cmd'' = Some c \<Longrightarrow>
      c \<notin> accepted_cmds (logged_in w s)"
  shows "on_read L cfg now False msg s w =
    upd_session s (\<lambda>x. do_read (ws_shutdown (complete_op Async_read x))) w"
proof -
  let ?w = "upd_session s (complete_op Async_read) w"
  have "on_app L cfg now s msg ?w = (Unknown, ?w)"
    using assms by (intro on_app_rejects) simp
  then show ?thesis
    by (simp add: on_read_def Let_def handle_ev_def upd_session_comp)
qed

theorem rejected_message_witness:
  "\<exists>x. heap (on_read ref_lib sample_core 0 False (enc (login_json ''ann'')) 0 (wk sample_login)) 0
     = Some x \<and> closing x"
proof -
  have "logged_in (wk sample_login) 0"
    by (simp add: sample_login_eq logged_in_def is_logged_in_def)
  then have "on_read ref_lib sample_core 0 False (enc (login_json ''ann'')) 0 (wk sample_login) =
      upd_session 0 (\<lambda>x. do_read (ws_shutdown (complete_op Async_read x))) (wk sample_login)"
    by (intro rejected_message) (auto simp: accepted_cmds_def)
  then show ?thesis
    by (simp add: heap_upd_session sample_login_eq ws_defs)
qed

section \<open>The login\<close>

text \<open>
  What a login makes of the token: \<open>Some None\<close> when the message has none or an empty value, the token
  with the text published for the notifier, or \<open>None\<close> for a value that is not usable.
\<close>

definition login_token :: "'j extern \<Rightarrow> 'j \<Rightarrow> string \<Rightarrow> (string \<times> string) option option" where
  "login_token L j u =
     (case jat L j ''token'' of
        None \<Rightarrow> Some None
      | Some tj \<Rightarrow>
          if jempty L tj then Some None
          else map_option Some
            (do { token \<leftarrow> get_str L tj; text \<leftarrow> jdump L (token_msg L u token); Some (token, text) }))"

definition token_cmds :: "core \<Rightarrow> string \<Rightarrow> (string \<times> string) option \<Rightarrow> redis_cmd list" where
  "token_cmds cfg u tk =
     (case tk of
        None \<Rightarrow> []
      | Some (token, text) \<Rightarrow>
          [ R_publish (r_notify_channel (c_redis cfg)) text,
            R_hset (r_tokens_key (c_redis cfg)) [(u, token)] ])"

lemma publish_token_eq:
  "publish_token L cfg j u w =
     (case login_token L j u of
        None \<Rightarrow> (None, w) | Some tk \<Rightarrow> (Some (), redis_send (token_cmds cfg u tk) w))"
  by (auto simp: publish_token_def login_token_def token_cmds_def redis_send_def
      split: option.splits bind_splits)

lemma on_app_login_eq:
  assumes "json_laws L" "jparse L msg = Some j" "at_str L j ''cmd'' = Some ''login''"
    "at_str L j ''user'' = Some user" "at_str L j ''key'' = Some key"
    "make_hex_digest L user key = u" "u \<noteq> ''''"
    "jdump L (login_ack L ''ok'') = Some ack" "\<not> logged_in w s"
  shows "on_app L cfg now s msg w =
    (case login_token L j u of
       None \<Rightarrow> (Unknown, enter u s w)
     | Some tk \<Rightarrow> (Login_ok, send_msg s ack False
         (subscribe_user cfg u (redis_send (token_cmds cfg u tk) (enter u s w)))))"
  using assms
  by (simp add: on_app_def on_app_login_def publish_token_eq catch_unknown_def Let_def split: option.split)

lemma on_app_login_plain:
  assumes "json_laws L" "jparse L msg = Some j" "at_str L j ''cmd'' = Some ''login''"
    "at_str L j ''user'' = Some user" "at_str L j ''key'' = Some key"
    "make_hex_digest L user key = u" "u \<noteq> ''''" "jat L j ''token'' = None"
    "jdump L (login_ack L ''ok'') = Some ack" "\<not> logged_in w s"
  shows "on_app L cfg now s msg w =
    (Login_ok, send_msg s ack False (subscribe_user cfg u (enter u s w)))"
proof -
  have none: "redis_send [] v = v" for v by (simp add: redis_send_def)
  have "login_token L j u = Some None" using assms(8) by (simp add: login_token_def)
  with on_app_login_eq [OF assms(1-7,9,10), of cfg now] show ?thesis
    by (simp add: token_cmds_def none)
qed

lemma subscribe_sel [simp]:
  "sessions (subscribe_user cfg u w) = sessions w" "heap (subscribe_user cfg u w) = heap w"
  by (simp_all add: subscribe_user_def Let_def)

lemma send_sel: "sessions (redis_send cs w) = sessions w" "heap (redis_send cs w) = heap w"
  "chat_queue (redis_send cs w) = chat_queue w" "redis_out (redis_send cs w) = redis_out w @ cs"
  by (simp_all add: redis_send_def)

lemma login_result_token:
  assumes "json_laws L" "sys_run L cfg es S" "pending s Async_read (wk S)"
    "heap (wk S) s = Some x" "\<not> is_logged_in x"
    "jparse L msg = Some j" "at_str L j ''cmd'' = Some ''login''"
    "at_str L j ''user'' = Some user" "at_str L j ''key'' = Some key"
    "make_hex_digest L user key = u" "u \<noteq> ''''"
    "jdump L (login_ack L ''ok'') = Some ack"
    "v = on_read L cfg now False msg s (wk S)"
  shows "map_of (sessions v) = (map_of (sessions (wk S)))(u \<mapsto> s)
    \<and> (\<forall>t. map_of (sessions (wk S)) u = Some t \<longrightarrow>
          (\<exists>z. heap v t = Some z \<and> closing z \<and> \<not> is_logged_in z))
    \<and> (\<exists>y. heap v s = Some y \<and> pub_hash y = u \<and>
        (case login_token L j u of
           None \<Rightarrow> closing y \<and> queued y = queued x \<and> chat_queue v = chat_queue (wk S)
             \<and> redis_out v = redis_out (wk S)
         | Some tk \<Rightarrow> closing y = closing x \<and> queued y = queued x @ [(ack, False)]
             \<and> chat_queue v = chat_queue (wk S) @ [u]
             \<and> redis_out v = redis_out (wk S) @
               (case tk of
                  None \<Rightarrow> []
                | Some (token, text) \<Rightarrow>
                    [ R_publish (r_notify_channel (c_redis cfg)) text,
                      R_hset (r_tokens_key (c_redis cfg)) [(u, token)] ]) @
               [ R_subscribe (r_user_notify_prefix (c_redis cfg) @ u),
                 R_subscribe (r_presence_channel_prefix (c_redis cfg) @ u),
                 R_lrange (r_chat_msg_prefix (c_redis cfg) @ u) 0 (-1),
                 R_del (r_chat_msg_prefix (c_redis cfg) @ u) ]))"
proof -
  let ?w = "upd_session s (complete_op Async_read) (wk S)"
  let ?x = "complete_op Async_read x"
  note D = sinvD [OF sinv_sys_run [OF assms(1,2)]]
  have hx: "heap ?w s = Some ?x" using assms(4) by (simp add: heap_upd_session)
  have px: "pub_hash ?x = ''''" using assms(5) by (simp add: is_logged_in_def)
  have li: "\<not> logged_in ?w s" using hx px by (simp add: logged_in_def is_logged_in_def)
  have "winv cfg (replies S) (readers (wk S)) ?w"
    using winv_complete_read sinv_sys_run [OF assms(1,2)] by (simp add: sinv_def)
  then have t: "table_inv (readers (wk S)) ?w" by (simp add: winv_def)
  note app = on_app_login_eq [OF assms(1,6-12) li, of cfg now]
  have ack: "ack \<noteq> ''''" using assms(1,12) by auto
  have v: "v = (case login_token L j u of
      None \<Rightarrow> upd_session s (\<lambda>y. do_read (handle_ev Unknown y)) (enter u s ?w)
    | Some tk \<Rightarrow> upd_session s (\<lambda>y. do_read (handle_ev Login_ok (ws_send ack False y)))
        (subscribe_user cfg u (redis_send (token_cmds cfg u tk) (enter u s ?w))))"
    by (simp add: assms(13) on_read_def Let_def app send_msg_def ack upd_session_comp split: option.split)
  note eh = enter_heap [OF t hx px, of u]
  have sess: "map_of (sessions v) = (map_of (sessions (wk S)))(u \<mapsto> s)"
    by (simp add: v send_sel register_map_of split: option.split)
  have old: "\<exists>z. heap v r = Some z \<and> closing z \<and> \<not> is_logged_in z"
    if r: "map_of (sessions (wk S)) u = Some r" for r
  proof -
    obtain z where z: "heap (wk S) r = Some z" "pub_hash z = u"
      using table_invD [OF D(2) r] by blast
    with assms(4,11) px have rs: "r \<noteq> s" by auto
    have "replaced u ?w r" using r by (simp add: replaced_def)
    with rs z have "heap v r = Some (set_pub_hash '''' (ws_shutdown z))"
      by (simp add: v heap_upd_session eh send_sel split: option.split)
    then show ?thesis by (simp add: ws_defs)
  qed
  show ?thesis
  proof (cases "login_token L j u")
    case None
    then have "\<exists>y. heap v s = Some y \<and> pub_hash y = u \<and> closing y \<and> queued y = queued x"
      by (simp add: v heap_upd_session eh handle_ev_def) (simp add: ws_defs)
    with None sess old show ?thesis by (simp add: v)
  next
    case (Some tk)
    then have "\<exists>y. heap v s = Some y \<and> pub_hash y = u \<and> closing y = closing x \<and>
        queued y = queued x @ [(ack, False)]"
      by (simp add: v heap_upd_session eh send_sel handle_ev_def ws_defs Let_def)
    moreover have "chat_queue v = chat_queue (wk S) @ [u]" "redis_out v = redis_out (wk S) @
        token_cmds cfg u tk @
        [ R_subscribe (r_user_notify_prefix (c_redis cfg) @ u),
          R_subscribe (r_presence_channel_prefix (c_redis cfg) @ u),
          R_lrange (r_chat_msg_prefix (c_redis cfg) @ u) 0 (-1),
          R_del (r_chat_msg_prefix (c_redis cfg) @ u) ]"
      using Some by (simp_all add: v) (simp_all add: subscribe_user_def send_sel Let_def)
    ultimately show ?thesis using Some sess old by (simp add: token_cmds_def)
  qed
qed

text \<open>The case without a token.\<close>

lemma login_result:
  assumes "json_laws L" "sys_run L cfg es S" "pending s Async_read (wk S)"
    "heap (wk S) s = Some x" "\<not> is_logged_in x"
    "jparse L msg = Some j" "at_str L j ''cmd'' = Some ''login''"
    "at_str L j ''user'' = Some user" "at_str L j ''key'' = Some key"
    "make_hex_digest L user key = u" "u \<noteq> ''''" "jat L j ''token'' = None"
    "jdump L (login_ack L ''ok'') = Some ack"
    "v = on_read L cfg now False msg s (wk S)"
  shows "map_of (sessions v) = (map_of (sessions (wk S)))(u \<mapsto> s)
    \<and> (\<exists>y. heap v s = Some y \<and> pub_hash y = u \<and> queued y = queued x @ [(ack, False)])
    \<and> (\<forall>t. map_of (sessions (wk S)) u = Some t \<longrightarrow>
          (\<exists>z. heap v t = Some z \<and> closing z \<and> \<not> is_logged_in z))
    \<and> chat_queue v = chat_queue (wk S) @ [u]
    \<and> redis_out v = redis_out (wk S) @
        [ R_subscribe (r_user_notify_prefix (c_redis cfg) @ u),
          R_subscribe (r_presence_channel_prefix (c_redis cfg) @ u),
          R_lrange (r_chat_msg_prefix (c_redis cfg) @ u) 0 (-1),
          R_del (r_chat_msg_prefix (c_redis cfg) @ u) ]"
proof -
  have "login_token L j u = Some None" using assms(12) by (simp add: login_token_def)
  with login_result_token [OF assms(1-11,13,14)] show ?thesis by auto
qed

text \<open>C7: a login with a valid name and key makes the session the one of that user and of nobody
  else: it is entered in the table under the digest, and the session that held the entry before (if
  any) forgets the user and is closed. If the message has no token or an empty one, or a text as its
  token, redis is asked for the notifications and the stored messages of the user, the user is
  queued for the answer and the client gets a positive acknowledgement; a token is published for the
  notifier and stored before that. A token that is not a text (or no valid UTF-8) is refused after
  the entry has been made: the session is closed as unknown, nothing is sent to redis, and there is
  no acknowledgement.\<close>

theorem login_effect:
  assumes "json_laws L" "sys_run L cfg es S" "pending s Async_read (wk S)"
    "heap (wk S) s = Some x" "\<not> is_logged_in x"
    "jparse L msg = Some j" "at_str L j ''cmd'' = Some ''login''"
    "at_str L j ''user'' = Some user" "at_str L j ''key'' = Some key"
    "make_hex_digest L user key = u" "u \<noteq> ''''"
    "jdump L (login_ack L ''ok'') = Some ack"
    "v = on_read L cfg now False msg s (wk S)"
  shows "map_of (sessions v) = (map_of (sessions (wk S)))(u \<mapsto> s)
    \<and> (\<forall>t. map_of (sessions (wk S)) u = Some t \<longrightarrow>
          (\<exists>z. heap v t = Some z \<and> closing z \<and> \<not> is_logged_in z))
    \<and> (\<exists>y. heap v s = Some y \<and> pub_hash y = u \<and>
        (case login_token L j u of
           None \<Rightarrow> closing y \<and> queued y = queued x \<and> chat_queue v = chat_queue (wk S)
             \<and> redis_out v = redis_out (wk S)
         | Some tk \<Rightarrow> closing y = closing x \<and> queued y = queued x @ [(ack, False)]
             \<and> chat_queue v = chat_queue (wk S) @ [u]
             \<and> redis_out v = redis_out (wk S) @
               (case tk of
                  None \<Rightarrow> []
                | Some (token, text) \<Rightarrow>
                    [ R_publish (r_notify_channel (c_redis cfg)) text,
                      R_hset (r_tokens_key (c_redis cfg)) [(u, token)] ]) @
               [ R_subscribe (r_user_notify_prefix (c_redis cfg) @ u),
                 R_subscribe (r_presence_channel_prefix (c_redis cfg) @ u),
                 R_lrange (r_chat_msg_prefix (c_redis cfg) @ u) 0 (-1),
                 R_del (r_chat_msg_prefix (c_redis cfg) @ u) ]))"
  by (rule login_result_token [OF assms])

theorem login_effect_witness:
  "map_of (sessions (on_read ref_lib sample_core 0 False (enc (login_json ''ann'')) 0 (wk sample_conn)))
     (sample_id ''ann'') = Some 0"
proof -
  let ?x = "new_session\<lparr>pending_ops := [Async_read]\<rparr>"
  have x: "pending 0 Async_read (wk sample_conn)" "heap (wk sample_conn) 0 = Some ?x"
    "\<not> is_logged_in ?x"
    by (simp_all add: sample_conn_eq pending_def is_logged_in_def new_session_def)
  show ?thesis
    using login_effect [OF ref_json_laws sample_conn_run x, of "enc (login_json ''ann'')"
        "login_json ''ann''" "''ann''" "replicate 32 CHR ''k''" "sample_id ''ann''" sample_ack _ 0]
    by (simp add: sample_ack_def)
qed

section \<open>Who may take an entry of the table\<close>

definition credentials :: "'j extern \<Rightarrow> string \<Rightarrow> string \<Rightarrow> bool" where
  "credentials L msg u \<longleftrightarrow>
     (\<exists>j user key. jparse L msg = Some j \<and> at_str L j ''cmd'' = Some ''login'' \<and>
        at_str L j ''user'' = Some user \<and> at_str L j ''key'' = Some key \<and>
        make_hex_digest L user key = u \<and> u \<noteq> '''')"

lemma login_sessions:
  assumes "on_app_login L cfg j s w = (r, v)"
  shows "sessions v = sessions w \<or>
    (\<exists>user key. at_str L j ''user'' = Some user \<and> at_str L j ''key'' = Some key \<and>
       make_hex_digest L user key \<noteq> '''' \<and>
       map_of (sessions v) = (map_of (sessions w))(make_hex_digest L user key \<mapsto> s))"
proof -
  have tok: "sessions v' = sessions w'" if "publish_token L cfg j u w' = (r', v')" for u w' r' v'
    using quiet_frame(1) [OF quiet_token [OF that, of True UNIV]] .
  from assms show ?thesis
    by (auto simp: on_app_login_def Let_def register_map_of
        split: option.splits bind_splits if_splits prod.splits dest!: tok)
qed

lemma on_app_sessions:
  assumes L: "json_laws L" and run: "on_app L cfg now s msg w = (r, v)"
  shows "sessions v = sessions w \<or>
    (\<exists>u. credentials L msg u \<and> \<not> logged_in w s \<and> map_of (sessions v) = (map_of (sessions w))(u \<mapsto> s))"
proof (cases "do { j \<leftarrow> jparse L msg; cmd \<leftarrow> at_str L j ''cmd''; Some (j, cmd) }")
  case None
  with run show ?thesis by (simp add: on_app_def)
next
  case (Some jc)
  then obtain j c where j: "jparse L msg = Some j" "at_str L j ''cmd'' = Some c" "jc = (j, c)"
    by (auto split: bind_splits)
  have pr: "sessions v' = sessions w" if "catch_unknown (on_app_presence L cfg j s w) = (r', v')" for r' v'
    using catch_unknown_snd [OF that] quiet_presence [OF L, where ok = True and C = UNIV] quiet_frame(1) by blast
  have ms: "sessions v' = sessions w" if "catch_unknown (on_app_chat_msg L cfg j s w) = (r', v')" for r' v'
    using catch_unknown_snd [OF that] quiet_chat_msg [OF L, where ok = True and C = UNIV] quiet_frame(1) by blast
  have pu: "sessions v' = sessions w" if "catch_unknown (on_app_publish L cfg now j s w) = (r', v')" for r' v'
    using catch_unknown_snd [OF that] quiet_publish [OF L, where ok = True and C = UNIV] quiet_frame(1) by blast
  have lo: "sessions v' = sessions w \<or>
      (\<exists>u. credentials L msg u \<and> map_of (sessions v') = (map_of (sessions w))(u \<mapsto> s))"
    if "c = ''login''" "catch_unknown (on_app_login L cfg j s w) = (r', v')" for r' v'
    using catch_unknown_snd [OF that(2)] login_sessions [of L cfg j s w] j that(1)
    unfolding credentials_def by blast
  from run j show ?thesis
    unfolding on_app_def by (auto split: if_splits dest: pr ms pu lo)
qed

text \<open>What one step does to the table.\<close>

lemma step_sessions:
  assumes L: "json_laws L" and inv: "sinv cfg S" and step: "sys_step L cfg S e S'"
  shows "sessions (wk S') = sessions (wk S) \<or>
    (\<exists>now msg t x. e = E_read now True msg t \<and> heap (wk S) t = Some x \<and> t \<in> readers (wk S) \<and>
       pub_hash x \<noteq> '''' \<and> map_of (sessions (wk S')) = (map_of (sessions (wk S)))(pub_hash x := None)) \<or>
    (\<exists>now msg t u. e = E_read now False msg t \<and> credentials L msg u \<and>
       t \<notin> ran (map_of (sessions (wk S))) \<and>
       map_of (sessions (wk S')) = (map_of (sessions (wk S)))(u \<mapsto> t))"
proof -
  have qf: "sessions v = sessions (wk S)" if "quiet False UNIV (wk S) v" for v
    using quiet_frame(1) [OF that] .
  from step show ?thesis
  proof cases
    case (s_http now ret0 ec req)
    obtain a w where aw: "http_on_read L cfg now ret0 ec req (wk S) = (a, w)" by fastforce
    have "sessions w = sessions (wk S)" by (rule qf [OF quiet_http [OF _ aw]]) simp
    with s_http aw show ?thesis
      by (auto simp: http_request_def make_session_def Let_def split: http_action.splits)
  next
    case (s_read t now ec msg)
    let ?w = "upd_session t (complete_op Async_read) (wk S)"
    from reading [OF inv s_read(4)] obtain x where x: "heap (wk S) t = Some x" "t \<in> readers (wk S)"
      by blast
    show ?thesis
    proof (cases ec)
      case True
      have "sessions (wk S') = (if pub_hash x = '''' then sessions (wk S)
          else AList.delete (pub_hash x) (sessions (wk S)))"
        using s_read True x by (simp add: on_read_def Let_def finish_sessions heap_upd_session)
      with s_read True x show ?thesis by (auto simp: delete_conv)
    next
      case False
      obtain r v where app: "on_app L cfg now t msg ?w = (r, v)" by fastforce
      then have "sessions (wk S') = sessions v"
        using s_read False by (simp add: on_read_def Let_def)
      moreover have "t \<notin> ran (map_of (sessions (wk S)))" if nl: "\<not> logged_in ?w t"
      proof
        assume "t \<in> ran (map_of (sessions (wk S)))"
        then obtain u where "map_of (sessions (wk S)) u = Some t" by (auto simp: ran_def)
        from table_invD [OF sinvD(2) [OF inv] this] obtain y where
          "heap (wk S) t = Some y" "pub_hash y = u" "u \<noteq> ''''" by blast
        with nl show False by (simp add: logged_in_def heap_upd_session is_logged_in_def)
      qed
      moreover from on_app_sessions [OF L app] consider "sessions v = sessions (wk S)"
        | u where "credentials L msg u" "\<not> logged_in ?w t"
            "map_of (sessions v) = (map_of (sessions (wk S)))(u \<mapsto> t)" by auto
      ultimately show ?thesis using s_read(1) False by cases auto
    qed
  next
    case (s_db now d)
    have "sessions (on_db_event L cfg now d (wk S)) = sessions (wk S)"
    proof (cases d)
      case (Push v)
      show ?thesis
      proof (cases "length v = 3 \<and> v ! 0 = ''message'' \<and> v ! 2 = ''rpush''")
        case True
        from push_rpush [OF this, of UNIV "wk S" L cfg now] show ?thesis
          by (auto simp: Push qf)
      qed (simp add: Push qf quiet_push)
    qed (simp_all add: qf quiet_hvals quiet_hgetall)
    with s_db show ?thesis by simp
  next
    case (s_lrange msgs)
    have "sessions (on_db_chat_msg cfg q msgs (wk S)) = sessions (wk S)" for q
      by (rule qf [OF quiet_db_chat_msg]) simp
    with s_lrange show ?thesis
      by (auto simp: on_lrange_def Let_def crash_def split: if_splits)
  next
    case (s_signal ec)
    with qf [OF quiet_signal] show ?thesis by simp
  next
    case (s_run t ec)
    then show ?thesis by (auto simp: on_run_def Let_def split: if_splits)
  qed (simp_all add: on_written_def on_close_def)
qed

text \<open>C6: the entry of a user in the table is stable: no step of a node removes or redirects it, except
  the end of the very session it points to, or a message on another session that presents the name
  and the key whose digest is that user id. In particular the end of a session that was replaced by
  a new login does not remove the new entry.\<close>

theorem entry_stable:
  assumes L: "json_laws L" and run: "sys_run L cfg es S" and step: "sys_step L cfg S e S'"
    and u: "map_of (sessions (wk S)) u = Some s" "map_of (sessions (wk S')) u \<noteq> Some s"
  shows "(\<exists>now msg. e = E_read now True msg s) \<or>
    (\<exists>now msg t. e = E_read now False msg t \<and> t \<noteq> s \<and> credentials L msg u \<and>
       map_of (sessions (wk S')) u = Some t)"
proof -
  note inv = sinv_sys_run [OF L run]
  note own = table_inv_logged_in [OF sinvD(2) [OF inv]]
  from step_sessions [OF L inv step] u show ?thesis
    by (auto split: if_splits dest: own)
qed

text \<open>The user ids in the table are digests: they contain no colon.\<close>

lemma table_no_colon:
  assumes L: "json_laws L" and run: "sys_run L cfg es S"
  shows "map_of (sessions (wk S)) u \<noteq> None \<Longrightarrow> CHR '':'' \<notin> set u"
  using run
proof (induction arbitrary: u rule: sys_run.induct)
  case start
  then show ?case by (simp add: init_sys_def init_worker_def)
next
  case (step es S e S')
  have cred: "CHR '':'' \<notin> set v" if "credentials L msg v" for msg v
    using that digest_no_colon by (auto simp: credentials_def)
  from step_sessions [OF L sinv_sys_run [OF L step.hyps(1)] step.hyps(2)] step.prems step.IH
  show ?case
    by (elim disjE exE conjE) (auto split: if_splits dest: cred)
qed

theorem entry_stable_witness:
  "\<exists>e S'. sys_step ref_lib sample_core sample_login e S' \<and>
     map_of (sessions (wk S')) (sample_id ''ann'') = None \<and> (\<exists>now msg. e = E_read now True msg 0)"
proof -
  let ?e = "E_read 0 True [] 0" and ?w = "on_read ref_lib sample_core 0 True [] 0 (wk sample_login)"
  have step: "sys_step ref_lib sample_core sample_login ?e (sample_login\<lparr>wk := ?w\<rparr>)"
    by (rule s_read) (simp_all add: sample_login_eq init_worker_def pending_def)
  have gone: "map_of (sessions ?w) (sample_id ''ann'') = None"
    by (simp add: on_read_def Let_def finish_sessions heap_upd_session sample_login_eq
        complete_op_def delete_conv)
  have "map_of (sessions (wk sample_login)) (sample_id ''ann'') = Some 0"
    by (simp add: sample_login_eq)
  from entry_stable [OF ref_json_laws sample_login_run step this] gone
  have "\<exists>now msg. ?e = E_read now True msg 0" by simp
  then show ?thesis using step gone by (intro exI [of _ ?e] exI [of _ "sample_login\<lparr>wk := ?w\<rparr>"]) simp
qed

section \<open>Chat messages\<close>

text \<open>The user a message is for, and the text that is forwarded for the message \<open>j\<close> of \<open>user\<close>.\<close>

definition addressee :: "core \<Rightarrow> string \<Rightarrow> string" where
  "addressee cfg to = (if to = chat_admin_id_key then c_chat_admin_id cfg else to)"

definition forwarded :: "'j extern \<Rightarrow> core \<Rightarrow> string \<Rightarrow> string \<Rightarrow> 'j \<Rightarrow> 'j" where
  "forwarded L cfg user to j =
     (let j = jset L j ''from'' (of_str L user)
      in if to = chat_admin_id_key then jset L j ''to'' (of_str L (c_chat_admin_id cfg)) else j)"

lemma get_chat_to_field_eq:
  assumes "json_laws L" "at_str L j ''to'' = Some to"
  shows "get_chat_to_field L cfg (jset L j ''from'' (of_str L user)) =
    Some (to, forwarded L cfg user to j, addressee cfg to)"
  using assms at_str_SomeD [OF assms(2)]
  by (simp add: get_chat_to_field_def forwarded_def addressee_def Let_def json_simps)

lemma forwarded_members:
  assumes "json_laws L" "at_str L j ''to'' = Some to"
  shows "at_str L (forwarded L cfg user to j) ''from'' = Some user"
    "at_str L (forwarded L cfg user to j) ''to'' = Some (addressee cfg to)"
    "k \<notin> {''from'', ''to''} \<Longrightarrow> jat L (forwarded L cfg user to j) k = jat L j k"
  using assms at_str_SomeD [OF assms(2)]
  by (simp_all add: forwarded_def addressee_def Let_def json_simps)

text \<open>The acknowledgement needs two more members of the message.\<close>

definition ack_of :: "'j extern \<Rightarrow> string \<Rightarrow> string \<Rightarrow> 'j \<Rightarrow> string option" where
  "ack_of L to user j =
     do { post_id \<leftarrow> at_str L j ''post_id''; mid \<leftarrow> Option.bind (jat L j ''id'') (get_int32 L);
          jdump L (chat_ack L to user post_id mid) }"

definition acknowledge :: "sid \<Rightarrow> string option \<Rightarrow> worker \<Rightarrow> ev_res \<times> worker" where
  "acknowledge s ack w =
     (case ack of None \<Rightarrow> (Unknown, w) | Some m \<Rightarrow> (Chat_msg_ok, send_msg s m False w))"

lemma chat_msg_eq:
  assumes "json_laws L" "jparse L msg = Some j" "at_str L j ''cmd'' = Some ''message''"
    "at_str L j ''to'' = Some to" "heap w s = Some x" "is_logged_in x"
    "forward_chat_msg L cfg (forwarded L cfg (pub_hash x) to j) (addressee cfg to) w = (Some (), v)"
    "session_hash v s = pub_hash x"
  shows "on_app L cfg now s msg w = acknowledge s (ack_of L to (pub_hash x) j) v"
proof -
  have user: "session_hash w s = pub_hash x" using assms(5) by (simp add: session_hash_def get_pub_hash_def)
  have mem: "at_str L (forwarded L cfg (pub_hash x) to j) ''post_id'' = at_str L j ''post_id''"
    "jat L (forwarded L cfg (pub_hash x) to j) ''id'' = jat L j ''id''"
    using forwarded_members(3) [OF assms(1,4)] by (simp_all add: at_str_def)
  have "on_app_chat_msg L cfg j s w =
      (case ack_of L to (pub_hash x) j of None \<Rightarrow> (None, v)
       | Some m \<Rightarrow> (Some Chat_msg_ok, send_msg s m False v))"
    using assms(7)
    by (simp add: on_app_chat_msg_def user Let_def get_chat_to_field_eq [OF assms(1,4)] assms(8)
        mem ack_of_def)
  then show ?thesis
    using assms(2,3,5,6)
    by (simp add: on_app_def logged_in_def acknowledge_def catch_unknown_def split: option.splits)
qed

lemma acknowledge_sel:
  "redis_out (snd (acknowledge s a w)) = redis_out w" "sessions (snd (acknowledge s a w)) = sessions w"
  "posts (snd (acknowledge s a w)) = posts w"
  "t \<noteq> s \<Longrightarrow> heap (snd (acknowledge s a w)) t = heap w t"
  by (simp_all add: acknowledge_def heap_send_msg split: option.splits)

lemma session_hash_sel:
  "session_hash (redis_send cs w) s = session_hash w s"
  "session_hash (send_msg t m p w) s = session_hash w s"
  "session_hash (store_chat_msg cfg ms u w) s = session_hash w s"
  by (simp_all add: session_hash_def heap_send_msg get_pub_hash_def ws_send_def do_write_def Let_def
      split: option.splits)

text \<open>The members of an acknowledgement.\<close>

lemma ack_members:
  assumes "json_laws L" "ack_of L to user j = Some m"
  shows "\<exists>a. jparse L m = Some a \<and> at_str L a ''type'' = Some ''server_ack'' \<and>
    at_str L a ''from'' = Some to \<and> at_str L a ''to'' = Some user \<and>
    at_str L a ''post_id'' = at_str L j ''post_id'' \<and>
    Option.bind (jat L a ''ack_id'') (get_int32 L) = Option.bind (jat L j ''id'') (get_int32 L)"
proof -
  from assms(2) obtain pid mid where a: "at_str L j ''post_id'' = Some pid"
    "Option.bind (jat L j ''id'') (get_int32 L) = Some mid" "jdump L (chat_ack L to user pid mid) = Some m"
    by (auto simp: ack_of_def split: bind_splits)
  with parse_dump [OF assms(1) a(3)] show ?thesis
    by (simp add: chat_ack_def at_str_def json_simps assms(1))
qed

text \<open>C8: a chat message for a user who is logged in on this node is appended to the queue of exactly
  that user's session, marked to be kept if it cannot be delivered; redis is not involved, no other
  session gets it, and what is delivered is the message with the sender's own user id in \<open>from\<close>,
  whatever the client had put there, and with all other members as sent (the address of the
  administrator is filled in). If the message has a string \<open>post_id\<close> and a number \<open>id\<close> the sender's
  queue gets exactly one acknowledgement, which repeats both; otherwise the message is delivered all
  the same, but its sender gets nothing and the result is \<open>unknown\<close>, for which the session is
  closed.\<close>

theorem chat_online:
  assumes "json_laws L" "jparse L msg = Some j" "at_str L j ''cmd'' = Some ''message''"
    "at_str L j ''to'' = Some to" "heap w s = Some x" "is_logged_in x"
    "map_of (sessions w) (addressee cfg to) = Some t" "heap w t = Some y" "t \<noteq> s"
    "jdump L (forwarded L cfg (pub_hash x) to j) = Some text_out"
    "on_app L cfg now s msg w = (r, v)"
  shows "(\<exists>y'. heap v t = Some y' \<and> queued y' = queued y @ [(text_out, True)])
    \<and> (\<forall>q. q \<notin> {s, t} \<longrightarrow> heap v q = heap w q) \<and> redis_out v = redis_out w
    \<and> (\<exists>j'. jparse L text_out = Some j' \<and> at_str L j' ''from'' = Some (pub_hash x)
         \<and> at_str L j' ''to'' = Some (addressee cfg to)
         \<and> (\<forall>k. k \<notin> {''from'', ''to''} \<longrightarrow> jat L j' k = jat L j k))
    \<and> (case ack_of L to (pub_hash x) j of
         None \<Rightarrow> r = Unknown \<and> heap v s = Some x
       | Some m \<Rightarrow> r = Chat_msg_ok
           \<and> (\<exists>x'. heap v s = Some x' \<and> queued x' = queued x @ [(m, False)])
           \<and> (\<exists>a. jparse L m = Some a \<and> at_str L a ''type'' = Some ''server_ack''
                \<and> at_str L a ''from'' = Some to \<and> at_str L a ''to'' = Some (pub_hash x)
                \<and> at_str L a ''post_id'' = at_str L j ''post_id''
                \<and> Option.bind (jat L a ''ack_id'') (get_int32 L) = Option.bind (jat L j ''id'') (get_int32 L)))"
proof -
  let ?f = "forwarded L cfg (pub_hash x) to j" and ?a = "ack_of L to (pub_hash x) j"
  have fwd: "forward_chat_msg L cfg ?f (addressee cfg to) w = (Some (), send_msg t text_out True w)"
    using assms(7,8,10) by (simp add: forward_chat_msg_def)
  have text_out: "text_out \<noteq> ''''" using assms(1,10) by auto
  have "session_hash (send_msg t text_out True w) s = pub_hash x"
    using assms(5) by (simp add: session_hash_sel) (simp add: session_hash_def get_pub_hash_def)
  from chat_msg_eq [OF assms(1-6) fwd this, of now] assms(11)
  have rv: "(r, v) = acknowledge s ?a (send_msg t text_out True w)" by simp
  then have v: "v = snd (acknowledge s ?a (send_msg t text_out True w))" by (metis snd_conv)
  have "heap v t = Some (ws_send text_out True y)"
    using assms(8,9) text_out by (simp add: v acknowledge_sel heap_send_msg)
  moreover have "queued (ws_send text_out True y) = queued y @ [(text_out, True)]" by (rule ws.queue_send)
  moreover have "heap v q = heap w q" if "q \<notin> {s, t}" for q
    using that by (simp add: v acknowledge_sel heap_send_msg)
  moreover have "redis_out v = redis_out w" by (simp add: v acknowledge_sel)
  moreover have "jparse L text_out = Some ?f" using parse_dump [OF assms(1,10)] .
  moreover have "case ?a of None \<Rightarrow> r = Unknown \<and> heap v s = Some x
      | Some m \<Rightarrow> r = Chat_msg_ok \<and> (\<exists>x'. heap v s = Some x' \<and> queued x' = queued x @ [(m, False)])"
  proof (cases ?a)
    case None
    with rv assms(5,9) text_out show ?thesis by (simp add: acknowledge_def heap_send_msg)
  next
    case (Some m)
    have "m \<noteq> ''''" using ack_members [OF assms(1) Some] assms(1) Some
      by (auto simp: ack_of_def split: bind_splits)
    then have "heap v s = Some (ws_send m False x)"
      using rv Some assms(5,9) text_out by (simp add: acknowledge_def heap_send_msg)
    with rv Some ws.queue_send [of m False x] show ?thesis by (simp add: acknowledge_def)
  qed
  ultimately show ?thesis
    using forwarded_members [OF assms(1,4)] ack_members [OF assms(1), of to "pub_hash x" j]
    by (cases ?a) simp_all
qed

lemma offline_eq:
  assumes "json_laws L" "jparse L msg = Some j" "at_str L j ''cmd'' = Some ''message''"
    "at_str L j ''to'' = Some to" "heap w s = Some x" "is_logged_in x"
    "map_of (sessions w) (addressee cfg to) = None"
    "jdump L (forwarded L cfg (pub_hash x) to j) = Some text_out"
  shows "on_app L cfg now s msg w =
    acknowledge s (ack_of L to (pub_hash x) j) (store_chat_msg cfg [text_out] (addressee cfg to) w)"
    (is "_ = acknowledge s _ ?u")
proof (rule chat_msg_eq [OF assms(1-6)])
  show "forward_chat_msg L cfg (forwarded L cfg (pub_hash x) to j) (addressee cfg to) w = (Some (), ?u)"
    using assms(7,8) by (simp add: forward_chat_msg_def)
  show "session_hash ?u s = pub_hash x"
    using assms(5) by (simp add: session_hash_sel) (simp add: session_hash_def get_pub_hash_def)
qed

text \<open>C9: a chat message for a user who is not on this node is stored in redis under the key of that
  user, with an expiry, counted, and announced to the push notifier; no other session changes. As
  above, the stored text carries the sender's own id.\<close>

theorem chat_offline:
  assumes "json_laws L" "jparse L msg = Some j" "at_str L j ''cmd'' = Some ''message''"
    "at_str L j ''to'' = Some to" "heap w s = Some x" "is_logged_in x"
    "map_of (sessions w) (addressee cfg to) = None"
    "jdump L (forwarded L cfg (pub_hash x) to j) = Some text_out"
    "on_app L cfg now s msg w = (r, v)"
  shows "redis_out v = redis_out w @
      [ R_incr (r_chat_msgs_counter_key (c_redis cfg)),
        R_rpush (r_chat_msg_prefix (c_redis cfg) @ addressee cfg to) [text_out],
        R_expire (r_chat_msg_prefix (c_redis cfg) @ addressee cfg to) (r_chat_msg_exp_time (c_redis cfg)),
        R_publish (r_notify_channel (c_redis cfg)) text_out ]
    \<and> (\<forall>q. q \<noteq> s \<longrightarrow> heap v q = heap w q)
    \<and> (\<exists>j'. jparse L text_out = Some j' \<and> at_str L j' ''from'' = Some (pub_hash x)
         \<and> at_str L j' ''to'' = Some (addressee cfg to))"
proof -
  let ?f = "forwarded L cfg (pub_hash x) to j" and ?u = "store_chat_msg cfg [text_out] (addressee cfg to) w"
  have v: "v = snd (acknowledge s (ack_of L to (pub_hash x) j) ?u)"
    using offline_eq [OF assms(1-8), of now] assms(9) by (metis snd_conv)
  have "redis_out v = redis_out w @
      [ R_incr (r_chat_msgs_counter_key (c_redis cfg)),
        R_rpush (r_chat_msg_prefix (c_redis cfg) @ addressee cfg to) [text_out],
        R_expire (r_chat_msg_prefix (c_redis cfg) @ addressee cfg to) (r_chat_msg_exp_time (c_redis cfg)),
        R_publish (r_notify_channel (c_redis cfg)) text_out ]"
    by (simp add: v acknowledge_sel) (simp add: store_chat_msg_def Let_def)
  moreover have "heap v q = heap w q" if "q \<noteq> s" for q
    using that by (simp add: v acknowledge_sel)
  moreover have "jparse L text_out = Some ?f" using parse_dump [OF assms(1,8)] .
  ultimately show ?thesis using forwarded_members [OF assms(1,4)] by blast
qed

text \<open>A chat message without a post id or a numeric id is delivered or stored all the same, but the
  sender gets no acknowledgement: the result is \<open>unknown\<close>, for which the session is closed.\<close>

lemma chat_delivered_then_rejected:
  assumes "json_laws L" "jparse L msg = Some j" "at_str L j ''cmd'' = Some ''message''"
    "at_str L j ''to'' = Some to" "heap w s = Some x" "is_logged_in x"
    "map_of (sessions w) (addressee cfg to) = None"
    "jdump L (forwarded L cfg (pub_hash x) to j) = Some text_out"
    "at_str L j ''post_id'' = None"
  shows "on_app L cfg now s msg w = (Unknown, store_chat_msg cfg [text_out] (addressee cfg to) w)"
  using offline_eq [OF assms(1-8), of now] assms(9) by (simp add: ack_of_def acknowledge_def)

section \<open>Witnesses\<close>

definition sample_session :: "string \<Rightarrow> ws_session" where
  "sample_session user = new_session\<lparr>pub_hash := sample_id user, pending_ops := [Async_read]\<rparr>"

text \<open>Two users on one node.\<close>

definition sample_two :: worker where
  "sample_two = init_worker\<lparr>
     heap := [0 \<mapsto> sample_session ''ann'', 3 \<mapsto> sample_session ''bob''],
     sessions := [(''u1'', 3), (sample_id ''ann'', 0)], number_of_sessions := 2\<rparr>"

definition chat_json :: "string \<Rightarrow> jval" where
  "chat_json to = JObj [(''cmd'', JStr ''message''), (''from'', JStr ''mallory''), (''to'', JStr to),
     (''message'', JStr ''hi''), (''id'', JNum 7)]"

lemma chat_json_at [simp]:
  "at_str ref_lib (chat_json to) ''cmd'' = Some ''message''"
  "at_str ref_lib (chat_json to) ''to'' = Some to"
  "at_str ref_lib (chat_json to) ''post_id'' = None"
  by (simp_all add: at_str_def chat_json_def)

lemma sample_two_sel [simp]:
  "heap sample_two 0 = Some (sample_session ''ann'')" "is_logged_in (sample_session ''ann'')"
  "heap sample_two 3 = Some (sample_session ''bob'')" "sessions sample_two = [(''u1'', 3), (sample_id ''ann'', 0)]"
  "pub_hash (sample_session user) = sample_id user" "redis_out sample_two = []"
  by (simp_all add: sample_two_def sample_session_def is_logged_in_def init_worker_def)

lemma sample_id_long: "user \<noteq> '''' \<Longrightarrow> length (sample_id user) = 32"
  by (simp add: sample_id_def make_hex_digest_def ref_hash_def)

lemma sample_id_neq [simp]: "''u1'' \<noteq> sample_id ''ann''" "''zed'' \<noteq> sample_id ''ann''"
  using sample_id_long [of "''ann''"] by (auto dest!: arg_cong [of _ _ length])

text \<open>The message with the members that the acknowledgement needs.\<close>

definition full_chat_json :: "string \<Rightarrow> jval" where
  "full_chat_json to = JObj [(''cmd'', JStr ''message''), (''from'', JStr ''mallory''), (''to'', JStr to),
     (''post_id'', JStr ''p1''), (''id'', JNum 7)]"

lemma full_chat_json_at [simp]:
  "at_str ref_lib (full_chat_json to) ''cmd'' = Some ''message''"
  "at_str ref_lib (full_chat_json to) ''to'' = Some to"
  "ack_of ref_lib to u (full_chat_json to) = Some (enc (chat_ack ref_lib to u ''p1'' 7))"
  by (simp_all add: at_str_def full_chat_json_def ack_of_def)

theorem chat_online_witness:
  "\<exists>r v y x. on_app ref_lib sample_core 0 0 (enc (full_chat_json ''u1'')) sample_two = (r, v)
     \<and> r = Chat_msg_ok \<and> heap v 3 = Some y \<and> heap v 0 = Some x \<and> length (queued y) = 1
     \<and> queued x = [(enc (chat_ack ref_lib ''u1'' (sample_id ''ann'') ''p1'' 7), False)]"
proof -
  obtain r v where rv: "on_app ref_lib sample_core 0 0 (enc (full_chat_json ''u1'')) sample_two = (r, v)"
    by fastforce
  have a: "addressee sample_core ''u1'' = ''u1''" by (simp add: addressee_def chat_admin_id_key_def)
  have q: "queued (sample_session u) = []" for u by (simp add: sample_session_def new_session_def queued_def)
  show ?thesis
    using chat_online [OF ref_json_laws _ _ _ _ _ _ _ _ _ rv, of "full_chat_json ''u1''" "''u1''"
        "sample_session ''ann''" 3 "sample_session ''bob''"
        "enc (forwarded ref_lib sample_core (sample_id ''ann'') ''u1'' (full_chat_json ''u1''))"] rv
    by (auto simp: a q)
qed

theorem chat_offline_witness:
  "\<exists>out. R_rpush ''chatzed'' [out]
     \<in> set (redis_out (snd (on_app ref_lib sample_core 0 0 (enc (chat_json ''zed'')) sample_two)))"
proof -
  obtain r v where rv: "on_app ref_lib sample_core 0 0 (enc (chat_json ''zed'')) sample_two = (r, v)"
    by fastforce
  have a: "addressee sample_core ''zed'' = ''zed''" by (simp add: addressee_def chat_admin_id_key_def)
  have p: "r_chat_msg_prefix (c_redis sample_core) = ''chat''" by (simp add: sample_core_def)
  show ?thesis
    using chat_offline [OF ref_json_laws _ _ _ _ _ _ _ rv, of "chat_json ''zed''" "''zed''"
        "sample_session ''ann''"
        "enc (forwarded ref_lib sample_core (sample_id ''ann'') ''zed'' (chat_json ''zed''))"]
    by (simp add: rv a p)
qed

end
