(* ===== verification/Session_End.thy ===== *)
theory Session_End
  imports Node
begin

text \<open>
  How a session ends once it is being closed (\<open>ws_session_impl::shutdown\<close>): whatever the other
  sessions, redis and the HTTP clients do, nothing starts another operation on it but the completion
  of one of its own operations, so it cannot outlive the failure of the operations it waits for. The
  relation \<open>held\<close> collects the updates that leave a closing session its operations; all handlers are
  made of such updates.
\<close>

section \<open>Updates that leave a closing session alone\<close>

definition held_session :: "ws_session \<Rightarrow> ws_session \<Rightarrow> bool" where
  "held_session x y \<longleftrightarrow> (closing x \<longrightarrow> closing y \<and> pending_ops y = pending_ops x)"

definition held :: "sid \<Rightarrow> worker \<Rightarrow> worker \<Rightarrow> bool" where
  "held s w v \<longleftrightarrow> rel_option held_session (heap w s) (heap v s)"

lemma held_sessions [simp]:
  "held_session x x" "held_session x (ws_send m p x)" "held_session x (ws_shutdown x)"
  "held_session x (set_pub_hash h x)" "held_session x (on_pong x)" "held_session x (handle_ev r x)"
  by (auto simp: held_session_def ws_defs Let_def handle_ev_def split: ev_res.splits)

lemma held_session_trans: "held_session x y \<Longrightarrow> held_session y z \<Longrightarrow> held_session x z"
  by (simp add: held_session_def)

lemma held_heap: "heap v s = heap w s \<Longrightarrow> held s w v"
  by (simp add: held_def option.rel_refl)

lemma held_trans: "held s w v \<Longrightarrow> held s v u \<Longrightarrow> held s w u"
  unfolding held_def by (auto simp: rel_option_iff intro: held_session_trans split: option.splits)

lemma held_upd: "(\<And>x. held_session x (f x)) \<Longrightarrow> held s w (upd_session t f w)"
  by (cases "heap w s"; cases "t = s") (simp_all add: held_def heap_upd_session option.rel_refl)

lemma held_other: "t \<noteq> s \<Longrightarrow> held s w (upd_session t f w)"
  by (rule held_heap) (simp add: heap_upd_session)

lemma held_send: "held s w (send_msg t m p w)"
proof -
  have "heap (send_msg t m p w) = heap w \<or> heap (send_msg t m p w) = heap (upd_session t (ws_send m p) w)"
    by (auto simp: send_msg_def crash_def)
  with held_upd [of "ws_send m p" s w t] show ?thesis by (auto simp: held_def option.rel_refl)
qed

lemma held_quiet: "quiet ok C w v \<Longrightarrow> held s w v"
proof (induction rule: quiet.induct)
  case (q_send m v t p)
  then show ?case by (blast intro: held_trans held_send)
qed (auto intro: held_heap elim!: held_trans intro!: held_upd simp: crash_def)

lemma held_finish: "held s w (finish cfg t w)"
proof -
  have "held_session x (snd (take_undelivered x))" for x
    by (simp add: held_session_def take_undelivered_def Let_def)
  then show ?thesis
    by (cases "heap w s"; cases "t = s") (simp_all add: held_def finish_heap_eq option.rel_refl)
qed

lemma held_register: "held s w (register_session u t w)"
proof -
  have "held_session x (set_pub_hash '''' (ws_shutdown x))" for x
    by (rule held_session_trans [of _ "ws_shutdown x"]) simp_all
  then show ?thesis by (cases "heap w s") (simp_all add: held_def register_heap)
qed

lemma held_login:
  assumes L: "json_laws L" and run: "on_app_login L cfg j t w = (r, v)"
  shows "held s w v"
proof -
  let ?u = "do { user \<leftarrow> at_str L j ''user''; key \<leftarrow> at_str L j ''key''; Some (make_hex_digest L user key) }"
  show ?thesis
  proof (cases "\<exists>u. ?u = Some u \<and> u \<noteq> ''''")
    case False
    with run show ?thesis
      by (auto simp: on_app_login_def held_send intro: held_heap split: option.splits)
  next
    case True
    then obtain u where u: "?u = Some u" "u \<noteq> ''''" by blast
    have enter: "held s w (enter u t w)"
      by (rule held_trans [OF held_upd held_register]) simp
    obtain k w1 where tok: "publish_token L cfg j u (enter u t w) = (k, w1)" by fastforce
    note w1 = held_trans [OF enter held_quiet [OF quiet_token [OF tok, of True "{}"]]]
    have sub: "held s w1 (subscribe_user cfg u w1)"
      by (rule held_heap) (simp add: subscribe_user_def Let_def)
    from run u tok w1 held_trans [OF w1 sub] held_trans [OF held_trans [OF w1 sub] held_send]
    show ?thesis by (auto simp: on_app_login_def Let_def split: option.splits)
  qed
qed

lemma held_on_app:
  assumes L: "json_laws L" and run: "on_app L cfg now t msg w = (r, v)"
  shows "held s w v"
proof -
  have pr: "held s w v'" if "catch_unknown (on_app_presence L cfg j t w) = (r', v')" for r' v' j
    using catch_unknown_snd [OF that] quiet_presence [OF L, of _ _ _ _ _ _ True "{}"] held_quiet by blast
  have ms: "held s w v'" if "catch_unknown (on_app_chat_msg L cfg j t w) = (r', v')" for r' v' j
    using catch_unknown_snd [OF that] quiet_chat_msg [OF L, of _ _ _ _ _ _ True "{}"] held_quiet by blast
  have pu: "held s w v'" if "catch_unknown (on_app_publish L cfg now j t w) = (r', v')" for r' v' j
    using catch_unknown_snd [OF that] quiet_publish [OF L, of _ _ _ _ _ _ _ True "{}"] held_quiet by blast
  have lo: "held s w v'" if "catch_unknown (on_app_login L cfg j t w) = (r', v')" for r' v' j
    using catch_unknown_snd [OF that] held_login [OF L] by blast
  from run show ?thesis
    unfolding on_app_def
    by (auto split: option.splits prod.splits if_splits intro: held_heap pr ms pu lo)
qed

lemma held_push: "held s w (on_push L cfg now v w)"
proof (cases "length v = 3 \<and> v ! 0 = ''message'' \<and> v ! 2 = ''rpush''")
  case True
  from push_rpush [OF this, of "{}" w L cfg now] show ?thesis
    by (auto intro: held_quiet held_heap)
qed (rule held_quiet [OF quiet_push [where ok = False and C = UNIV]]; simp)

lemma held_db: "held s w (on_db_event L cfg now d w)"
  by (cases d) (auto intro: held_push held_heap
      held_quiet [OF quiet_hvals [where ok = True and C = UNIV]]
      held_quiet [OF quiet_hgetall [where ok = False and C = UNIV]])

lemma held_lrange: "held s w (on_lrange cfg msgs w)"
proof -
  have "held s w (on_db_chat_msg cfg u msgs w)" for u
    by (rule held_quiet [OF quiet_db_chat_msg [where ok = False and C = UNIV]]) simp
  then show ?thesis by (simp add: on_lrange_def Let_def crash_def held_def option.rel_refl)
qed

section \<open>Counting completions\<close>

text \<open>The completions of operations on session \<open>s\<close>, and those after which nothing is started anew.\<close>

fun completes :: "sid \<Rightarrow> event \<Rightarrow> bool" where
  "completes s (E_run ec t) \<longleftrightarrow> t = s"
| "completes s (E_read now ec msg t) \<longleftrightarrow> t = s"
| "completes s (E_write ec m t) \<longleftrightarrow> t = s"
| "completes s (E_close t) \<longleftrightarrow> t = s"
| "completes s _ \<longleftrightarrow> False"

fun fails :: "event \<Rightarrow> bool" where
  "fails (E_run ec t) \<longleftrightarrow> ec"
| "fails (E_read now ec msg t) \<longleftrightarrow> ec"
| "fails (E_write ec m t) \<longleftrightarrow> ec"
| "fails _ \<longleftrightarrow> True"

definition outstanding :: "sid \<Rightarrow> worker \<Rightarrow> nat" where
  "outstanding s w = (case heap w s of None \<Rightarrow> 0 | Some x \<Rightarrow> length (pending_ops x))"

definition shutting :: "sid \<Rightarrow> worker \<Rightarrow> bool" where
  "shutting s w \<longleftrightarrow> (\<forall>x. heap w s = Some x \<longrightarrow> closing x)"

lemma held_waits: "held s w v \<Longrightarrow> shutting s w \<Longrightarrow> shutting s v \<and> outstanding s v = outstanding s w"
  by (cases "heap w s"; cases "heap v s") (auto simp: held_def outstanding_def shutting_def held_session_def)

text \<open>What an event of the node does to the operations a closing session waits for.\<close>

definition burns :: "sid \<Rightarrow> event \<Rightarrow> worker \<Rightarrow> worker \<Rightarrow> bool" where
  "burns s e w v \<longleftrightarrow> shutting s v \<and>
     outstanding s v + of_bool (completes s e \<and> fails e) \<le> outstanding s w \<and>
     (completes s e \<longrightarrow> fails e \<longrightarrow> outstanding s v + 1 = outstanding s w) \<and>
     (\<not> completes s e \<longrightarrow> outstanding s v = outstanding s w)"

lemma burns_held: "held s w v \<Longrightarrow> shutting s w \<Longrightarrow> \<not> completes s e \<Longrightarrow> burns s e w v"
  by (simp add: burns_def held_waits)

lemma complete_waits:
  assumes "pending s ope w" "shutting s w"
  shows "shutting s (upd_session s (complete_op ope) w)"
    "outstanding s (upd_session s (complete_op ope) w) + 1 = outstanding s w"
  using assms
  by (auto simp: pending_def shutting_def outstanding_def heap_upd_session complete_op_def
      length_remove1 split: option.splits dest: length_pos_if_in_set)

lemma start_waits:
  assumes "shutting s w" "\<And>x. closing (f x) = closing x"
    "\<And>x. length (pending_ops (f x)) \<le> length (pending_ops x) + 1"
  shows "shutting s (upd_session s f w) \<and> outstanding s (upd_session s f w) \<le> outstanding s w + 1"
  using assms by (auto simp: shutting_def outstanding_def heap_upd_session split: option.splits)

lemma upd_upd: "upd_session s f (upd_session s g w) = upd_session s (f \<circ> g) w"
  by (cases "heap w s") (simp_all add: upd_session_def)

lemma burns_read:
  assumes L: "json_laws L" and p: "pending t Async_read w" and s: "shutting s w"
  shows "burns s (E_read now ec msg t) w (on_read L cfg now ec msg t w)"
proof (cases "t = s")
  case True
  let ?w = "upd_session s (complete_op Async_read) w"
  note c = complete_waits [OF p [unfolded True] s]
  show ?thesis
  proof (cases ec)
    case True
    with held_waits [OF held_finish c(1), of cfg s] c(2) \<open>t = s\<close> show ?thesis
      by (simp add: burns_def on_read_def Let_def)
  next
    case False
    obtain r v where rv: "on_app L cfg now s msg ?w = (r, v)" by fastforce
    have "held s ?w (upd_session s (handle_ev r) v)"
      by (rule held_trans [OF held_on_app [OF L rv] held_upd]) simp
    note h = held_waits [OF this c(1)]
    have "shutting s (upd_session s do_read (upd_session s (handle_ev r) v)) \<and>
        outstanding s (upd_session s do_read (upd_session s (handle_ev r) v)) \<le>
          outstanding s (upd_session s (handle_ev r) v) + 1"
      by (rule start_waits) (use h in \<open>simp_all add: do_read_def start_op_def\<close>)
    with False rv h c(2) \<open>t = s\<close> show ?thesis by (simp add: burns_def on_read_def Let_def)
  qed
next
  case False
  note o = held_other [OF this]
  have "held s w (on_read L cfg now ec msg t w)"
  proof (cases ec)
    case True
    then show ?thesis by (simp add: on_read_def Let_def held_trans [OF o held_finish])
  next
    case False
    obtain r v where rv: "on_app L cfg now t msg (upd_session t (complete_op Async_read) w) = (r, v)"
      by fastforce
    from held_trans [OF o held_trans [OF held_on_app [OF L rv] held_trans [OF o o]]] False rv
    show ?thesis by (simp add: on_read_def Let_def)
  qed
  with s False show ?thesis by (simp add: burns_held)
qed

lemma burns_step:
  assumes L: "json_laws L" and step: "sys_step L cfg S e S'"
    and s: "shutting s (wk S)" "s < next_sid S"
  shows "burns s e (wk S) (wk S') \<and> s < next_sid S'"
  using step
proof cases
  case (s_http now ret0 ec req)
  obtain a w where aw: "http_on_read L cfg now ret0 ec req (wk S) = (a, w)" by fastforce
  have h: "held s (wk S) w"
    by (rule held_quiet [OF quiet_http [OF _ aw, where ok = False and C = UNIV]]) simp
  have "heap (wk (make_session (S\<lparr>wk := w\<rparr>))) s = heap w s"
    using s(2) by (simp add: make_session_def Let_def)
  with h s_http aw s show ?thesis
    by (auto simp: http_request_def burns_held held_def make_session_def Let_def
        split: http_action.splits)
next
  case (s_run t ec)
  show ?thesis
  proof (cases "t = s")
    case True
    let ?w = "upd_session s (complete_op Async_accept) (wk S)"
    note c = complete_waits [OF s_run(4) [unfolded True] s(1)]
    have "shutting s (upd_session s do_read ?w) \<and> outstanding s (upd_session s do_read ?w) \<le> outstanding s ?w + 1"
      by (rule start_waits [OF c(1)]) (simp_all add: do_read_def start_op_def)
    moreover have "heap (upd_session s do_read (?w\<lparr>number_of_sessions := n\<rparr>)) s =
      heap (upd_session s do_read ?w) s" for n
      by (simp add: heap_upd_session)
    ultimately show ?thesis using True s_run c s(2)
      by (simp add: burns_def on_run_def Let_def shutting_def outstanding_def)
  next
    case False
    have "heap (on_run ec t (wk S)) s = heap (wk S) s"
      using False by (simp add: on_run_def Let_def heap_upd_session)
    with False s_run s show ?thesis by (simp add: burns_held held_heap)
  qed
next
  case (s_read t now ec msg)
  with burns_read [OF L _ s(1)] s(2) show ?thesis by simp
next
  case (s_write t m ec)
  show ?thesis
  proof (cases "t = s")
    case True
    let ?w = "upd_session s (complete_op (Async_write m)) (wk S)"
    note c = complete_waits [OF s_write(4) [unfolded True] s(1)]
    have u: "on_written ec m s (wk S) = upd_session s (on_write ec) ?w"
      by (simp add: on_written_def upd_upd comp_def)
    have "shutting s (upd_session s (on_write ec) ?w) \<and>
        outstanding s (upd_session s (on_write ec) ?w) \<le> outstanding s ?w + 1"
      by (rule start_waits [OF c(1)]) (simp_all add: on_write_def do_write_def start_op_def Let_def)
    moreover have "heap (upd_session s (on_write True) ?w) s = heap ?w s"
      by (cases "heap (wk S) s") (simp_all add: heap_upd_session on_write_def)
    ultimately show ?thesis using True s_write c s(2) u
      by (cases ec) (simp_all add: burns_def shutting_def outstanding_def)
  next
    case False
    with s_write s show ?thesis by (simp add: burns_held on_written_def held_other)
  qed
next
  case (s_close t)
  show ?thesis
  proof (cases "t = s")
    case True
    with complete_waits [OF s_close(4) [unfolded True] s(1)] s_close s(2) show ?thesis
      by (simp add: burns_def on_close_def)
  next
    case False
    with s_close s show ?thesis by (simp add: burns_held on_close_def held_other)
  qed
next
  case (s_pong t)
  with s show ?thesis by (simp add: burns_held held_upd)
next
  case (s_free t x)
  with s show ?thesis by (auto simp: burns_def shutting_def outstanding_def)
next
  case (s_db now d)
  with s show ?thesis by (simp add: burns_held held_db)
next
  case (s_lrange msgs)
  with s show ?thesis by (simp add: burns_held held_lrange)
next
  case (s_signal ec)
  with s show ?thesis
    by (simp add: burns_held held_quiet [OF quiet_signal [where ok = True and C = UNIV]])
next
  case (s_lost k)
  with s show ?thesis by (simp add: burns_held held_heap)
next
  case (s_accept ec ab)
  with s show ?thesis by (simp add: burns_held held_heap)
qed

section \<open>The end of a closing session\<close>

inductive sys_path :: "'j extern \<Rightarrow> core \<Rightarrow> sys \<Rightarrow> event list \<Rightarrow> sys \<Rightarrow> bool" for L cfg S where
  p_refl: "sys_path L cfg S [] S"
| p_step: "sys_path L cfg S es T \<Longrightarrow> sys_step L cfg T e T' \<Longrightarrow> sys_path L cfg S (es @ [e]) T'"

lemma sys_path_run: "sys_path L cfg S fs S' \<Longrightarrow> sys_run L cfg es S \<Longrightarrow> sys_run L cfg (es @ fs) S'"
  by (induction rule: sys_path.induct) (auto simp flip: append_assoc intro: sys_run.step)

lemma burns_path:
  assumes L: "json_laws L" and path: "sys_path L cfg S fs S'"
    and s: "shutting s (wk S)" "s < next_sid S"
  shows "shutting s (wk S') \<and> s < next_sid S'
    \<and> length (filter (\<lambda>e. completes s e \<and> fails e) fs) + outstanding s (wk S') \<le> outstanding s (wk S)
    \<and> ((\<forall>e \<in> set fs. completes s e \<longrightarrow> fails e) \<longrightarrow>
        length (filter (completes s) fs) + outstanding s (wk S') = outstanding s (wk S))"
  using path
proof induction
  case p_refl
  with s show ?case by simp
next
  case (p_step es T e T')
  then have t: "shutting s (wk T)" "s < next_sid T" by simp_all
  from burns_step [OF L p_step.hyps(2) t] p_step.IH show ?case
    by (cases "completes s e"; cases "fails e") (auto simp: burns_def)
qed

lemma pending_split:
  "length xs = count_list xs Async_accept + count_list xs Async_read + count_list xs Async_close
     + length (concat (map (\<lambda>ope. case ope of Async_write m \<Rightarrow> [m] | _ \<Rightarrow> []) xs))"
  by (induction xs) (auto split: ws_op.splits)

lemma pending_bound: "sess_inv x \<Longrightarrow> length (pending_ops x) \<le> 3"
  unfolding pending_split [of "pending_ops x"]
  by (auto simp: sess_inv_def n_ops_def writes_def split: if_splits)

text \<open>While a session waits for an operation, that operation can fail.\<close>

lemma outstanding_step:
  assumes "0 < outstanding s (wk S)" "\<not> crashed (wk S)"
  shows "\<exists>e T. completes s e \<and> fails e \<and> sys_step L cfg S e T"
proof -
  from assms(1) obtain x ope where x: "heap (wk S) s = Some x" "ope \<in> set (pending_ops x)"
    by (cases "heap (wk S) s") (auto simp: outstanding_def neq_Nil_conv intro: that)
  then have p: "pending s ope (wk S)" by (simp add: pending_def)
  show ?thesis
  proof (cases ope)
    case Async_accept
    with s_run [OF assms(2), of s L cfg True] p show ?thesis
      by (intro exI [of _ "E_run True s"]) auto
  next
    case Async_read
    with s_read [OF assms(2), of s L cfg 0 True "''''"] p show ?thesis
      by (intro exI [of _ "E_read 0 True '''' s"]) auto
  next
    case (Async_write m)
    with s_write [OF assms(2), of s m L cfg True] p show ?thesis
      by (intro exI [of _ "E_write True m s"]) auto
  next
    case Async_close
    with s_close [OF assms(2), of s L cfg] p show ?thesis
      by (intro exI [of _ "E_close s"]) auto
  qed
qed

text \<open>C36: a session that is being closed ends. It waits for at most three operations; whatever the
  rest of the node does meanwhile, at most that many of its completions can fail, and when they all
  fail (as they do on a closed stream) every one of them brings the end one step nearer and none
  starts another operation. As long as it waits, one of them can happen; once it waits for nothing,
  no user is logged in on it any more.\<close>

theorem closing_session_ends:
  assumes "json_laws L" "sys_run L cfg es S" "heap (wk S) s = Some x" "closing x"
    and "sys_path L cfg S fs S'"
  shows "length (pending_ops x) \<le> 3
    \<and> length (filter (\<lambda>e. completes s e \<and> fails e) fs) + outstanding s (wk S') \<le> length (pending_ops x)
    \<and> ((\<forall>e \<in> set fs. completes s e \<longrightarrow> fails e) \<longrightarrow>
        length (filter (completes s) fs) + outstanding s (wk S') = length (pending_ops x))
    \<and> (if outstanding s (wk S') = 0 then s \<notin> snd ` set (sessions (wk S'))
       else crashed (wk S') \<or> (\<exists>e T. completes s e \<and> fails e \<and> sys_step L cfg S' e T))"
proof -
  note inv = sinv_sys_run [OF assms(1,2)]
  have n: "s < next_sid S" using sinvD(5) [OF inv, of s] assms(3) by (metis not_less option.distinct(1))
  moreover have c: "shutting s (wk S)" "outstanding s (wk S) = length (pending_ops x)"
    using assms(3,4) by (simp_all add: shutting_def outstanding_def)
  moreover have "length (pending_ops x) \<le> 3"
    using sinvD(1) [OF inv] assms(3) pending_bound by (simp add: heap_inv_def)
  moreover have "s \<notin> snd ` set (sessions (wk S'))" if "outstanding s (wk S') = 0"
  proof -
    note D = sinvD(2) [OF sinv_sys_run [OF assms(1) sys_path_run [OF assms(5,2)]]]
    have "s \<notin> readers (wk S')" using that by (auto simp: readers_iff outstanding_def n_ops_def)
    then have "map_of (sessions (wk S')) u \<noteq> Some s" for u using D table_invD by blast
    moreover have "distinct (map fst (sessions (wk S')))" using D by (simp add: table_inv_def)
    ultimately show ?thesis by auto
  qed
  ultimately show ?thesis
    using burns_path [OF assms(1,5) c(1) n] outstanding_step [of s S' L cfg] by simp blast
qed

theorem closing_session_ends_witness:
  "\<exists>fs S'. sys_path ref_lib sample_core
       (sample_login\<lparr>wk := on_signal False (wk sample_login)\<rparr>) fs S'
     \<and> filter (completes 0) fs = [E_close 0, E_write True sample_ack 0, E_read 0 True '''' 0]
     \<and> outstanding 0 (wk S') = 0 \<and> 0 \<notin> snd ` set (sessions (wk S'))"
proof -
  let ?S = "sample_login\<lparr>wk := on_signal False (wk sample_login)\<rparr>"
  let ?T1 = "?S\<lparr>wk := on_close 0 (wk ?S)\<rparr>"
  let ?T2 = "?T1\<lparr>wk := on_written True sample_ack 0 (wk ?T1)\<rparr>"
  let ?T3 = "?T2\<lparr>wk := on_read ref_lib sample_core 0 True '''' 0 (wk ?T2)\<rparr>"
  let ?fs = "[E_close 0, E_write True sample_ack 0, E_read 0 True '''' 0]"
  have "\<not> crashed (wk sample_login)" by (simp add: sample_login_eq init_worker_def)
  note S = step [OF sample_login_run s_signal [OF this, of _ _ False]]
  have h: "heap (wk ?S) 0 = Some \<lparr> pong_counter = 0, msg_queue = [\<lparr>e_msg = sample_ack, e_persist = False\<rparr>],
      closing = True, pub_hash = sample_id ''ann'',
      pending_ops = [Async_write sample_ack, Async_read, Async_close] \<rparr>"
    and c: "\<not> crashed (wk ?S)"
    by (simp_all add: on_signal_def shutdown_impl_def sample_login_eq init_worker_def Let_def
        heap_upd_session ws_shutdown_def start_op_def)
  have "sys_path ref_lib sample_core ?S ([] @ [E_close 0]) ?T1"
    by (rule p_step [OF p_refl s_close]) (use h c in \<open>simp_all add: pending_def\<close>)
  then have "sys_path ref_lib sample_core ?S (([] @ [E_close 0]) @ [E_write True sample_ack 0]) ?T2"
    by (rule p_step [OF _ s_write])
      (use h c in \<open>simp_all add: pending_def on_close_def heap_upd_session complete_op_def\<close>)
  then have "sys_path ref_lib sample_core ?S
      ((([] @ [E_close 0]) @ [E_write True sample_ack 0]) @ [E_read 0 True '''' 0]) ?T3"
    by (rule p_step [OF _ s_read])
      (use h c in \<open>simp_all add: pending_def on_close_def on_written_def on_write_def
        heap_upd_session complete_op_def\<close>)
  then obtain T where p: "sys_path ref_lib sample_core ?S ?fs T" by auto
  note ends = closing_session_ends [OF ref_json_laws S h _ p]
  from ends have w: "outstanding 0 (wk T) = 0" by simp
  with ends have "0 \<notin> snd ` set (sessions (wk T))" by simp
  moreover have "filter (completes 0) ?fs = ?fs" by simp
  ultimately show ?thesis using p w by blast
qed

end
