(* ===== verification/Delivery.thy ===== *)
theory Delivery
  imports Messages Session_End
begin

text \<open>
  Messages that wait for their user: what the end of a session gives back to redis, what an answer
  of redis delivers, what becomes of a session that was replaced, and the shutdown of a node.
\<close>

section \<open>The end of a session\<close>

definition undelivered :: "ws_session \<Rightarrow> string list" where
  "undelivered x = map e_msg (filter e_persist (msg_queue x))"

definition store_cmds :: "core \<Rightarrow> string \<Rightarrow> string list \<Rightarrow> redis_cmd list" where
  "store_cmds cfg u ms =
     (if ms = [] then []
      else [ R_incr (r_chat_msgs_counter_key (c_redis cfg)),
             R_rpush (r_chat_msg_prefix (c_redis cfg) @ u) ms,
             R_expire (r_chat_msg_prefix (c_redis cfg) @ u) (r_chat_msg_exp_time (c_redis cfg)),
             R_publish (r_notify_channel (c_redis cfg)) (last ms) ])"

lemma store_chat_msg_cmds: "store_chat_msg cfg ms u w = redis_send (store_cmds cfg u ms) w"
  by (simp add: store_chat_msg_def store_cmds_def Let_def redis_send_def)

lemma fst_take_undelivered: "fst (take_undelivered x) = undelivered x"
  by (simp add: take_undelivered_def undelivered_def Let_def)

text \<open>C15: when the connection of a logged in user ends, the user leaves the table, the node cancels its
  two subscriptions, and the messages that were to be kept and were not written, and only those, go
  back to redis under the key of the user, in their order; for a session that is not logged in only
  the count changes.\<close>

theorem end_of_session:
  assumes "json_laws L" "sys_run L cfg es S" "pending s Async_read (wk S)" "heap (wk S) s = Some x"
  shows "let v = on_read L cfg now True msg s (wk S); u = pub_hash x in
    map_of (sessions v) = (map_of (sessions (wk S)))(u := None)
    \<and> redis_out v = redis_out (wk S) @
        (if is_logged_in x
         then [ R_unsubscribe (r_user_notify_prefix (c_redis cfg) @ u),
                R_unsubscribe (r_presence_channel_prefix (c_redis cfg) @ u) ] @
              store_cmds cfg u (undelivered x)
         else [])
    \<and> number_of_sessions v = number_of_sessions (wk S) - 1"
proof -
  let ?w = "upd_session s (complete_op Async_read) (wk S)" and ?x = "complete_op Async_read x"
  note inv = sinv_sys_run [OF assms(1,2)]
  note D = sinvD(2) [OF inv]
  have hx: "heap ?w s = Some ?x" using assms(4) by (simp add: heap_upd_session)
  from reading [OF inv assms(3)] have s: "s \<in> readers (wk S)" by blast
  have nil: "map_of (sessions (wk S)) '''' = None"
    using table_invD [OF D, of "[]"] by (metis not_Some_eq)
  have v: "on_read L cfg now True msg s (wk S) = finish cfg s ?w" by (simp add: on_read_def Let_def)
  have ses: "map_of (sessions (finish cfg s ?w)) = (map_of (sessions (wk S)))(pub_hash x := None)"
    using nil by (auto simp: finish_sessions [OF hx] delete_conv)
  have und: "undelivered ?x = undelivered x" by (simp add: undelivered_def)
  have out: "redis_out (finish cfg s ?w) = redis_out (wk S) @
        (if is_logged_in x
         then [ R_unsubscribe (r_user_notify_prefix (c_redis cfg) @ pub_hash x),
                R_unsubscribe (r_presence_channel_prefix (c_redis cfg) @ pub_hash x) ] @
              store_cmds cfg (pub_hash x) (undelivered x)
         else [])"
  proof (cases "is_logged_in x")
    case True
    then have m: "map_of (sessions (wk S)) (pub_hash x) = Some s"
      using table_inv_logged_in [OF D s assms(4)] by (simp add: is_logged_in_def)
    obtain ms y where y: "take_undelivered ?x = (ms, y)" by fastforce
    with fst_take_undelivered [of ?x] take_undelivered_sel [OF y]
    have "ms = undelivered x" "pub_hash y = pub_hash x" by (simp_all add: und)
    with True m y hx show ?thesis
      by (simp add: finish_def Let_def is_logged_in_def on_session_dtor_def store_chat_msg_cmds)
        (simp add: store_cmds_def)
  next
    case False
    then show ?thesis by (simp add: finish_def hx Let_def is_logged_in_def)
  qed
  show ?thesis
    unfolding Let_def v using ses out finish_sel(5) [of ?w s cfg] hx by simp
qed

theorem end_of_session_witness:
  "sessions (on_read ref_lib sample_core 0 True [] 0 (wk sample_login)) = []"
proof -
  have p: "pending 0 Async_read (wk sample_login)" by (simp add: sample_login_eq pending_def)
  obtain x where x: "heap (wk sample_login) 0 = Some x" "pub_hash x = sample_id ''ann''"
    by (simp add: sample_login_eq)
  from end_of_session [OF ref_json_laws sample_login_run p x(1), of 0 "[]"] x(2)
  have "map_of (sessions (on_read ref_lib sample_core 0 True [] 0 (wk sample_login))) u = None" for u
    by (simp add: Let_def sample_login_eq)
  then show ?thesis by (metis map_of_eq_empty_iff ext)
qed

section \<open>Answers to LRANGE\<close>

lemma deliver_all:
  assumes "heap w s = Some x" "'''' \<notin> set msgs"
  shows "heap (fold (\<lambda>m. send_msg s m p) msgs w) t =
    (if t = s then Some (fold (\<lambda>m. ws_send m p) msgs x) else heap w t)"
  using assms
proof (induction msgs arbitrary: w x)
  case (Cons m ms)
  have m: "m \<noteq> ''''" using Cons.prems by auto
  then have "heap (send_msg s m p w) s = Some (ws_send m p x)"
    using Cons.prems by (simp add: heap_send_msg)
  from Cons.IH [OF this] Cons.prems m show ?case by (simp add: heap_send_msg)
qed auto

text \<open>The answer to the LRANGE of a login reaches the user it was asked for: if the user is still
  logged in, all messages are appended to the queue of that session in the order of the list,
  marked to be kept; if the user is gone, they are stored again under the user's key. In both cases
  the user leaves the queue of pending reads.\<close>

lemma lrange_delivers:
  assumes "json_laws L" "sys_run L cfg es S" "chat_queue (wk S) = u # us" "'''' \<notin> set msgs"
  shows "chat_queue (on_lrange cfg msgs (wk S)) = us \<and>
    (case map_of (sessions (wk S)) u of
       Some s \<Rightarrow> \<exists>x y. heap (wk S) s = Some x \<and> heap (on_lrange cfg msgs (wk S)) s = Some y
         \<and> queued y = queued x @ map (\<lambda>m. (m, True)) msgs
         \<and> redis_out (on_lrange cfg msgs (wk S)) = redis_out (wk S)
     | None \<Rightarrow> heap (on_lrange cfg msgs (wk S)) = heap (wk S)
         \<and> redis_out (on_lrange cfg msgs (wk S)) = redis_out (wk S) @ store_cmds cfg u msgs)"
proof -
  have frame: "redis_out (fold (\<lambda>m. send_msg s m True) msgs w) = redis_out w" for s w
    by (induction msgs arbitrary: w) simp_all
  have q: "chat_queue (on_lrange cfg msgs (wk S)) = us"
    using assms(3) quiet_frame(2) [OF quiet_db_chat_msg [where ok = False and C = UNIV], of msgs "wk S" u cfg]
    by (simp add: on_lrange_def Let_def)
  show ?thesis
  proof (cases "map_of (sessions (wk S)) u")
    case None
    with q assms(3) show ?thesis
      by (simp add: on_lrange_def Let_def on_db_chat_msg_def store_chat_msg_cmds)
  next
    case (Some s)
    from table_invD [OF sinvD(2) [OF sinv_sys_run [OF assms(1,2)]] Some]
    obtain x where x: "heap (wk S) s = Some x" by blast
    let ?y = "fold (\<lambda>m. ws_send m True) msgs x"
    have "heap (on_lrange cfg msgs (wk S)) s = Some ?y"
      using Some x assms(3) deliver_all [OF x assms(4), of True s]
      by (simp add: on_lrange_def Let_def on_db_chat_msg_def)
    moreover have "redis_out (on_lrange cfg msgs (wk S)) = redis_out (wk S)"
      using Some x assms(3) by (simp add: on_lrange_def Let_def on_db_chat_msg_def frame)
    ultimately show ?thesis using q Some x ws.queue_send_all [of True msgs x] by simp
  qed
qed

text \<open>C29: the answer to the LRANGE that a notification of redis caused does not reach the user: the queue
  gets the key instead of the user id, no table entry has a key for a name, so the messages, which
  the command has deleted from the key of the user, are stored under the key with the prefix
  doubled, although the user is logged in on this node.\<close>

theorem notified_messages_misdirected:
  assumes "json_laws L" "sys_run L cfg es S" "CHR '':'' \<in> set (r_chat_msg_prefix (c_redis cfg))"
    "chat_queue (wk S) = []" "u \<noteq> ''''" "msgs \<noteq> []"
  shows "let push = [''message'', r_user_notify_prefix (c_redis cfg) @ u, ''rpush''];
      key = r_chat_msg_prefix (c_redis cfg) @ u;
      w = on_push L cfg now push (wk S); v = on_lrange cfg msgs w
    in redis_out w = redis_out (wk S) @ [R_lrange key 0 (-1), R_del key]
     \<and> heap v = heap (wk S)
     \<and> R_rpush (r_chat_msg_prefix (c_redis cfg) @ key) msgs \<in> set (drop (length (redis_out w)) (redis_out v))"
proof -
  let ?key = "r_chat_msg_prefix (c_redis cfg) @ u"
  have none: "map_of (sessions (wk S)) ?key = None"
    using table_no_colon [OF assms(1,2), of ?key] assms(3) by (metis Un_iff set_append)
  let ?w = "(redis_send [R_lrange ?key 0 (-1), R_del ?key] (wk S))\<lparr>chat_queue := [?key]\<rparr>"
  have w: "on_push L cfg now [''message'', r_user_notify_prefix (c_redis cfg) @ u, ''rpush''] (wk S) = ?w"
    using assms(4,5) by (simp add: on_push_def std_substr_def Let_def)
  have v: "on_lrange cfg msgs ?w = (redis_send (store_cmds cfg ?key msgs) ?w)\<lparr>chat_queue := []\<rparr>"
    using none by (simp add: on_lrange_def on_db_chat_msg_def store_chat_msg_cmds)
  show ?thesis
    unfolding Let_def w v using assms(6) by (simp add: store_cmds_def)
qed

theorem notified_messages_misdirected_witness:
  "\<exists>cfg v. R_rpush ''chat:chat:zed'' [''m''] \<in> set (redis_out v) \<and>
     v = on_lrange cfg [''m''] (on_push ref_lib cfg 0
       [''message'', r_user_notify_prefix (c_redis cfg) @ ''zed'', ''rpush''] (wk init_sys))"
proof -
  let ?cfg = "sample_core\<lparr>c_redis := (c_redis sample_core)\<lparr>r_chat_msg_prefix := ''chat:''\<rparr>\<rparr>"
  have q: "chat_queue (wk init_sys) = []" by (simp add: init_sys_def init_worker_def)
  let ?v = "on_lrange ?cfg [''m''] (on_push ref_lib ?cfg 0
       [''message'', r_user_notify_prefix (c_redis ?cfg) @ ''zed'', ''rpush''] (wk init_sys))"
  have "R_rpush ''chat:chat:zed'' [''m''] \<in> set (redis_out ?v)"
    using notified_messages_misdirected [OF ref_json_laws start _ q, of ?cfg "''zed''" "[''m'']" 0]
    by (auto simp: Let_def dest: in_set_dropD)
  then show ?thesis by blast
qed

section \<open>A session that was replaced\<close>

text \<open>Which sessions can come back into the table.\<close>

definition logs_in :: "'j extern \<Rightarrow> sid \<Rightarrow> event \<Rightarrow> bool" where
  "logs_in L s e \<longleftrightarrow> (\<exists>now msg u. e = E_read now False msg s \<and> credentials L msg u)"

lemma absent_step:
  assumes "json_laws L" "sinv cfg S" "sys_step L cfg S e S'" "\<not> logs_in L s e"
    "s \<notin> ran (map_of (sessions (wk S)))"
  shows "s \<notin> ran (map_of (sessions (wk S')))"
  using step_sessions [OF assms(1-3)] assms(4,5)
  by (elim disjE exE conjE) (auto simp: ran_def logs_in_def split: if_splits)

lemma absent_path:
  assumes "json_laws L" "sys_run L cfg es S" "sys_path L cfg S fs S'" "\<forall>e \<in> set fs. \<not> logs_in L s e"
    "s \<notin> ran (map_of (sessions (wk S)))"
  shows "s \<notin> ran (map_of (sessions (wk S')))"
  using assms(3,4)
proof induction
  case p_refl
  show ?case by (rule assms(5))
next
  case (p_step fs T e T')
  note inv = sinv_sys_run [OF assms(1) sys_path_run [OF p_step.hyps(1) assms(2)]]
  from absent_step [OF assms(1) inv p_step.hyps(2)] p_step show ?case by simp
qed

text \<open>C28: a login replaces the session its user has on the node, and what that session holds is lost:
  unless somebody logs in on it anew, its end, whenever it comes, gives nothing back to redis, so
  that messages in its queue that were to be kept and were not written are neither delivered nor
  stored; the new entry of the user is not touched by it.\<close>

theorem replaced_session_loses_messages:
  assumes "json_laws L" "sys_run L cfg es S" "map_of (sessions (wk S)) u = Some s"
    and "sys_step L cfg S (E_read now False msg t) S1" "map_of (sessions (wk S1)) u = Some t" "t \<noteq> s"
    and "sys_path L cfg S1 fs S2" "\<forall>e \<in> set fs. \<not> logs_in L s e"
    and "pending s Async_read (wk S2)"
  shows "let v = on_read L cfg now' True m s (wk S2) in
    redis_out v = redis_out (wk S2) \<and> sessions v = sessions (wk S2) \<and>
    (\<forall>x. heap (wk S2) s = Some x \<longrightarrow> (\<exists>y. heap v s = Some y \<and> queued y = queued x))"
proof -
  note inv = sinv_sys_run [OF assms(1,2)]
  note run = sys_run.step [OF assms(2,4)]
  have only: "v = u" if "map_of (sessions (wk S)) v = Some s" for v
    using that table_invD [OF sinvD(2) [OF inv] that] table_invD [OF sinvD(2) [OF inv] assms(3)]
    by (metis option.inject)
  from step_sessions [OF assms(1) inv assms(4)] assms(3,5,6)
  obtain u' where m: "map_of (sessions (wk S1)) = (map_of (sessions (wk S)))(u' \<mapsto> t)" by auto
  have "map_of (sessions (wk S1)) v \<noteq> Some s" for v
    using only [of v] assms(5,6) by (cases "v = u'") (auto simp: m split: if_splits)
  then have "s \<notin> ran (map_of (sessions (wk S1)))" by (auto simp: ran_def)
  from absent_path [OF assms(1) run assms(7,8) this]
  have out: "s \<notin> ran (map_of (sessions (wk S2)))" .
  note inv2 = sinv_sys_run [OF assms(1) sys_path_run [OF assms(7) run]]
  from reading [OF inv2 assms(9)] obtain x where x: "heap (wk S2) s = Some x" "s \<in> readers (wk S2)"
    by blast
  have "pub_hash x = ''''"
    using table_inv_logged_in [OF sinvD(2) [OF inv2] x(2,1)] out by (auto simp: ran_def)
  with x(1) show ?thesis
    by (simp add: Let_def on_read_def finish_def heap_upd_session is_logged_in_def complete_op_def
        queued_def)
qed

text \<open>The user of the sample run has a message waiting in his session and connects once more.\<close>

definition sample_waiting :: sys where
  "sample_waiting =
     sample_login\<lparr>wk := on_lrange sample_core [''hi''] (wk sample_login), replies := 1\<rparr>"

definition sample_again :: sys where
  "sample_again = (let S = http_request ref_lib sample_core 0 0 Read_ok sample_req sample_waiting
     in S\<lparr>wk := on_run False 1 (wk S)\<rparr>)"

lemma sample_again_facts:
  "heap (wk sample_again) 0 = Some \<lparr> pong_counter = 0,
     msg_queue = [\<lparr>e_msg = sample_ack, e_persist = False\<rparr>, \<lparr>e_msg = ''hi'', e_persist = True\<rparr>],
     closing = False, pub_hash = sample_id ''ann'', pending_ops = [Async_write sample_ack, Async_read] \<rparr>"
  "heap (wk sample_again) 1 = Some (new_session\<lparr>pending_ops := [Async_read]\<rparr>)"
  "sessions (wk sample_again) = [(sample_id ''ann'', 0)]" "\<not> crashed (wk sample_again)"
  "\<not> crashed (wk sample_waiting)" "next_sid sample_waiting = 1"
  by (simp_all add: sample_again_def sample_waiting_def sample_login_eq http_request_def http_on_read_def
      sample_req_def make_session_def on_run_def ws_run_def start_op_def do_read_def new_session_def
      complete_op_def heap_upd_session on_lrange_def on_db_chat_msg_def heap_send_msg ws_send_def
      init_worker_def send_msg_def Let_def)

lemma sample_again_run:
  "\<exists>es. sys_run ref_lib sample_core es sample_again"
proof -
  have "\<not> crashed (wk sample_login)" "replies sample_login = 0" "lost sample_login = 0"
    "lrange_keys (redis_out (wk sample_login)) \<noteq> []"
    by (simp_all add: sample_login_eq init_worker_def)
  then have "sys_step ref_lib sample_core sample_login (E_lrange [''hi'']) sample_waiting"
    using s_lrange [of sample_login ref_lib sample_core "[''hi'']"] by (simp add: sample_waiting_def)
  note step [OF sample_login_run this]
  note step [OF this s_http [OF sample_again_facts(5), of _ _ 0 0 Read_ok sample_req]]
  from step [OF this s_run, of 1 False] sample_again_facts(5,6) show ?thesis
    by (auto simp: sample_again_def Let_def http_request_def http_on_read_def sample_req_def
        make_session_def pending_def ws_run_def start_op_def)
qed

theorem replaced_session_loses_messages_witness:
  "\<exists>es S. sys_run ref_lib sample_core es S \<and> pending 0 Async_read (wk S)
     \<and> (\<exists>x. heap (wk S) 0 = Some x \<and> (''hi'', True) \<in> set (queued x))
     \<and> redis_out (on_read ref_lib sample_core 0 True '''' 0 (wk S)) = redis_out (wk S)"
proof -
  let ?m = "enc (login_json ''ann'')" and ?u = "sample_id ''ann''"
  let ?w = "wk sample_again"
  let ?S1 = "sample_again\<lparr>wk := on_read ref_lib sample_core 0 False ?m 1 ?w\<rparr>"
  obtain es where run: "sys_run ref_lib sample_core es sample_again" using sample_again_run by blast
  have p: "pending 1 Async_read ?w" unfolding pending_def sample_again_facts(2) by simp
  note st = s_read [OF sample_again_facts(4) p, of ref_lib sample_core 0 False ?m]
  have "heap (upd_session 1 (complete_op Async_read) ?w) 1 = Some new_session"
    by (simp add: heap_upd_session sample_again_facts(2) [simplified] complete_op_def new_session_def)
  from sample_login_app [OF _ this, of "''ann''" sample_core 0]
  have v: "wk ?S1 = upd_session 1 do_read (upd_session 1 (handle_ev Login_ok) (send_msg 1 sample_ack False
      (subscribe_user sample_core ?u (register_session ?u 1 (upd_session 1 (set_pub_hash ?u)
        (upd_session 1 (complete_op Async_read) ?w))))))"
    by (simp add: on_read_def new_session_def)
  have "map_of (sessions (wk ?S1)) ?u = Some 1"
    unfolding v by (simp add: subscribe_user_def Let_def register_map_of)
  moreover obtain x where x: "heap (wk ?S1) 0 = Some x" "Async_read \<in> set (pending_ops x)"
    "(''hi'', True) \<in> set (queued x)"
    unfolding v by (auto simp: heap_upd_session heap_send_msg subscribe_user_def Let_def register_heap
        replaced_def sample_again_facts ws_defs)
  moreover have "pending 0 Async_read (wk ?S1)" using x by (simp add: pending_def)
  moreover have "map_of (sessions ?w) ?u = Some 0" by (simp add: sample_again_facts(3))
  ultimately have "redis_out (on_read ref_lib sample_core 0 True '''' 0 (wk ?S1)) = redis_out (wk ?S1)"
    using replaced_session_loses_messages [OF ref_json_laws run _ st _ _ p_refl, of ?u 0 0 "''''"]
    by (simp add: Let_def)
  with sys_run.step [OF run st] x show ?thesis
    by (intro exI [of _ "es @ [E_read 0 False ?m 1]"] exI [of _ ?S1]) (simp add: pending_def)
qed

section \<open>A write and the end of the session\<close>

text \<open>The end of a session takes the texts of the messages to be kept out of the queue even while the
  message at its front is being written: the write that is outstanding still refers to the front of
  the queue, whose text has then been moved away.\<close>

lemma pending_write_moved:
  assumes "heap w s = Some x" "is_logged_in x" "writes x = [m]" "m = e_msg (hd (msg_queue x))"
    "undelivered x \<noteq> []"
  shows "\<exists>y. heap (finish cfg s w) s = Some y \<and> writes y = [m] \<and> e_msg (hd (msg_queue y)) = ''''"
proof -
  let ?y = "snd (take_undelivered x)"
  have "heap (finish cfg s w) s = Some ?y" using assms(1,2) by (simp add: finish_heap_eq)
  moreover have "writes ?y = [m]" using assms(3) by (simp add: take_undelivered_def Let_def)
  moreover have "e_msg (hd (msg_queue ?y)) = ''''"
    using assms(5) by (cases "filter e_persist (msg_queue x)")
      (simp_all add: take_undelivered_def Let_def undelivered_def)
  ultimately show ?thesis by blast
qed

section \<open>Shutdown\<close>

lemma heap_fold_shut:
  "heap (fold (\<lambda>(_, s). upd_session s ws_shutdown) ss w) t =
    (if t \<in> set (map snd ss) then map_option ws_shutdown (heap w t) else heap w t)"
  by (induction ss arbitrary: w)
    (auto simp: heap_upd_session option.map_comp comp_def ws.shut_twice)

lemma fold_shut_sel:
  "sessions (fold (\<lambda>(_, s). upd_session s ws_shutdown) ss w) = sessions w"
  "redis_out (fold (\<lambda>(_, s). upd_session s ws_shutdown) ss w) = redis_out w"
  "accept_mgr (fold (\<lambda>(_, s). upd_session s ws_shutdown) ss w) = accept_mgr w"
  by (induction ss arbitrary: w) auto

text \<open>A signal stops the node in an orderly way: every session of a logged in user starts closing
  (and every other session is left alone), the outstanding accept is cancelled, redis is told to
  quit after all commands sent before, and the table stays as it is until the sessions end.\<close>

lemma shutdown_closes_all:
  assumes "json_laws L" "sys_run L cfg es S"
  shows "let v = on_signal False (wk S) in
    (\<forall>s x. heap (wk S) s = Some x \<longrightarrow> (\<exists>y. heap v s = Some y \<and> msg_queue y = msg_queue x
        \<and> (if s \<in> ran (map_of (sessions (wk S))) then closing y else y = x)))
    \<and> redis_out v = redis_out (wk S) @ [R_quit] \<and> sessions v = sessions (wk S)
    \<and> accept_mgr v = acceptor_shutdown (accept_mgr (wk S))"
proof -
  note D = sinvD(2) [OF sinv_sys_run [OF assms]]
  let ?w = "(wk S)\<lparr>accept_mgr := acceptor_shutdown (accept_mgr (wk S))\<rparr>"
  have "distinct (map fst (sessions (wk S)))" using D by (simp add: table_inv_def)
  then have r: "ran (map_of (sessions (wk S))) = set (map snd (sessions (wk S)))"
    by (simp add: ran_distinct)
  show ?thesis
    unfolding Let_def r
    by (simp add: on_signal_def shutdown_impl_def Let_def heap_fold_shut fold_shut_sel)
      (auto simp: ws_shutdown_def start_op_def)
qed

end
