(* ===== verification/Publishing.thy ===== *)
theory Publishing
  imports Delivery
begin

text \<open>
  Posts across the nodes: what a node that publishes or deletes a post sends to redis, and what the
  nodes do with the message when it arrives over the posts channel.
\<close>

section \<open>The posts of a node\<close>

lemma node_sorted:
  assumes L: "json_laws L" and run: "sys_run L cfg es S"
  shows "sorted_posts (posts (wk S))"
  using run
proof (induction rule: sys_run.induct)
  case start
  then show ?case by (simp add: init_sys_def init_worker_def)
next
  case (step es S e S')
  from step_posts [OF L sinv_sys_run [OF L step.hyps(1)] step.hyps(2)] step.IH
  show ?case using chan.run_invar by (auto simp: channel_exec_eq)
qed

text \<open>C21: the posts in the memory of a node are always sorted by id, so that binary search applies, and
  a post leaves the memory in one step only: when redis delivers a \<open>delete\<close> command that names the
  post and its author or the administrator. No client, no other notification and no shutdown
  removes a post or changes more of it than its counter.\<close>

theorem node_posts_safe:
  assumes "json_laws L" "sys_run L cfg es S" "sys_step L cfg S e S'"
  shows "sorted_posts (posts (wk S)) \<and>
    (\<forall>p \<in># post_cores (posts (wk S)). p \<notin># post_cores (posts (wk S')) \<longrightarrow>
        (\<exists>now d c. e = E_db now d \<and> c \<in> db_cmds L cfg d \<and> may_remove p c))"
proof -
  note so = node_sorted [OF assms(1,2)]
  from step_posts [OF assms(1) sinv_sys_run [OF assms(1,2)] assms(3)]
  obtain cs where cs: "set cs \<subseteq> event_cmds L cfg e"
    "posts (wk S') = fold channel_exec cs (posts (wk S))" by blast
  have "\<exists>now d c. e = E_db now d \<and> c \<in> db_cmds L cfg d \<and> may_remove p c"
    if "p \<in># post_cores (posts (wk S))" "p \<notin># post_cores (posts (wk S'))" for p
  proof -
    from chan.run_keeps [OF so that(1), of cs] that(2) cs(2)
    obtain c where "c \<in> set cs" "may_remove p c" by (auto simp: channel_exec_eq)
    with cs(1) show ?thesis by (cases e) auto
  qed
  with so show ?thesis by blast
qed

theorem node_posts_safe_witness: "sorted_posts (posts (wk sample_login))"
proof -
  have "\<not> crashed (wk sample_login)" by (simp add: sample_login_eq init_worker_def)
  from node_posts_safe [OF ref_json_laws sample_login_run s_signal [OF this, of ref_lib sample_core True]]
  show ?thesis by blast
qed

section \<open>Publishing\<close>

lemma strip_from_json:
  "from_json L j = Some p \<Longrightarrow> map strip_query (p_images p) = p_images p"
  using from_json_images [of L j p] by (auto simp: strip_query_id intro!: map_idI)

lemma node_cmds_publish:
  assumes "json_laws L" "jdump L (publish_internal L p) = Some msg"
  shows "node_cmds L cfg msg = [Add_cmd (p\<lparr>p_images := map strip_query (p_images p)\<rparr>)]"
  using assms(1)
  by (simp add: node_cmds_def parse_dump [OF assms] publish_internal_def at_str_def json_simps
      from_to_json)

text \<open>C22: publishing, over the websocket or over HTTP, stores the post in redis under a fresh random id
  and sends it to all nodes; every node that receives the message inserts exactly that post. The
  server, not the client, decides the author (the digest of the credentials), the date, the id and
  the initial counter; the rest of the post is what the client sent, and the id is returned.\<close>

theorem publish_reaches_nodes:
  assumes "json_laws L" "at_str L j ''user'' = Some user" "at_str L j ''key'' = Some key"
    "make_hex_digest L user key \<noteq> ''''" "Option.bind (jat L j ''post'') (from_json L) = Some p"
    "on_publish_impl L cfg now j w = (Some ack, v)"
  shows "let pid = fst (pwd_make L (c_pwd_size cfg) (gen w));
      q = p\<lparr>p_from := make_hex_digest L user key, p_date := now, p_id := pid, p_visualizations := 0\<rparr>
    in (\<exists>msg. redis_out v = redis_out w @
            [ R_hset (r_posts_key (c_redis cfg)) [(pid, msg)],
              R_publish (r_posts_channel_key (c_redis cfg)) msg ]
         \<and> (\<forall>cfg' now' ps. channel_post L cfg' now' msg ps = add_post q ps))
     \<and> (\<exists>a. jparse L ack = Some a \<and> at_str L a ''result'' = Some ''ok'' \<and> at_str L a ''id'' = Some pid)
     \<and> posts v = posts w \<and> heap v = heap w"
proof -
  let ?u = "make_hex_digest L user key"
  obtain pid g where pg: "pwd_make L (c_pwd_size cfg) (gen w) = (pid, g)" by fastforce
  let ?q = "p\<lparr>p_from := ?u, p_date := now, p_id := pid, p_visualizations := 0\<rparr>"
  from assms(5) obtain jp where "from_json L jp = Some p" by (auto split: bind_splits)
  from strip_from_json [OF this] have "p_images ?q = map strip_query (p_images ?q)" by simp
  then have q: "?q\<lparr>p_images := map strip_query (p_images ?q)\<rparr> = ?q" by simp
  from assms(2-6) pg obtain msg where msg: "jdump L (publish_internal L ?q) = Some msg"
    "jdump L (publish_ok_ack L ?q) = Some ack"
    "v = redis_send [ R_hset (r_posts_key (c_redis cfg)) [(pid, msg)],
           R_publish (r_posts_channel_key (c_redis cfg)) msg ] (w\<lparr>gen := g\<rparr>)"
    by (auto simp: on_publish_impl_def Let_def split: option.splits)
  have "channel_post L cfg' now' msg ps = add_post ?q ps" for cfg' now' ps
    using node_cmds_publish [OF assms(1) msg(1), of cfg'] q by (simp add: channel_post_cmds)
  moreover have "jparse L ack = Some (publish_ok_ack L ?q)" by (rule parse_dump [OF assms(1) msg(2)])
  moreover have "at_str L (publish_ok_ack L ?q) ''result'' = Some ''ok''"
    "at_str L (publish_ok_ack L ?q) ''id'' = Some pid"
    using assms(1) by (simp_all add: publish_ok_ack_def at_str_def json_simps)
  ultimately show ?thesis
    by (simp add: Let_def pg msg(3))
qed

definition publish_json :: jval where
  "publish_json = JObj [(''user'', JStr ''ann''), (''key'', JStr (replicate 32 CHR ''k'')),
     (''post'', to_json ref_lib sample_post)]"

theorem publish_reaches_nodes_witness:
  "\<exists>v ack msg pid. on_publish_impl ref_lib sample_core 7 publish_json init_worker = (Some ack, v) \<and>
     R_publish ''posts_channel'' msg \<in> set (redis_out v) \<and>
     (\<exists>q. \<forall>ps. channel_post ref_lib sample_core 8 msg ps = add_post q ps \<and> p_id q = pid \<and>
        p_from q = sample_id ''ann'' \<and> p_date q = 7)"
proof -
  have at: "at_str ref_lib publish_json ''user'' = Some ''ann''"
    "at_str ref_lib publish_json ''key'' = Some (replicate 32 CHR ''k'')"
    "jat ref_lib publish_json ''post'' = Some (to_json ref_lib sample_post)"
    by (simp_all add: publish_json_def at_str_def)
  have post: "Option.bind (jat ref_lib publish_json ''post'') (from_json ref_lib) =
      Some (sample_post\<lparr>p_images := map strip_query (p_images sample_post)\<rparr>)"
    by (simp only: at bind.simps from_to_json [OF ref_json_laws])
  have id: "make_hex_digest ref_lib ''ann'' (replicate 32 CHR ''k'') \<noteq> ''''" by simp
  obtain ack v where run: "on_publish_impl ref_lib sample_core 7 publish_json init_worker = (Some ack, v)"
    using at post id by (cases "pwd_make ref_lib (c_pwd_size sample_core) (gen init_worker)")
      (simp add: on_publish_impl_def Let_def)
  have ch: "r_posts_channel_key (c_redis sample_core) = ''posts_channel''" by (simp add: sample_core_def)
  let ?q = "sample_post\<lparr>p_images := map strip_query (p_images sample_post),
      p_from := make_hex_digest ref_lib ''ann'' (replicate 32 CHR ''k''), p_date := 7,
      p_id := fst (pwd_make ref_lib (c_pwd_size sample_core) (gen init_worker)),
      p_visualizations := 0\<rparr>"
  from publish_reaches_nodes [OF ref_json_laws at(1,2) id post run, unfolded Let_def ch]
  obtain msg where m: "redis_out v = redis_out init_worker @
      [R_hset (r_posts_key (c_redis sample_core)) [(p_id ?q, msg)], R_publish ''posts_channel'' msg]"
    and c: "\<forall>cfg now ps. channel_post ref_lib cfg now msg ps = add_post ?q ps"
    by (elim conjE exE) simp
  from m have "R_publish ''posts_channel'' msg \<in> set (redis_out v)" by simp
  with run c show ?thesis
    by - (rule exI [of _ v], rule exI [of _ ack], rule exI [of _ msg],
      rule exI [of _ "p_id ?q"], intro conjI exI [of _ ?q], simp_all)
qed

section \<open>Deleting\<close>

lemma node_cmds_delete:
  assumes "json_laws L" "jdump L (delete_cmd L u i) = Some msg"
  shows "node_cmds L cfg msg = [Remove_cmd i u (u = c_chat_admin_id cfg)]"
  using assms(1)
  by (simp add: node_cmds_def parse_dump [OF assms] delete_cmd_def at_str_def json_simps)

lemma delete_post_eq:
  assumes "delete_post L cfg user key i w = (Some (), v)" "p_id (channel_get (posts w) i) \<noteq> ''''"
  obtains msg out where
    "jdump L (delete_cmd L (make_hex_digest L user key) i) = Some msg"
    "jdump L (to_json L (channel_get (posts w) i)) = Some out"
    "v = redis_send [ R_hset (r_removed_posts_key (c_redis cfg)) [(i, out)],
       R_hdel (r_posts_key (c_redis cfg)) [i],
       R_publish (r_posts_channel_key (c_redis cfg)) msg ] w"
  using assms by (auto simp: delete_post_def Let_def split: option.splits if_splits)

text \<open>C23: deleting a stored post archives it in redis, removes it from the posts in redis and tells all
  nodes; a node that receives the message removes the post from memory exactly if the digest of the
  credentials is the author of the first post with that id, or is the administrator.\<close>

theorem delete_reaches_nodes:
  assumes "json_laws L" "delete_post L cfg user key i w = (Some (), v)"
    "sorted_posts (posts w)" "p \<in> set (posts w)" "p_id p = i" "i \<noteq> ''''"
  shows "let u = make_hex_digest L user key in
    \<exists>msg out q. redis_out v = redis_out w @
        [ R_hset (r_removed_posts_key (c_redis cfg)) [(i, out)],
          R_hdel (r_posts_key (c_redis cfg)) [i],
          R_publish (r_posts_channel_key (c_redis cfg)) msg ]
      \<and> jparse L out = Some (to_json L q) \<and> q \<in> set (posts w) \<and> p_id q = i
      \<and> (\<forall>now ps. channel_post L cfg now msg ps =
           (case List.find (\<lambda>p. p_id p = i) ps of
              Some r \<Rightarrow> if p_from r = u \<or> u = c_chat_admin_id cfg then remove1 r ps else ps
            | None \<Rightarrow> ps))"
proof -
  let ?u = "make_hex_digest L user key" and ?q = "channel_get (posts w) i"
  have q: "?q \<in> set (posts w)" "p_id ?q = i"
    using channel_get_in [OF assms(3-5)] by simp_all
  with assms(6) have "p_id ?q \<noteq> ''''" by simp
  from delete_post_eq [OF assms(2) this] obtain msg out where
    m: "jdump L (delete_cmd L ?u i) = Some msg" "jdump L (to_json L ?q) = Some out"
    and v: "v = redis_send [ R_hset (r_removed_posts_key (c_redis cfg)) [(i, out)],
       R_hdel (r_posts_key (c_redis cfg)) [i],
       R_publish (r_posts_channel_key (c_redis cfg)) msg ] w" by blast
  have "channel_post L cfg now msg ps =
      (case List.find (\<lambda>p. p_id p = i) ps of
         Some r \<Rightarrow> if p_from r = ?u \<or> ?u = c_chat_admin_id cfg then remove1 r ps else ps
       | None \<Rightarrow> ps)" for now ps
    by (simp add: channel_post_cmds node_cmds_delete [OF assms(1) m(1)] remove_post_find)
  with q parse_dump [OF assms(1) m(2)] show ?thesis
    unfolding Let_def v by (intro exI [of _ msg] exI [of _ out] exI [of _ ?q]) simp
qed

text \<open>C30: what is stored in redis is removed whoever asks: with any credentials, even invalid ones, the
  server moves the post out of the posts kept in redis. If the digest is neither the author nor the
  administrator the nodes keep the post in memory, so the memory of the nodes and redis disagree
  until the next start, when the post is gone.\<close>

theorem delete_unchecked:
  assumes "json_laws L" "delete_post L cfg user key i w = (Some (), v)"
    "sorted_posts (posts w)" "p \<in> set (posts w)" "p_id p = i" "i \<noteq> ''''"
    "make_hex_digest L user key \<noteq> c_chat_admin_id cfg"
    "\<forall>r \<in> set ps. p_id r = i \<longrightarrow> p_from r \<noteq> make_hex_digest L user key"
  shows "R_hdel (r_posts_key (c_redis cfg)) [i] \<in> set (redis_out v) \<and>
    (\<exists>msg. last (redis_out v) = R_publish (r_posts_channel_key (c_redis cfg)) msg \<and>
       channel_post L cfg now msg ps = ps)"
proof -
  have "p_id (channel_get (posts w) i) \<noteq> ''''"
    using channel_get_in [OF assms(3-5)] assms(6) by simp
  from delete_post_eq [OF assms(2) this] obtain msg out where
    m: "jdump L (delete_cmd L (make_hex_digest L user key) i) = Some msg"
    and v: "v = redis_send [ R_hset (r_removed_posts_key (c_redis cfg)) [(i, out)],
       R_hdel (r_posts_key (c_redis cfg)) [i],
       R_publish (r_posts_channel_key (c_redis cfg)) msg ] w" by metis
  have "channel_post L cfg now msg ps = ps"
    using assms(7,8)
    by (auto simp: channel_post_cmds node_cmds_delete [OF assms(1) m] remove_post_find
        find_Some_iff split: option.splits dest: nth_mem)
  then show ?thesis by (simp add: v)
qed

definition sample_store :: worker where
  "sample_store = init_worker\<lparr>posts := [sample_post]\<rparr>"

lemma sample_store_facts:
  "sorted_posts (posts sample_store)" "sample_post \<in> set (posts sample_store)"
  "p_id sample_post = ''a1''" "p_from sample_post = ''ann''" "posts sample_store = [sample_post]"
  "channel_get (posts sample_store) ''a1'' = sample_post"
proof -
  show s: "sorted_posts (posts sample_store)" "sample_post \<in> set (posts sample_store)"
    "p_id sample_post = ''a1''" "p_from sample_post = ''ann''" "posts sample_store = [sample_post]"
    by (simp_all add: sample_store_def sorted_posts_def sample_post_def)
  from channel_get_in [OF s(1,2,3)] show "channel_get (posts sample_store) ''a1'' = sample_post"
    by (simp add: s(5))
qed

lemma sample_delete:
  "\<exists>v. delete_post ref_lib sample_core ''eve'' ''x'' ''a1'' sample_store = (Some (), v)"
  by (simp add: delete_post_def sample_store_facts(3,6) Let_def)

lemma sample_bad_key: "make_hex_digest ref_lib ''eve'' ''x'' = ''''"
  by (simp add: make_hex_digest_def)

theorem delete_reaches_nodes_witness:
  "\<exists>v msg. delete_post ref_lib sample_core ''eve'' ''x'' ''a1'' sample_store = (Some (), v) \<and>
     R_publish ''posts_channel'' msg \<in> set (redis_out v) \<and>
     channel_post ref_lib sample_core 0 msg [] = []"
proof -
  obtain v where v: "delete_post ref_lib sample_core ''eve'' ''x'' ''a1'' sample_store = (Some (), v)"
    using sample_delete by blast
  have ch: "r_posts_channel_key (c_redis sample_core) = ''posts_channel''" by (simp add: sample_core_def)
  from delete_reaches_nodes [OF ref_json_laws v sample_store_facts(1-3), unfolded Let_def ch]
  obtain msg out where "redis_out v = redis_out sample_store @
        [ R_hset (r_removed_posts_key (c_redis sample_core)) [(''a1'', out)],
          R_hdel (r_posts_key (c_redis sample_core)) [''a1''], R_publish ''posts_channel'' msg ]"
    "\<And>now ps. channel_post ref_lib sample_core now msg ps =
       (case List.find (\<lambda>p. p_id p = ''a1'') ps of
          Some r \<Rightarrow> if p_from r = make_hex_digest ref_lib ''eve'' ''x'' \<or>
              make_hex_digest ref_lib ''eve'' ''x'' = c_chat_admin_id sample_core
            then remove1 r ps else ps
        | None \<Rightarrow> ps)"
    by auto
  then have "R_publish ''posts_channel'' msg \<in> set (redis_out v)"
    "channel_post ref_lib sample_core 0 msg [] = []" by simp_all
  with v show ?thesis by blast
qed

theorem delete_unchecked_witness:
  "\<exists>v. delete_post ref_lib sample_core ''eve'' ''x'' ''a1'' sample_store = (Some (), v) \<and>
     R_hdel ''posts'' [''a1''] \<in> set (redis_out v)"
proof -
  obtain v where v: "delete_post ref_lib sample_core ''eve'' ''x'' ''a1'' sample_store = (Some (), v)"
    using sample_delete by blast
  have k: "r_posts_key (c_redis sample_core) = ''posts''" "c_chat_admin_id sample_core = ''adm''"
    by (simp_all add: sample_core_def)
  from delete_unchecked [OF ref_json_laws v sample_store_facts(1-3), of "[sample_post]" 0] v
  show ?thesis by (simp add: sample_bad_key k sample_store_facts)
qed

section \<open>Visualisations\<close>

text \<open>C31: counting a visualisation forwards the client's text unread to the channel on which the nodes
  take their commands: a request to \<open>/posts/visualization\<close> whose body says \<open>delete\<close> and names a
  post and its author makes every node drop that post, with no credentials at all.\<close>

theorem visualization_forwards_commands:
  assumes "json_laws L" "jparse L body = Some j" "at_str L j ''cmd'' = Some ''delete''"
    "at_str L j ''post_id'' = Some i" "at_str L j ''from'' = Some a"
    "post_handler L cfg now ret0 ''/posts/visualization'' body w resp = (r, v)"
  shows "rs_status r = Status_ok \<and>
    R_publish (r_posts_channel_key (c_redis cfg)) body \<in> set (redis_out v) \<and>
    (\<forall>now' ps. channel_post L cfg now' body ps = snd (remove_post i a (a = c_chat_admin_id cfg) ps))"
proof -
  have "node_cmds L cfg body = [Remove_cmd i a (a = c_chat_admin_id cfg)]"
    using assms(2-5) by (simp add: node_cmds_def)
  then have "channel_post L cfg now' body ps = snd (remove_post i a (a = c_chat_admin_id cfg) ps)"
    for now' ps by (simp add: channel_post_cmds)
  moreover have "rs_status r = Status_ok \<and>
      R_publish (r_posts_channel_key (c_redis cfg)) body \<in> set (redis_out v)"
    using assms(2,4,6)
    by (auto simp: post_handler_def route_matches_def post_visualization_handler_def
        on_visualization_def set_body_def finish_response_def Let_def)
  ultimately show ?thesis by blast
qed

definition forged_json :: jval where
  "forged_json = JObj [(''cmd'', JStr ''delete''), (''post_id'', JStr ''a1''), (''from'', JStr ''ann'')]"

theorem visualization_forwards_commands_witness:
  "\<exists>r v. post_handler ref_lib sample_core 0 0 ''/posts/visualization'' (enc forged_json) sample_store
       new_response = (r, v) \<and> rs_status r = Status_ok \<and>
     channel_post ref_lib sample_core 0 (enc forged_json) [sample_post] = []"
proof -
  obtain r v where rv: "post_handler ref_lib sample_core 0 0 ''/posts/visualization''
      (enc forged_json) sample_store new_response = (r, v)" by fastforce
  have at: "at_str ref_lib forged_json ''cmd'' = Some ''delete''"
    "at_str ref_lib forged_json ''post_id'' = Some ''a1''"
    "at_str ref_lib forged_json ''from'' = Some ''ann''"
    by (simp_all add: at_str_def forged_json_def)
  from visualization_forwards_commands [OF ref_json_laws _ at rv]
  have "rs_status r = Status_ok" "channel_post ref_lib sample_core 0 (enc forged_json) [sample_post] =
      snd (remove_post ''a1'' ''ann'' (''ann'' = c_chat_admin_id sample_core) [sample_post])"
    by simp_all
  with rv show ?thesis by (simp add: remove_post_find sample_store_facts)
qed

section \<open>Loading the posts\<close>

lemma hvals_posts:
  "posts (on_hvals L cfg now msgs w) = fold (\<lambda>m. fold channel_exec (node_cmds L cfg m)) msgs (posts w)"
proof -
  have "posts (fold (on_db_channel_post L cfg now) msgs w) =
      fold (\<lambda>m. fold channel_exec (node_cmds L cfg m)) msgs (posts w)"
    by (induction msgs arbitrary: w) (simp_all add: on_db_channel_post_def channel_post_cmds)
  then show ?thesis by (simp add: on_hvals_def Let_def)
qed

lemma hvals_cores:
  assumes "sorted_posts (posts w)" "list_all2 (\<lambda>m p. node_cmds L cfg m = [Add_cmd p]) msgs ps"
  shows "sorted_posts (posts (on_hvals L cfg now msgs w))"
    "post_cores (posts (on_hvals L cfg now msgs w)) = post_cores ps + post_cores (posts w)"
proof -
  have f: "fold (\<lambda>m. fold channel_exec (node_cmds L cfg m)) msgs xs = fold add_post ps xs" for xs
    using assms(2) by (induction arbitrary: xs rule: list_all2_induct) simp_all
  have "sorted_posts (fold add_post ps xs)" if "sorted_posts xs" for xs
    using that by (induction ps arbitrary: xs) (simp_all add: sorted_add_post)
  with assms(1) show "sorted_posts (posts (on_hvals L cfg now msgs w))"
    by (simp add: hvals_posts f)
  show "post_cores (posts (on_hvals L cfg now msgs w)) = post_cores ps + post_cores (posts w)"
    using chan.run_adds [OF assms(1), of ps] by (simp add: hvals_posts f post_cores_def)
qed

text \<open>When the connection to redis is lost and established again, the posts are loaded once more into
  a store that still holds them: every post is then in memory twice, and searches report it
  twice.\<close>

lemma reconnect_duplicates:
  assumes "list_all2 (\<lambda>m p. node_cmds L cfg m = [Add_cmd p]) msgs ps" "posts w = []"
  shows "post_cores (posts (on_hvals L cfg now msgs w)) = post_cores ps
    \<and> post_cores (posts (on_hvals L cfg now' msgs (on_hvals L cfg now msgs w))) =
        post_cores ps + post_cores ps"
  using hvals_cores [OF _ assms(1), of w now]
    hvals_cores [OF _ assms(1), of "on_hvals L cfg now msgs w" now'] assms(2)
  by (simp add: post_cores_def)

end
