(* ===== verification/Http_Facts.thy ===== *)
theory Http_Facts
  imports Publishing
begin

text \<open>
  The HTTP interface: which requests are served, what every response carries, and what a request can
  change in the worker.
\<close>

section \<open>Routes\<close>

lemma route_matches_eq: "route_matches t r \<longleftrightarrow> t = r"
proof
  assume m: "route_matches t r"
  then have "min (length t) (length r + 1) = length r"
    by (metis route_matches_def length_take)
  then have "length t = length r" by simp
  with m show "t = r" by (simp add: route_matches_def)
qed (simp add: route_matches_def)

definition post_routes :: "string set" where
  "post_routes = {''/posts/count'', ''/posts/visualization'', ''/posts/search'',
     ''/posts/upload-credit'', ''/posts/delete'', ''/posts/publish'', ''/get-user-id''}"

text \<open>The routes that may change the worker or make it talk to redis.\<close>

definition writing_routes :: "string set" where
  "writing_routes = {''/posts/visualization'', ''/posts/upload-credit'', ''/posts/delete'',
     ''/posts/publish'', ''/get-user-id''}"

definition not_found :: "response \<Rightarrow> bool" where
  "not_found r \<longleftrightarrow> rs_status r = Status_not_found \<and> rs_body r = ''File not found'' @ crlf \<and>
     rs_content_type r = Some ''text/plain''"

text \<open>Requests are dispatched on the exact method and target: a POST is served only on one of seven
  targets (no longer, shorter or query-carrying target matches, although the comparison is against a
  prefix of the target), and a GET only for the statistics; everything else is answered with 404, or
  400 for other methods, and leaves the worker as it is. Only five routes can change anything.\<close>

lemma http_dispatch:
  "(q_method req = Verb_post \<and> q_target req \<notin> post_routes \<or>
      q_method req = Verb_get \<and> prepare_target (q_target req) CHR ''/'' \<noteq> ''stats'' \<longrightarrow>
      not_found (fst (process_request L cfg now ret0 req w)))
    \<and> (q_method req \<notin> {Verb_get, Verb_post} \<longrightarrow>
        rs_status (fst (process_request L cfg now ret0 req w)) = Status_bad_request)
    \<and> (\<not> (q_method req = Verb_post \<and> q_target req \<in> writing_routes) \<longrightarrow>
        snd (process_request L cfg now ret0 req w) = w)"
  by (cases "q_method req")
    (simp_all add: process_request_def get_handler_def post_handler_def default_handler_def Let_def
      route_matches_eq post_routes_def writing_routes_def not_found_def finish_response_def
      set_not_fount_header_def set_body_def)

text \<open>Every response, of every route and in every error case, states the length of exactly the body
  it carries, allows the configured origin, and closes the connection.\<close>

lemma response_complete:
  "let r = fst (process_request L cfg now ret0 req w) in
     rs_content_length r = Some (length (rs_body r)) \<and>
     rs_allow_origin r = Some (c_http_allow_origin cfg) \<and> \<not> rs_keep_alive r"
proof -
  have fin: "rs_content_length (finish_response cfg r) = Some (length (rs_body (finish_response cfg r)))"
    "rs_allow_origin (finish_response cfg r) = Some (c_http_allow_origin cfg)"
    "rs_keep_alive (finish_response cfg r) = rs_keep_alive r" for r
    by (simp_all add: finish_response_def)
  have nf: "rs_keep_alive (set_not_fount_header r) = rs_keep_alive r"
    "rs_keep_alive (set_body t b r) = rs_keep_alive r" for r t b
    by (simp_all add: set_not_fount_header_def set_body_def)
  have ka: "rs_keep_alive (post_search_handler L cfg ret0 oc body w r) = rs_keep_alive r"
    "rs_keep_alive (fst (post_visualization_handler L cfg body w r)) = rs_keep_alive r"
    "rs_keep_alive (fst (post_upload_credit_handler L cfg w r)) = rs_keep_alive r"
    "rs_keep_alive (fst (post_delete_handler L cfg body w r)) = rs_keep_alive r"
    "rs_keep_alive (fst (post_publish_handler L cfg now body w r)) = rs_keep_alive r"
    "rs_keep_alive (fst (get_user_id_handler L cfg w r)) = rs_keep_alive r"
    "rs_keep_alive (stats_handler w r) = rs_keep_alive r" for oc body r
    by (simp_all add: post_search_handler_def post_visualization_handler_def Let_def nf
        post_upload_credit_handler_def post_delete_handler_def post_publish_handler_def
        get_user_id_handler_def stats_handler_def
        split: option.splits prod.splits sum.splits dir_error.splits)
  show ?thesis
    unfolding Let_def
    by (cases "q_method req")
      (simp_all add: process_request_def get_handler_def post_handler_def default_handler_def
        Let_def fin nf ka case_prod_beta)
qed

section \<open>Errors\<close>

text \<open>A POST whose body is not JSON is answered with 404 and changes nothing, on every route that
  reads its body (searches accept an empty body as the query for everything).\<close>

lemma malformed_body:
  assumes "jparse L body = None"
    "t \<in> {''/posts/visualization'', ''/posts/delete'', ''/posts/publish''} \<or>
     t \<in> {''/posts/count'', ''/posts/search''} \<and> body \<noteq> ''''"
  shows "snd (post_handler L cfg now ret0 t body w resp) = w \<and>
    not_found (fst (post_handler L cfg now ret0 t body w resp))"
  using assms(2,1)
  by (elim disjE insertE emptyE conjE)
    (simp_all add: post_handler_def route_matches_eq Let_def post_search_handler_def search_query_def
      post_visualization_handler_def on_visualization_def post_delete_handler_def
      post_publish_handler_def finish_response_def not_found_def set_not_fount_header_def
      set_body_def)

section \<open>Searching over HTTP\<close>

text \<open>C40: a search over HTTP sends every post in memory that matches the query, in their order and in
  their JSON form (a body that is empty asks for the posts matching the empty post), however many
  they are: the maximum of posts on a search, which the configuration documents, has no effect on
  the answer.\<close>

theorem http_search_unlimited:
  assumes "json_laws L" "search_query L body = Some q"
    "jdump L (jobject L [(''posts'', of_arr L (map (to_json L) (filter (post_matches q) (posts w))))]) = Some out"
    "post_handler L cfg now ret0 ''/posts/search'' body w resp = (r, v)"
  shows "rs_body r = out @ crlf \<and> rs_status r = Status_ok \<and> v = w
    \<and> (\<exists>j. jparse L out = Some j \<and>
         jat L j ''posts'' = Some (of_arr L (map (to_json L) (filter (post_matches q) (posts w)))))
    \<and> (\<forall>n. post_handler L (cfg\<lparr>c_max_posts_on_search := n\<rparr>) now ret0 ''/posts/search'' body w resp = (r, v))"
proof -
  have "rs_body r = out @ crlf \<and> rs_status r = Status_ok \<and> v = w"
    using assms(2-4)
    by (auto simp: post_handler_def route_matches_eq Let_def post_search_handler_def
        search_posts_def channel_query_filter finish_response_def)
  moreover have "jat L (jobject L [(''posts'', x)]) ''posts'' = Some x" for x
    using assms(1) by (simp add: json_simps)
  moreover have "post_handler L (cfg\<lparr>c_max_posts_on_search := n\<rparr>) now ret0 ''/posts/search'' body w resp =
      post_handler L cfg now ret0 ''/posts/search'' body w resp" for n
    by (simp add: post_handler_def route_matches_eq Let_def post_search_handler_def assms(2)
        search_posts_def channel_query_filter finish_response_def)
  ultimately show ?thesis using parse_dump [OF assms(1,3)] assms(4) by auto
qed

text \<open>With a maximum of one, two posts are sent.\<close>

theorem http_search_unlimited_witness:
  "\<exists>r out j. post_handler ref_lib (sample_core\<lparr>c_max_posts_on_search := 1\<rparr>) 0 0 ''/posts/search'' ''''
       (sample_store\<lparr>posts := [sample_post, sample_post]\<rparr>) new_response =
         (r, sample_store\<lparr>posts := [sample_post, sample_post]\<rparr>)
     \<and> rs_body r = out @ crlf \<and> jparse ref_lib out = Some j
     \<and> jat ref_lib j ''posts'' = Some (of_arr ref_lib [to_json ref_lib sample_post, to_json ref_lib sample_post])"
proof -
  let ?w = "sample_store\<lparr>posts := [sample_post, sample_post]\<rparr>"
  obtain r v where rv: "post_handler ref_lib sample_core 0 0 ''/posts/search'' '''' ?w
      new_response = (r, v)" by fastforce
  have q: "search_query ref_lib '''' = Some empty_post" by (simp add: search_query_def)
  have m: "post_matches empty_post sample_post"
    by (simp add: post_matches_def empty_post_def sample_post_def)
  show ?thesis using http_search_unlimited [OF ref_json_laws q _ rv] m by auto
qed

section \<open>Upload credits\<close>

definition well_formed_credit :: "'j extern \<Rightarrow> core \<Rightarrow> string \<Rightarrow> bool" where
  "well_formed_credit L cfg c \<longleftrightarrow>
     (\<exists>f d path. length f = mms_filename_size \<and> set f \<subseteq> set pwdchars \<and> make_dir f = Inr d \<and>
        path = ''/posts/imgs'' @ d @ ''/'' @ f @ ''.jpeg'' \<and>
        c = c_mms_host cfg @ path @ ''?hmac='' @ make_hex_digest L path (c_mms_key cfg))"

lemma upload_credit_form:
  assumes "rng_laws L" "upload_credit L cfg w = (Inr c, v)"
  shows "well_formed_credit L cfg c"
proof -
  obtain f g where f: "pwd_make L (of_nat mms_filename_size) (gen w) = (f, g)" by fastforce
  have "set f \<subseteq> set pwdchars" using set_pwd_make [OF assms(1), of "of_nat mms_filename_size" "gen w"] f
    by simp
  moreover have "length f = mms_filename_size" using f by (auto simp: pwd_make_eq sz_defs)
  moreover obtain d where "make_dir f = Inr d"
    "c = c_mms_host cfg @ (''/posts/imgs'' @ d @ ''/'' @ f @ ''.jpeg'') @ ''?hmac='' @
       make_hex_digest L (''/posts/imgs'' @ d @ ''/'' @ f @ ''.jpeg'') (c_mms_key cfg)"
    using assms(2) f by (auto simp: upload_credit_def Let_def split: sum.splits)
  ultimately show ?thesis unfolding well_formed_credit_def by blast
qed

lemma credit_loop_form:
  "rng_laws L \<Longrightarrow> credit_loop L cfg n w = (Inr cs, v) \<Longrightarrow> c \<in> set cs \<Longrightarrow> well_formed_credit L cfg c"
proof (induction n arbitrary: w cs v)
  case (Suc n)
  obtain x u where cu: "upload_credit L cfg w = (x, u)" by fastforce
  with Suc.prems obtain a cs' where a: "x = Inr a" "credit_loop L cfg n u = (Inr cs', v)" "cs = a # cs'"
    by (auto split: sum.splits prod.splits)
  with Suc.IH [OF Suc.prems(1) a(2)] upload_credit_form [OF Suc.prems(1), of cfg w a u] cu Suc.prems(3)
  show ?case by auto
qed simp

text \<open>Asking for upload credit never fails and yields eight links; each names a fresh random file in
  the directory of its first four characters on the media host and carries the keyed hash of exactly
  that path, which the media server checks.\<close>

lemma upload_credit_links:
  assumes "rng_laws L"
  shows "\<exists>cs v. get_upload_credit L cfg w = (Inr cs, v) \<and> length cs = mms_filename_size \<and>
    (\<forall>c \<in> set cs. well_formed_credit L cfg c) \<and> posts v = posts w \<and> redis_out v = redis_out w"
proof -
  obtain cs v where c: "credit_loop L cfg mms_filename_size w = (Inr cs, v)" "length cs = mms_filename_size"
    using credit_loop_ok [OF assms] by blast
  have out: "redis_out v = redis_out w" if "credit_loop L cfg n w = (r, v)" for n w r v
    using that
  proof (induction n arbitrary: w r)
    case (Suc n)
    obtain x u where cu: "upload_credit L cfg w = (x, u)" by fastforce
    then have "redis_out u = redis_out w"
      by (auto simp: upload_credit_def Let_def split: prod.splits sum.splits)
    with Suc cu show ?case by (auto split: sum.splits prod.splits)
  qed simp
  have "posts v = posts w"
    by (rule quiet_posts_same [OF quiet_credit_loop [OF c(1)]])
  with c out [OF c(1)] credit_loop_form [OF assms c(1)] show ?thesis
    by (auto simp: get_upload_credit_def)
qed

section \<open>Targets\<close>

text \<open>The target of a GET loses its leading slash but keeps a trailing one, contrary to the comment on
  \<open>prepare_target\<close>, when it has both: \<open>/stats/\<close> is not served.\<close>

lemma trailing_slash_kept:
  assumes "1 < length t" "hd t = s" "last t = s"
  shows "prepare_target t s = tl t \<and> last (prepare_target t s) = s"
  using assms by (cases t) (auto simp: prepare_target_def)

end
