(* ===== verification/Connection.thy ===== *)
theory Connection
  imports Http_Facts
begin

text \<open>
  The life of a connection before it is a websocket: detection of TLS (\<open>detect_session\<close> in
  \<open>src/acceptor_mgr.cpp\<close>), the handshake and the shutdown of TLS (\<open>src/http_ssl_session.cpp\<close>),
  plain connections (\<open>src/http_plain_session.hpp\<close>) and the request and response of the HTTP
  session. A connection is the operation it has outstanding and the time limit set on its stream.
\<close>

section \<open>The state and the handlers\<close>

datatype conn_phase =
    Created
  | Detecting
  | Tls_handshake
  | Reading_request
  | Writing_response response
  | Tls_shutdown
  | Upgraded
  | Gone

text \<open>
  \<open>Created\<close>: nothing has been started. \<open>hc_expires\<close>: the seconds given to \<open>expires_after\<close>; \<open>None\<close>
  after \<open>expires_never\<close> and on a new stream. The session that the detection starts has a stream of
  its own for the socket it takes over (\<open>release_socket\<close>), and so no time limit to begin with.
\<close>

record http_conn =
  hc_phase :: conn_phase
  hc_ssl :: bool
  hc_expires :: "c_long option"

definition detect_run :: http_conn where
  "detect_run = \<lparr> hc_phase = Detecting, hc_ssl = False, hc_expires = Some 30 \<rparr>"

definition http_plain_session :: http_conn where
  "http_plain_session = \<lparr> hc_phase = Created, hc_ssl = False, hc_expires = None \<rparr>"

definition http_ssl_session :: http_conn where
  "http_ssl_session = \<lparr> hc_phase = Created, hc_ssl = True, hc_expires = None \<rparr>"

definition plain_run :: "c_long \<Rightarrow> http_conn \<Rightarrow> http_conn" where
  "plain_run t c = c\<lparr>hc_expires := Some t, hc_phase := Reading_request\<rparr>"

definition ssl_run :: "c_long \<Rightarrow> http_conn \<Rightarrow> http_conn" where
  "ssl_run t c = c\<lparr>hc_expires := Some t, hc_phase := Tls_handshake\<rparr>"

definition on_detect :: "core \<Rightarrow> bool \<Rightarrow> bool \<Rightarrow> http_conn \<Rightarrow> http_conn" where
  "on_detect cfg ec is_tls c =
     (if ec then c\<lparr>hc_phase := Gone\<rparr>
      else
        let timeout = scast (c_http_session_timeout cfg)
        in if is_tls then ssl_run timeout http_ssl_session
           else plain_run timeout http_plain_session)"

definition on_handshake :: "bool \<Rightarrow> http_conn \<Rightarrow> http_conn" where
  "on_handshake ec c = c\<lparr>hc_phase := (if ec then Gone else Reading_request)\<rparr>"

text \<open>\<open>do_eof\<close> of a plain session shuts the sending side down at once; nothing owns it then.\<close>

definition plain_eof :: "http_conn \<Rightarrow> http_conn" where
  "plain_eof c = c\<lparr>hc_phase := Gone\<rparr>"

definition ssl_eof :: "c_long \<Rightarrow> http_conn \<Rightarrow> http_conn" where
  "ssl_eof t c = c\<lparr>hc_expires := Some t, hc_phase := Tls_shutdown\<rparr>"

definition do_eof :: "core \<Rightarrow> http_conn \<Rightarrow> http_conn" where
  "do_eof cfg c =
     (let n = scast (c_ssl_shutdown_timeout cfg) in if hc_ssl c then ssl_eof n c else plain_eof c)"

definition conn_on_read ::
  "'j extern \<Rightarrow> core \<Rightarrow> c_long \<Rightarrow> c_int \<Rightarrow> read_result \<Rightarrow> request \<Rightarrow> http_conn \<Rightarrow> worker \<Rightarrow>
     http_conn \<times> worker" where
  "conn_on_read L cfg now ret0 ec req c w =
     (case http_on_read L cfg now ret0 ec req w of
        (Do_eof, w) \<Rightarrow> (do_eof cfg c, w)
      | (Drop, w) \<Rightarrow> (c\<lparr>hc_phase := Gone\<rparr>, w)
      | (Upgrade, w) \<Rightarrow> (c\<lparr>hc_expires := None, hc_phase := Upgraded\<rparr>, w)
      | (Respond resp, w) \<Rightarrow> (c\<lparr>hc_phase := Writing_response resp\<rparr>, w))"

text \<open>Whether the write succeeded or not, the connection is ended.\<close>

definition http_on_write :: "core \<Rightarrow> bool \<Rightarrow> http_conn \<Rightarrow> http_conn" where
  "http_on_write cfg ec c = do_eof cfg c"

definition on_ssl_shutdown :: "bool \<Rightarrow> http_conn \<Rightarrow> http_conn" where
  "on_ssl_shutdown ec c = c\<lparr>hc_phase := Gone\<rparr>"

section \<open>Runs\<close>

inductive conn_step ::
  "'j extern \<Rightarrow> core \<Rightarrow> http_conn \<times> worker \<Rightarrow> http_conn \<times> worker \<Rightarrow> bool" for L cfg where
  c_detect: "hc_phase c = Detecting \<Longrightarrow> conn_step L cfg (c, w) (on_detect cfg ec is_tls c, w)"
| c_handshake: "hc_phase c = Tls_handshake \<Longrightarrow> conn_step L cfg (c, w) (on_handshake ec c, w)"
| c_read: "hc_phase c = Reading_request \<Longrightarrow>
     conn_step L cfg (c, w) (conn_on_read L cfg now ret0 ec req c w)"
| c_write: "hc_phase c = Writing_response resp \<Longrightarrow> conn_step L cfg (c, w) (http_on_write cfg ec c, w)"
| c_shutdown: "hc_phase c = Tls_shutdown \<Longrightarrow> conn_step L cfg (c, w) (on_ssl_shutdown ec c, w)"

text \<open>Between two handlers of a connection the worker may change in any way.\<close>

inductive conn_run :: "'j extern \<Rightarrow> core \<Rightarrow> nat \<Rightarrow> http_conn \<Rightarrow> bool" for L cfg where
  cr_start: "conn_run L cfg 0 detect_run"
| cr_step: "conn_run L cfg n c \<Longrightarrow> conn_step L cfg (c, w) (c', w') \<Longrightarrow> conn_run L cfg (Suc n) c'"

lemmas conn_defs = on_detect_def on_handshake_def conn_on_read_def http_on_write_def
  on_ssl_shutdown_def do_eof_def ssl_eof_def plain_eof_def ssl_run_def plain_run_def http_ssl_session_def
  http_plain_session_def

text \<open>How many completions a phase can still see at most.\<close>

fun conn_rank :: "conn_phase \<Rightarrow> nat" where
  "conn_rank Created = 6"
| "conn_rank Detecting = 5"
| "conn_rank Tls_handshake = 4"
| "conn_rank Reading_request = 3"
| "conn_rank (Writing_response r) = 2"
| "conn_rank Tls_shutdown = 1"
| "conn_rank Upgraded = 0"
| "conn_rank Gone = 0"

lemma conn_step_rank: "conn_step L cfg (c, w) (c', w') \<Longrightarrow> conn_rank (hc_phase c') < conn_rank (hc_phase c)"
  by (cases rule: conn_step.cases)
    (auto simp: conn_defs Let_def split: if_splits prod.splits http_action.splits)

text \<open>The time limit that is set while a phase lasts.\<close>

fun limit_of :: "core \<Rightarrow> conn_phase \<Rightarrow> c_long" where
  "limit_of cfg Detecting = 30"
| "limit_of cfg Tls_shutdown = scast (c_ssl_shutdown_timeout cfg)"
| "limit_of cfg _ = scast (c_http_session_timeout cfg)"

definition limit_ok :: "core \<Rightarrow> http_conn \<Rightarrow> bool" where
  "limit_ok cfg c \<longleftrightarrow> hc_phase c \<noteq> Created \<and>
     (hc_phase c = Gone \<or> hc_phase c = Upgraded \<or> hc_expires c = Some (limit_of cfg (hc_phase c)))"

lemma conn_step_limit: "conn_step L cfg (c, w) (c', w') \<Longrightarrow> limit_ok cfg c \<Longrightarrow> limit_ok cfg c'"
  by (cases rule: conn_step.cases)
    (auto simp: limit_ok_def conn_defs Let_def split: if_splits prod.splits http_action.splits)

lemma conn_step_source: "conn_step L cfg (c, w) r \<Longrightarrow> hc_phase c \<noteq> Upgraded \<and> hc_phase c \<noteq> Gone"
  by (cases rule: conn_step.cases) auto

text \<open>C37: an HTTP connection always comes to an end: after at most five completions (TLS detection,
  handshake, request, response, TLS shutdown), whatever the client sends and whatever fails, it is
  gone or has become a websocket, and as long as it is neither, a time limit is set on its stream,
  thirty seconds for the detection, the configured limits for the session and for the TLS shutdown,
  and the completion it waits for leads on.\<close>

theorem connection_ends:
  assumes "conn_run L cfg n c"
  shows "n + conn_rank (hc_phase c) \<le> 5
    \<and> (if hc_phase c = Gone \<or> hc_phase c = Upgraded then True
       else hc_expires c = Some (case hc_phase c of Detecting \<Rightarrow> 30
           | Tls_shutdown \<Rightarrow> scast (c_ssl_shutdown_timeout cfg)
           | _ \<Rightarrow> scast (c_http_session_timeout cfg))
         \<and> (\<exists>c' w'. conn_step L cfg (c, w) (c', w')))"
proof -
  from assms have inv: "n + conn_rank (hc_phase c) \<le> 5 \<and> limit_ok cfg c"
  proof induction
    case cr_start
    show ?case by (simp add: detect_run_def limit_ok_def)
  next
    case (cr_step n c w c' w')
    with conn_step_rank [OF cr_step.hyps(2)] conn_step_limit [OF cr_step.hyps(2)]
    show ?case by auto
  qed
  have "\<exists>c' w'. conn_step L cfg (c, w) (c', w')"
    if "hc_phase c \<noteq> Gone" "hc_phase c \<noteq> Upgraded"
  proof (cases "hc_phase c")
    case Reading_request
    from c_read [OF this, of L cfg w] show ?thesis
      by (metis surj_pair)
  qed (use that inv in \<open>auto simp: limit_ok_def intro: conn_step.intros\<close>)
  with inv show ?thesis by (cases "hc_phase c") (auto simp: limit_ok_def)
qed

theorem connection_ends_witness:
  "\<exists>c. conn_run ref_lib sample_core 1 c \<and> hc_phase c = Tls_handshake
     \<and> hc_expires c = Some (scast (c_http_session_timeout sample_core))"
proof -
  let ?c = "on_detect sample_core False True detect_run"
  have "conn_step ref_lib sample_core (detect_run, init_worker) (?c, init_worker)"
    by (rule c_detect) (simp add: detect_run_def)
  from cr_step [OF cr_start this] have run: "conn_run ref_lib sample_core 1 ?c" by simp
  have "hc_phase ?c = Tls_handshake" by (simp add: conn_defs Let_def)
  with connection_ends [OF run] run show ?thesis by auto
qed

end
