(* ===== verification/Subscriptions.thy ===== *)
theory Subscriptions
  imports Messages Session_End
begin

text \<open>
  The channels of redis a node has asked for. Redis tells a node about new messages and presence of a
  user on two channels; \<open>on_app_login\<close> subscribes to them and \<open>on_session_dtor\<close> unsubscribes. Shown
  here: the subscriptions follow the table of logged in users, and what a new connection to redis,
  greeted by \<open>on_hello\<close>, makes of them.
\<close>

section \<open>Channels and commands\<close>

definition user_channels :: "core \<Rightarrow> string \<Rightarrow> string set" where
  "user_channels cfg u =
     {r_user_notify_prefix (c_redis cfg) @ u, r_presence_channel_prefix (c_redis cfg) @ u}"

text \<open>No channel of a user is the channel of another user, or that of the posts.\<close>

definition channels_apart :: "core \<Rightarrow> bool" where
  "channels_apart cfg \<longleftrightarrow>
     (\<forall>u v. u \<noteq> v \<longrightarrow> user_channels cfg u \<inter> user_channels cfg v = {}) \<and>
     (\<forall>u. r_posts_channel_key (c_redis cfg) \<notin> user_channels cfg u)"

fun subscribes :: "redis_cmd \<Rightarrow> string set \<Rightarrow> string set" where
  "subscribes (R_subscribe c) A = insert c A"
| "subscribes (R_unsubscribe c) A = A - {c}"
| "subscribes _ A = A"

definition asked :: "redis_cmd list \<Rightarrow> string set" where
  "asked cs = fold subscribes cs {}"

text \<open>The commands \<open>cs\<close> add the channels \<open>P\<close> and give up the channels \<open>N\<close>; the channel of the posts
  is left out.\<close>

definition acts :: "core \<Rightarrow> string set \<Rightarrow> string set \<Rightarrow> redis_cmd list \<Rightarrow> bool" where
  "acts cfg P N cs \<longleftrightarrow> (\<forall>A k. k \<noteq> r_posts_channel_key (c_redis cfg) \<longrightarrow>
     (k \<in> fold subscribes cs A \<longleftrightarrow> (k \<in> A \<or> k \<in> P) \<and> k \<notin> N))"

lemma acts_nil: "acts cfg {} {} []"
  by (simp add: acts_def)

lemma acts_after: "acts cfg P N cs \<Longrightarrow> acts cfg {} {} ds \<Longrightarrow> acts cfg P N (cs @ ds)"
  by (simp add: acts_def)

lemma acts_before: "acts cfg {} {} cs \<Longrightarrow> acts cfg P N ds \<Longrightarrow> acts cfg P N (cs @ ds)"
  by (simp add: acts_def)

lemma acts_free: "list_all (\<lambda>c. \<not> user_cmd c) cs \<Longrightarrow> acts cfg {} {} cs"
proof -
  have one: "subscribes c A = A" if "\<not> user_cmd c" for c A using that by (cases c) auto
  assume "list_all (\<lambda>c. \<not> user_cmd c) cs"
  then have "fold subscribes cs A = A" for A by (induction cs arbitrary: A) (simp_all add: one)
  then show ?thesis by (simp add: acts_def)
qed

lemma acts_login:
  "acts cfg (user_channels cfg u) {}
     [ R_subscribe (r_user_notify_prefix (c_redis cfg) @ u),
       R_subscribe (r_presence_channel_prefix (c_redis cfg) @ u), R_lrange key a b, R_del key' ]"
  by (auto simp: acts_def user_channels_def)

lemma acts_leave:
  "acts cfg {} (user_channels cfg u)
     [ R_unsubscribe (r_user_notify_prefix (c_redis cfg) @ u),
       R_unsubscribe (r_presence_channel_prefix (c_redis cfg) @ u) ]"
  by (auto simp: acts_def user_channels_def)

lemma acts_hello: "acts cfg {} {} [R_hvals key, R_subscribe (r_posts_channel_key (c_redis cfg))]"
  by (simp add: acts_def)

section \<open>What the handlers ask for\<close>

definition asks :: "core \<Rightarrow> string set \<Rightarrow> string set \<Rightarrow> worker \<Rightarrow> worker \<Rightarrow> bool" where
  "asks cfg P N w v \<longleftrightarrow> (\<exists>cs. redis_out v = redis_out w @ cs \<and> acts cfg P N cs)"

lemma asks_refl: "redis_out v = redis_out w \<Longrightarrow> asks cfg {} {} w v"
  using acts_nil by (auto simp: asks_def)

lemma asks_quiet: "quiet ok C w v \<Longrightarrow> asks cfg {} {} w v"
  using quiet_out [of ok C w v] acts_free by (auto simp: asks_def)

lemma asks_after: "asks cfg P N w v \<Longrightarrow> asks cfg {} {} v u \<Longrightarrow> asks cfg P N w u"
  by (auto simp: asks_def intro: acts_after)

lemma asks_before: "asks cfg {} {} w v \<Longrightarrow> asks cfg P N v u \<Longrightarrow> asks cfg P N w u"
  by (auto simp: asks_def intro: acts_before)

lemma asks_send: "acts cfg P N cs \<Longrightarrow> asks cfg P N w (redis_send cs w)"
  by (auto simp: asks_def)

lemma asks_cong: "redis_out w' = redis_out w \<Longrightarrow> redis_out v' = redis_out v \<Longrightarrow>
    asks cfg P N w' v' = asks cfg P N w v"
  by (simp add: asks_def)

lemma asks_store: "asks cfg {} {} w (store_chat_msg cfg ms u w)"
  by (rule asks_quiet [OF quiet_store [OF q_refl, where ok = True and C = "{}"]])

lemma asks_dtor:
  "asks cfg {} (if map_of (sessions w) u = None then {} else user_channels cfg u) w
     (on_session_dtor cfg u ms w)"
proof (cases "map_of (sessions w) u")
  case None
  then show ?thesis by (simp add: on_session_dtor_def asks_refl)
next
  case (Some s)
  let ?w = "redis_send [ R_unsubscribe (r_user_notify_prefix (c_redis cfg) @ u),
      R_unsubscribe (r_presence_channel_prefix (c_redis cfg) @ u) ]
      (w\<lparr>sessions := AList.delete u (sessions w)\<rparr>)"
  have "asks cfg {} (user_channels cfg u) w ?w"
    using acts_leave [of cfg u] by (auto simp: asks_def)
  from this asks_after [OF this asks_store] Some show ?thesis
    by (simp add: on_session_dtor_def Let_def)
qed

lemma asks_finish:
  assumes "heap w s = Some x" "pub_hash x \<noteq> '''' \<longrightarrow> map_of (sessions w) (pub_hash x) \<noteq> None"
  shows "asks cfg {} (if pub_hash x = '''' then {} else user_channels cfg (pub_hash x)) w (finish cfg s w)"
proof -
  obtain ms y where t: "take_undelivered x = (ms, y)" by fastforce
  let ?w = "upd_session s (\<lambda>_. y) (w\<lparr>number_of_sessions := number_of_sessions w - 1\<rparr>)"
  have "redis_out ?w = redis_out w" by simp
  then have "asks cfg {} N w (on_session_dtor cfg u ms ?w) = asks cfg {} N ?w (on_session_dtor cfg u ms ?w)"
    for u N by (simp add: asks_def)
  with asks_dtor [of cfg ?w "pub_hash x" ms] assms t take_undelivered_sel [OF t] show ?thesis
    by (auto simp: finish_def Let_def is_logged_in_def asks_refl split: if_splits)
qed

lemma login_asks:
  assumes L: "json_laws L" and run: "on_app_login L cfg j s w = (r, v)"
  shows "(asks cfg {} {} w v \<and> sessions v = sessions w) \<or>
    (\<exists>user key. at_str L j ''user'' = Some user \<and> at_str L j ''key'' = Some key \<and>
       make_hex_digest L user key \<noteq> '''' \<and>
       map_of (sessions v) = (map_of (sessions w))(make_hex_digest L user key \<mapsto> s) \<and>
       (asks cfg (user_channels cfg (make_hex_digest L user key)) {} w v \<or>
        r = None \<and> asks cfg {} {} w v))"
proof -
  let ?u = "do { user \<leftarrow> at_str L j ''user''; key \<leftarrow> at_str L j ''key''; Some (make_hex_digest L user key) }"
  show ?thesis
  proof (cases "\<exists>u. ?u = Some u \<and> u \<noteq> ''''")
    case False
    with run show ?thesis by (auto simp: on_app_login_def asks_refl split: option.splits)
  next
    case True
    then obtain user key where u: "at_str L j ''user'' = Some user" "at_str L j ''key'' = Some key"
      "make_hex_digest L user key \<noteq> ''''" by (auto split: bind_splits)
    let ?d = "make_hex_digest L user key"
    obtain k w1 where tok: "publish_token L cfg j ?d (enter ?d s w) = (k, w1)" by fastforce
    have w1: "asks cfg {} {} w w1" "map_of (sessions w1) = (map_of (sessions w))(?d \<mapsto> s)"
      using asks_quiet [OF quiet_token [OF tok, of True "{}"], of cfg]
        quiet_frame(1) [OF quiet_token [OF tok, of True "{}"]]
      by (simp_all add: asks_def register_map_of)
    have sub: "asks cfg (user_channels cfg ?d) {} w (subscribe_user cfg ?d w1)"
      using asks_before [OF w1(1) asks_send [OF acts_login]]
      by (simp add: subscribe_user_def Let_def asks_def)
    then have "asks cfg (user_channels cfg ?d) {} w (send_msg s resp False (subscribe_user cfg ?d w1))"
      for resp by (simp add: asks_def)
    moreover have "sessions (subscribe_user cfg ?d w1) = sessions w1"
      by (simp add: subscribe_user_def Let_def)
    ultimately show ?thesis
      using run u tok w1 sub by (auto simp: on_app_login_def Let_def split: option.splits)
  qed
qed

lemma app_asks:
  assumes L: "json_laws L" and run: "on_app L cfg now s msg w = (r, v)"
  shows "(asks cfg {} {} w v \<and> sessions v = sessions w) \<or>
    (\<exists>u. credentials L msg u \<and> map_of (sessions v) = (map_of (sessions w))(u \<mapsto> s) \<and>
       (asks cfg (user_channels cfg u) {} w v \<or> r = Unknown \<and> asks cfg {} {} w v))"
proof (cases "do { j \<leftarrow> jparse L msg; cmd \<leftarrow> at_str L j ''cmd''; Some (j, cmd) }")
  case None
  with run show ?thesis by (simp add: on_app_def asks_refl)
next
  case (Some jc)
  then obtain j c where j: "jparse L msg = Some j" "at_str L j ''cmd'' = Some c" "jc = (j, c)"
    by (auto split: bind_splits)
  have q: "asks cfg {} {} w v' \<and> sessions v' = sessions w" if "quiet True UNIV w v'" for v'
    using asks_quiet [OF that] quiet_frame(1) [OF that] by blast
  have pr: "asks cfg {} {} w v' \<and> sessions v' = sessions w"
    if "catch_unknown (on_app_presence L cfg j s w) = (r', v')" for r' v'
    using catch_unknown_snd [OF that] quiet_presence [OF L, where ok = True and C = UNIV] q by blast
  have ms: "asks cfg {} {} w v' \<and> sessions v' = sessions w"
    if "catch_unknown (on_app_chat_msg L cfg j s w) = (r', v')" for r' v'
    using catch_unknown_snd [OF that] quiet_chat_msg [OF L, where ok = True and C = UNIV] q by blast
  have pu: "asks cfg {} {} w v' \<and> sessions v' = sessions w"
    if "catch_unknown (on_app_publish L cfg now j s w) = (r', v')" for r' v'
    using catch_unknown_snd [OF that] quiet_publish [OF L, where ok = True and C = UNIV] q by blast
  have lo: ?thesis if c: "c = ''login''" and ca: "catch_unknown (on_app_login L cfg j s w) = (r, v)"
  proof -
    obtain r' where r': "on_app_login L cfg j s w = (r', v)" "r' = None \<longrightarrow> r = Unknown"
      using ca by (auto simp: catch_unknown_def split: prod.splits option.splits)
    from login_asks [OF L r'(1)] r'(2) j c show ?thesis unfolding credentials_def by blast
  qed
  from run j have "asks cfg {} {} w v \<and> sessions v = sessions w \<or>
      c = ''login'' \<and> catch_unknown (on_app_login L cfg j s w) = (r, v)"
    unfolding on_app_def by (auto split: if_splits simp: asks_refl dest: pr ms pu)
  with lo show ?thesis by blast
qed

section \<open>What a step asks for\<close>

lemma read_asks:
  fixes now ec msg
  assumes L: "json_laws L" and inv: "sinv cfg S" and p: "pending t Async_read (wk S)"
  defines "v \<equiv> on_read L cfg now ec msg t (wk S)"
  shows "(asks cfg {} {} (wk S) v \<and> map_of (sessions v) = map_of (sessions (wk S))) \<or>
    (\<exists>u. asks cfg {} (user_channels cfg u) (wk S) v \<and>
       map_of (sessions v) = (map_of (sessions (wk S)))(u := None)) \<or>
    (\<exists>u. \<not> ec \<and> credentials L msg u \<and> map_of (sessions v) = (map_of (sessions (wk S)))(u \<mapsto> t) \<and>
       (asks cfg (user_channels cfg u) {} (wk S) v \<or> asks cfg {} {} (wk S) v \<and> shutting t v))"
proof -
  let ?w = "upd_session t (complete_op Async_read) (wk S)"
  from reading [OF inv p] obtain x where x: "heap (wk S) t = Some x" "t \<in> readers (wk S)" by blast
  show ?thesis
  proof (cases ec)
    case True
    have h: "heap ?w t = Some (complete_op Async_read x)" using x by (simp add: heap_upd_session)
    have "pub_hash x \<noteq> '''' \<longrightarrow> map_of (sessions ?w) (pub_hash x) \<noteq> None"
      using table_inv_logged_in [OF sinvD(2) [OF inv] x(2,1)] by simp
    moreover have "pub_hash (complete_op Async_read x) = pub_hash x" by (simp add: complete_op_def)
    ultimately have
      "asks cfg {} (if pub_hash x = '''' then {} else user_channels cfg (pub_hash x)) ?w v"
      using asks_finish [OF h, of cfg] True
      by (cases "pub_hash x = ''''") (simp_all add: v_def on_read_def Let_def)
    then have
      "asks cfg {} (if pub_hash x = '''' then {} else user_channels cfg (pub_hash x)) (wk S) v"
      by (simp add: asks_def)
    moreover have "map_of (sessions v) =
        (if pub_hash x = '''' then map_of (sessions (wk S)) else (map_of (sessions (wk S)))(pub_hash x := None))"
      using True by (simp add: v_def on_read_def Let_def finish_sessions [OF h] delete_conv fun_eq_iff complete_op_def)
    ultimately show ?thesis by (cases "pub_hash x = ''''") auto
  next
    case False
    obtain r w1 where app: "on_app L cfg now t msg ?w = (r, w1)" by fastforce
    then have v: "v = upd_session t do_read (upd_session t (handle_ev r) w1)"
      using False by (simp add: v_def on_read_def Let_def)
    have "closing (do_read (handle_ev Unknown y))" for y
      by (simp add: handle_ev_def ws_shutdown_def do_read_def start_op_def)
    then have "shutting t v" if "r = Unknown"
      using that by (auto simp: v shutting_def heap_upd_session)
    with app_asks [OF L app] False show ?thesis
      by (auto simp: v asks_def)
  qed
qed

lemma step_asks:
  assumes L: "json_laws L" and inv: "sinv cfg S" and step: "sys_step L cfg S e S'"
  shows "(asks cfg {} {} (wk S) (wk S') \<and> map_of (sessions (wk S')) = map_of (sessions (wk S))) \<or>
    (\<exists>u. asks cfg {} (user_channels cfg u) (wk S) (wk S') \<and>
       map_of (sessions (wk S')) = (map_of (sessions (wk S)))(u := None)) \<or>
    (\<exists>now msg t u. e = E_read now False msg t \<and> credentials L msg u \<and>
       map_of (sessions (wk S')) = (map_of (sessions (wk S)))(u \<mapsto> t) \<and>
       (asks cfg (user_channels cfg u) {} (wk S) (wk S') \<or>
        asks cfg {} {} (wk S) (wk S') \<and> shutting t (wk S')))"
proof -
  have q: "asks cfg {} {} (wk S) v \<and> sessions v = sessions (wk S)" if "quiet False UNIV (wk S) v" for v
    using asks_quiet [OF that] quiet_frame(1) [OF that] by blast
  have "asks cfg {} {} (wk S) (wk S') \<and> sessions (wk S') = sessions (wk S) \<or>
      (\<exists>now ec msg t. e = E_read now ec msg t)"
    using step
  proof cases
    case (s_http now ret0 ec req)
    obtain a w where aw: "http_on_read L cfg now ret0 ec req (wk S) = (a, w)" by fastforce
    have "asks cfg {} {} (wk S) w \<and> sessions w = sessions (wk S)" by (rule q [OF quiet_http [OF _ aw]]) simp
    with s_http aw show ?thesis
      by (auto simp: http_request_def make_session_def Let_def asks_def split: http_action.splits)
  next
    case (s_db now d)
    have "asks cfg {} {} (wk S) (on_db_event L cfg now d (wk S)) \<and>
        sessions (on_db_event L cfg now d (wk S)) = sessions (wk S)"
    proof (cases d)
      case Hello
      then show ?thesis using asks_send [OF acts_hello] by (simp add: on_hello_def)
    next
      case (Push v)
      show ?thesis
      proof (cases "length v = 3 \<and> v ! 0 = ''message'' \<and> v ! 2 = ''rpush''")
        case True
        have pair: "acts cfg {} {} [R_lrange k a b, R_del k']" for k a b k' by (simp add: acts_def)
        from push_rpush [OF True, of UNIV "wk S" L cfg now] show ?thesis
          using pair q [unfolded asks_def] by (auto simp: Push asks_def)
      qed (simp add: Push q quiet_push)
    qed (simp_all add: q quiet_hvals quiet_hgetall)
    with s_db show ?thesis by simp
  next
    case (s_lrange msgs)
    have "asks cfg {} {} (wk S) (on_db_chat_msg cfg u msgs (wk S)) \<and>
        sessions (on_db_chat_msg cfg u msgs (wk S)) = sessions (wk S)" for u
      by (rule q [OF quiet_db_chat_msg]) simp
    with s_lrange show ?thesis
      by (auto simp: on_lrange_def Let_def crash_def asks_def acts_nil)
  next
    case (s_signal ec)
    with q [OF quiet_signal] show ?thesis by simp
  next
    case (s_run t ec)
    then show ?thesis by (simp add: on_run_def Let_def asks_refl)
  qed (simp_all add: on_written_def on_close_def asks_refl)
  then show ?thesis
  proof (elim disjE exE)
    fix now ec msg t
    assume e: "e = E_read now ec msg t"
    with step have "pending t Async_read (wk S)" "wk S' = on_read L cfg now ec msg t (wk S)"
      by (auto elim: sys_step.cases)
    with read_asks [OF L inv, of t now ec msg] e show ?thesis by auto
  qed simp
qed

section \<open>The subscriptions follow the table\<close>

definition sub_inv :: "core \<Rightarrow> worker \<Rightarrow> bool" where
  "sub_inv cfg w \<longleftrightarrow> (\<forall>u.
     (user_channels cfg u \<inter> asked (redis_out w) \<noteq> {} \<longrightarrow> map_of (sessions w) u \<noteq> None) \<and>
     (\<forall>s. map_of (sessions w) u = Some s \<longrightarrow> \<not> shutting s w \<longrightarrow>
        user_channels cfg u \<subseteq> asked (redis_out w)))"

lemma asks_asked:
  "asks cfg P N w v \<Longrightarrow> k \<noteq> r_posts_channel_key (c_redis cfg) \<Longrightarrow>
     k \<in> asked (redis_out v) \<longleftrightarrow> (k \<in> asked (redis_out w) \<or> k \<in> P) \<and> k \<notin> N"
  by (auto simp: asks_def acts_def asked_def)

lemma asks_since:
  "asks cfg P N w v \<Longrightarrow> n \<le> length (redis_out w) \<Longrightarrow> k \<noteq> r_posts_channel_key (c_redis cfg) \<Longrightarrow>
     k \<in> asked (drop n (redis_out v)) \<longleftrightarrow> (k \<in> asked (drop n (redis_out w)) \<or> k \<in> P) \<and> k \<notin> N"
  by (auto simp: asks_def acts_def asked_def)

lemma channels_apartD:
  assumes "channels_apart cfg" "k \<in> user_channels cfg u"
  shows "k \<noteq> r_posts_channel_key (c_redis cfg)" "k \<in> user_channels cfg v \<longleftrightarrow> v = u"
  using assms unfolding channels_apart_def by blast+

lemma sub_inv_change:
  assumes ap: "channels_apart cfg" and inv: "sub_inv cfg w"
    and a: "asks cfg (if b then user_channels cfg u else {}) {} w v"
    and m: "map_of (sessions v) = map_of (sessions w) \<and> \<not> b \<or>
      map_of (sessions v) = (map_of (sessions w))(u \<mapsto> t) \<and> (b \<or> shutting t v)"
    and keep: "\<And>r q. map_of (sessions w) r = Some q \<Longrightarrow> shutting q w \<Longrightarrow> shutting q v"
  shows "sub_inv cfg v"
proof -
  have ch: "k \<in> asked (redis_out v) \<longleftrightarrow> k \<in> asked (redis_out w) \<or> b \<and> r = u"
    if "k \<in> user_channels cfg r" for k r
    using asks_asked [OF a channels_apartD(1) [OF ap that]] channels_apartD(2) [OF ap that, of u]
    by auto
  show ?thesis
    unfolding sub_inv_def
  proof (intro allI conjI impI)
    fix r
    assume "user_channels cfg r \<inter> asked (redis_out v) \<noteq> {}"
    then obtain k where "k \<in> user_channels cfg r" "k \<in> asked (redis_out w) \<or> b \<and> r = u"
      using ch by auto
    with inv m show "map_of (sessions v) r \<noteq> None"
      unfolding sub_inv_def by (auto split: if_splits)
  next
    fix r q
    assume "map_of (sessions v) r = Some q" "\<not> shutting q v"
    with m keep have "(map_of (sessions w) r = Some q \<and> \<not> shutting q w) \<or> b \<and> r = u"
      by (auto split: if_splits)
    with inv ch show "user_channels cfg r \<subseteq> asked (redis_out v)"
      unfolding sub_inv_def by blast
  qed
qed

lemma sub_inv_leave:
  assumes ap: "channels_apart cfg" and inv: "sub_inv cfg w"
    and a: "asks cfg {} (user_channels cfg u) w v"
    and m: "map_of (sessions v) = (map_of (sessions w))(u := None)"
    and keep: "\<And>r q. map_of (sessions w) r = Some q \<Longrightarrow> shutting q w \<Longrightarrow> shutting q v"
  shows "sub_inv cfg v"
proof -
  have ch: "k \<in> asked (redis_out v) \<longleftrightarrow> k \<in> asked (redis_out w) \<and> r \<noteq> u"
    if "k \<in> user_channels cfg r" for k r
    using asks_asked [OF a channels_apartD(1) [OF ap that]] channels_apartD(2) [OF ap that, of u]
    by auto
  show ?thesis
    unfolding sub_inv_def
  proof (intro allI conjI impI)
    fix r
    assume "user_channels cfg r \<inter> asked (redis_out v) \<noteq> {}"
    then obtain k where "k \<in> user_channels cfg r" "k \<in> asked (redis_out w)" "r \<noteq> u" using ch by auto
    with inv m show "map_of (sessions v) r \<noteq> None" unfolding sub_inv_def by auto
  next
    fix r q
    assume "map_of (sessions v) r = Some q" "\<not> shutting q v"
    with m keep have "map_of (sessions w) r = Some q" "\<not> shutting q w" "r \<noteq> u"
      by (auto split: if_splits)
    with inv ch show "user_channels cfg r \<subseteq> asked (redis_out v)"
      unfolding sub_inv_def by blast
  qed
qed

lemma sub_inv_step:
  assumes L: "json_laws L" and ap: "channels_apart cfg" and inv: "sinv cfg S"
    and sub: "sub_inv cfg (wk S)" and step: "sys_step L cfg S e S'"
  shows "sub_inv cfg (wk S')"
proof -
  have keep: "shutting q (wk S')" if "map_of (sessions (wk S)) r = Some q" "shutting q (wk S)" for r q
  proof -
    have "q < next_sid S"
      using table_inv_live [OF sinvD(2) [OF inv] that(1)] sinvD(5) [OF inv, of q] by (metis not_less)
    from burns_step [OF L step that(2) this] show ?thesis by (simp add: burns_def)
  qed
  note change = sub_inv_change [OF ap sub _ _ keep]
  from step_asks [OF L inv step] show ?thesis
  proof (elim disjE exE conjE)
    fix u
    assume "asks cfg {} (user_channels cfg u) (wk S) (wk S')"
      "map_of (sessions (wk S')) = (map_of (sessions (wk S)))(u := None)"
    then show ?thesis by (rule sub_inv_leave [OF ap sub _ _ keep])
  next
    assume "asks cfg {} {} (wk S) (wk S')" "map_of (sessions (wk S')) = map_of (sessions (wk S))"
    then show ?thesis using change [of False] by simp
  next
    fix t u
    assume "asks cfg (user_channels cfg u) {} (wk S) (wk S')"
      "map_of (sessions (wk S')) = (map_of (sessions (wk S)))(u \<mapsto> t)"
    then show ?thesis using change [of True u t] by simp
  next
    fix t u
    assume "asks cfg {} {} (wk S) (wk S')" "shutting t (wk S')"
      "map_of (sessions (wk S')) = (map_of (sessions (wk S)))(u \<mapsto> t)"
    then show ?thesis using change [of False u t] by simp
  qed
qed

lemma sub_inv_run:
  assumes "json_laws L" "channels_apart cfg" "sys_run L cfg es S"
  shows "sub_inv cfg (wk S)"
  using assms(3)
proof induction
  case start
  show ?case by (simp add: sub_inv_def init_sys_def init_worker_def asked_def)
next
  case (step es S e S')
  from sub_inv_step [OF assms(1,2) sinv_sys_run [OF assms(1) step.hyps(1)] step.IH step.hyps(2)]
  show ?case .
qed

section \<open>Properties\<close>

lemma sample_apart: "channels_apart sample_core"
  by (simp add: channels_apart_def user_channels_def sample_core_def default_redis_def)

text \<open>C17: the channels a node has asked redis for follow its table of users: it listens to the channels
  of no user who is not logged in on it, and to both channels of every user whose session is not
  being closed. (A login whose token is not a text enters the table and is refused before it
  subscribes; its session is closed at once.)\<close>

theorem subscriptions_follow_table:
  assumes "json_laws L" "channels_apart cfg" "sys_run L cfg es S"
  shows "(user_channels cfg u \<inter> asked (redis_out (wk S)) \<noteq> {} \<longrightarrow> map_of (sessions (wk S)) u \<noteq> None)
    \<and> (map_of (sessions (wk S)) u = Some s \<and> heap (wk S) s = Some x \<and> \<not> closing x \<longrightarrow>
        user_channels cfg u \<subseteq> asked (redis_out (wk S)))"
proof -
  have "\<not> shutting s (wk S)" if "heap (wk S) s = Some x" "\<not> closing x"
    using that by (simp add: shutting_def)
  with sub_inv_run [OF assms] show ?thesis unfolding sub_inv_def by blast
qed

theorem subscriptions_follow_table_witness:
  "user_channels sample_core (sample_id ''ann'') \<subseteq> asked (redis_out (wk sample_login))"
proof -
  obtain x where "map_of (sessions (wk sample_login)) (sample_id ''ann'') = Some 0"
    "heap (wk sample_login) 0 = Some x" "\<not> closing x"
    by (simp add: sample_login_eq)
  with subscriptions_follow_table [OF ref_json_laws sample_apart sample_login_run] show ?thesis
    by blast
qed

text \<open>Events that enter \<open>u\<close> anew or end the session \<open>s\<close>.\<close>

fun affects :: "'j extern \<Rightarrow> string \<Rightarrow> sid \<Rightarrow> event \<Rightarrow> bool" where
  "affects L u s (E_read now ec msg t) = (if ec then t = s else credentials L msg u)"
| "affects L u s _ = False"

text \<open>C32: after the connection to redis was lost and established again, a node does not listen to the
  channels of the users it serves: the greeting subscribes to the channel of the posts only. A user
  who stays logged in is told of no new message and no presence until he logs in again; whatever
  else happens on the node, none of the commands it sends on the new connection subscribes to his
  channels.\<close>

theorem reconnect_forgets_users:
  assumes "json_laws L" "channels_apart cfg" "sys_run L cfg es S"
    and "map_of (sessions (wk S)) u = Some s" "\<not> crashed (wk S)"
    and "sys_path L cfg (S\<lparr>wk := on_db_event L cfg now Hello (wk S)\<rparr>) fs S'"
    and "\<forall>e \<in> set fs. \<not> affects L u s e"
  shows "map_of (sessions (wk S')) u = Some s
    \<and> user_channels cfg u \<inter> asked (drop (length (redis_out (wk S))) (redis_out (wk S'))) = {}"
proof -
  let ?n = "length (redis_out (wk S))" and ?S = "S\<lparr>wk := on_db_event L cfg now Hello (wk S)\<rparr>"
  note run = sys_run.step [OF assms(3) s_db [OF assms(5)]]
  have "map_of (sessions (wk S')) u = Some s \<and> ?n \<le> length (redis_out (wk S'))
      \<and> user_channels cfg u \<inter> asked (drop ?n (redis_out (wk S'))) = {}"
    using assms(6,7)
  proof induction
    case p_refl
    with assms(2,4) show ?case
      by (auto simp: on_hello_def asked_def channels_apart_def)
  next
    case (p_step fs T e T')
    then have IH: "map_of (sessions (wk T)) u = Some s" "?n \<le> length (redis_out (wk T))"
      "user_channels cfg u \<inter> asked (drop ?n (redis_out (wk T))) = {}" "\<not> affects L u s e" by simp_all
    note inv = sinv_sys_run [OF assms(1) sys_path_run [OF p_step.hyps(1) run]]
    have entry: "map_of (sessions (wk T')) u = Some s"
      using step_sessions [OF assms(1) inv p_step.hyps(2)] IH(1,4)
        table_inv_logged_in [OF sinvD(2) [OF inv]] by auto
    have ask: "\<exists>P N. asks cfg P N (wk T) (wk T') \<and> P \<inter> user_channels cfg u = {}"
      using step_asks [OF assms(1) inv p_step.hyps(2)] IH(4) channels_apartD(2) [OF assms(2)]
      by (elim disjE exE conjE) (auto 0 3)
    then obtain P N where a: "asks cfg P N (wk T) (wk T')" "P \<inter> user_channels cfg u = {}" by blast
    have "k \<notin> asked (drop ?n (redis_out (wk T')))" if "k \<in> user_channels cfg u" for k
      using asks_since [OF a(1) IH(2) channels_apartD(1) [OF assms(2) that]] that a(2) IH(3) by blast
    moreover have "?n \<le> length (redis_out (wk T'))" using a(1) IH(2) by (auto simp: asks_def)
    ultimately show ?case using entry by blast
  qed
  then show ?thesis by blast
qed

theorem reconnect_forgets_users_witness:
  "\<exists>fs S'. sys_path ref_lib sample_core
       (sample_login\<lparr>wk := on_db_event ref_lib sample_core 0 Hello (wk sample_login)\<rparr>) fs S'
     \<and> fs = [E_signal True] \<and> map_of (sessions (wk S')) (sample_id ''ann'') = Some 0
     \<and> user_channels sample_core (sample_id ''ann'') \<inter>
         asked (drop (length (redis_out (wk sample_login))) (redis_out (wk S'))) = {}"
proof -
  let ?S = "sample_login\<lparr>wk := on_db_event ref_lib sample_core 0 Hello (wk sample_login)\<rparr>"
  have c: "\<not> crashed (wk sample_login)" "map_of (sessions (wk sample_login)) (sample_id ''ann'') = Some 0"
    by (simp_all add: sample_login_eq init_worker_def)
  have "sys_path ref_lib sample_core ?S ([] @ [E_signal True]) (?S\<lparr>wk := on_signal True (wk ?S)\<rparr>)"
    by (rule p_step [OF p_refl s_signal]) (simp add: c)
  then obtain T where p: "sys_path ref_lib sample_core ?S [E_signal True] T" by auto
  from reconnect_forgets_users [OF ref_json_laws sample_apart sample_login_run c(2,1) p] p
  show ?thesis by auto
qed

end
