(* ===== verification/Refinement.thy ===== *)
theory Refinement
  imports Publishing
begin

text \<open>
  An abstract specification of a node and the proof that the node implements it. The specification
  knows which connections are alive, which connection speaks for which user, and which posts are
  on the board; it has no streams, queues, counters, vectors or redis commands.
\<close>

section \<open>The specification\<close>

record spec =
  alive :: "sid set"
  who :: "string \<rightharpoonup> sid"
  board :: "post multiset"

text \<open>
  The board. A post is added whatever it is, and only the author or the administrator takes one
  away; a removal is without effect only if the post is not there or belongs to somebody else.
\<close>

inductive board_step :: "store_cmd \<Rightarrow> post multiset \<Rightarrow> post multiset \<Rightarrow> bool" where
  b_add: "board_step (Add_cmd p) b (add_mset (post_core p) b)"
| b_visual: "board_step (Visual_cmd i) b b"
| b_load: "board_step (Load_cmd v) b b"
| b_remove: "p_id c = i \<Longrightarrow> p_from c = a \<or> adm \<Longrightarrow> board_step (Remove_cmd i a adm) (add_mset c b) b"
| b_keep: "(\<forall>c \<in># b. p_id c \<noteq> i) \<or> (\<exists>c \<in># b. p_id c = i \<and> p_from c \<noteq> a \<and> \<not> adm) \<Longrightarrow>
     board_step (Remove_cmd i a adm) b b"

inductive board_run :: "store_cmd list \<Rightarrow> post multiset \<Rightarrow> post multiset \<Rightarrow> bool" where
  br_nil: "board_run [] b b"
| br_cons: "board_step c b b' \<Longrightarrow> board_run cs b' b'' \<Longrightarrow> board_run (c # cs) b b''"

text \<open>The events that change nothing the specification sees.\<close>

fun internal :: "event \<Rightarrow> bool" where
  "internal (E_run ec t) = ec"
| "internal (E_read now ec msg t) = False"
| "internal (E_db now d) = False"
| "internal _ = True"

inductive spec_step :: "'j extern \<Rightarrow> core \<Rightarrow> spec \<Rightarrow> event \<Rightarrow> spec \<Rightarrow> bool" for L cfg A where
  sp_connect: "t \<notin> alive A \<Longrightarrow>
     spec_step L cfg A (E_run False t) (A\<lparr>alive := insert t (alive A)\<rparr>)"
| sp_login: "t \<in> alive A \<Longrightarrow> t \<notin> ran (who A) \<Longrightarrow> credentials L msg u \<Longrightarrow>
     spec_step L cfg A (E_read now False msg t) (A\<lparr>who := (who A)(u \<mapsto> t)\<rparr>)"
| sp_message: "t \<in> alive A \<Longrightarrow> spec_step L cfg A (E_read now False msg t) A"
| sp_end: "t \<in> alive A \<Longrightarrow>
     spec_step L cfg A (E_read now True msg t)
       (A\<lparr>alive := alive A - {t}, who := (\<lambda>u. if who A u = Some t then None else who A u)\<rparr>)"
| sp_board: "set cs \<subseteq> db_cmds L cfg d \<Longrightarrow> board_run cs (board A) b \<Longrightarrow>
     spec_step L cfg A (E_db now d) (A\<lparr>board := b\<rparr>)"
| sp_internal: "internal e \<Longrightarrow> spec_step L cfg A e A"

inductive spec_run :: "'j extern \<Rightarrow> core \<Rightarrow> event list \<Rightarrow> spec \<Rightarrow> bool" for L cfg where
  spec_start: "spec_run L cfg [] \<lparr> alive = {}, who = Map.empty, board = {#} \<rparr>"
| spec_next: "spec_run L cfg es A \<Longrightarrow> spec_step L cfg A e A' \<Longrightarrow> spec_run L cfg (es @ [e]) A'"

text \<open>What the specification promises on its own account: everybody speaks for at most one user, and
  only connections that are alive speak.\<close>

lemma spec_speakers:
  assumes "spec_run L cfg es A"
  shows "ran (who A) \<subseteq> alive A \<and> inj_on (who A) (dom (who A))"
  using assms
proof induction
  case (spec_next es A e A')
  from spec_next.hyps(2) spec_next.IH show ?case
  proof cases
    case (sp_login t msg u now)
    with spec_next.IH show ?thesis
      by (auto simp: inj_on_def ran_def dom_def)
  qed (auto simp: inj_on_def ran_def dom_def split: if_splits)
qed simp

section \<open>The abstraction\<close>

definition abs_sys :: "sys \<Rightarrow> spec" where
  "abs_sys S = \<lparr> alive = readers (wk S), who = map_of (sessions (wk S)),
     board = post_cores (posts (wk S)) \<rparr>"

lemma abs_sys_sel [simp]:
  "alive (abs_sys S) = readers (wk S)" "who (abs_sys S) = map_of (sessions (wk S))"
  "board (abs_sys S) = post_cores (posts (wk S))"
  by (simp_all add: abs_sys_def)

lemma board_exec:
  assumes "sorted_posts ps"
  shows "board_step c (post_cores ps) (post_cores (channel_exec c ps))"
proof (cases c)
  case (Add_cmd p)
  with chan.cores_add [OF assms] show ?thesis by (simp add: b_add)
next
  case (Visual_cmd i)
  with chan.cores_visual [OF assms] show ?thesis by (simp add: b_visual)
next
  case (Load_cmd v)
  with chan.cores_load [OF assms] show ?thesis by (simp add: b_load)
next
  case (Remove_cmd i a adm)
  show ?thesis
  proof (cases "List.find (\<lambda>p. p_id p = i) ps")
    case None
    then have "\<forall>c \<in># post_cores ps. p_id c \<noteq> i" by (auto simp: find_None_iff post_cores_def)
    with None Remove_cmd show ?thesis by (auto simp: remove_post_find intro: b_keep)
  next
    case (Some r)
    then have r: "r \<in> set ps" "p_id r = i" by (auto simp: find_Some_iff)
    then have c: "post_cores ps = add_mset (post_core r) (post_cores (remove1 r ps))"
      "post_core r \<in># post_cores ps"
      by (simp_all add: post_cores_def image_mset_Diff)
    show ?thesis
    proof (cases "p_from r = a \<or> adm")
      case True
      then show ?thesis
        using Some Remove_cmd r by (simp add: remove_post_find) (subst c(1), rule b_remove, auto)
    next
      case False
      then show ?thesis
        using Some Remove_cmd r c(2)
        by (auto simp: remove_post_find intro!: b_keep disjI2 bexI [OF _ c(2)])
    qed
  qed
qed

lemma board_fold:
  "sorted_posts ps \<Longrightarrow> board_run cs (post_cores ps) (post_cores (fold channel_exec cs ps))"
proof (induction cs arbitrary: ps)
  case (Cons c cs)
  have "sorted_posts (channel_exec c ps)"
    using chan.run_invar [OF Cons.prems, of "[c]"] by (simp add: channel_exec_eq)
  from br_cons [OF board_exec [OF Cons.prems] Cons.IH [OF this]] show ?case by simp
qed (simp add: br_nil)

section \<open>The simulation\<close>

definition read_ended :: "event \<Rightarrow> sid set" where
  "read_ended e = (case e of E_read now ec msg t \<Rightarrow> if ec then {t} else {} | _ \<Rightarrow> {})"

definition connected :: "event \<Rightarrow> sid set" where
  "connected e = (case e of E_run ec t \<Rightarrow> if ec then {} else {t} | _ \<Rightarrow> {})"

lemma readers_upd:
  assumes "\<And>x. heap w s = Some x \<Longrightarrow> n_ops Async_read (f x) = n_ops Async_read x"
  shows "readers (upd_session s f w) = readers w"
  using assms by (auto simp: readers_iff heap_upd_session split: if_splits)

lemma readers_quiet: "quiet ok C w v \<Longrightarrow> readers v = readers w"
  by (rule readers_cong) (simp add: ops_quiet fun_eq_iff)

lemma readers_frame [simp]:
  "readers (w\<lparr>crashed := b\<rparr>) = readers w" "readers (w\<lparr>accept_mgr := a\<rparr>) = readers w"
  "readers (w\<lparr>chat_queue := q\<rparr>) = readers w"
  by (simp_all add: readers_def ops_def)

text \<open>Which connections are alive after a step.\<close>

lemma step_readers:
  assumes L: "json_laws L" and inv: "sinv cfg S" and step: "sys_step L cfg S e S'"
  shows "readers (wk S') = connected e \<union> (readers (wk S) - read_ended e)"
    "connected e \<inter> readers (wk S) = {}"
proof -
  have "readers (wk S') = connected e \<union> (readers (wk S) - read_ended e) \<and>
      connected e \<inter> readers (wk S) = {}"
    using step
  proof cases
    case (s_http now ret0 ec req)
    obtain a w where aw: "http_on_read L cfg now ret0 ec req (wk S) = (a, w)" by fastforce
    have q: "quiet False UNIV (wk S) w" by (rule quiet_http [OF _ aw]) simp
    have "readers (wk (make_session (S\<lparr>wk := w\<rparr>))) = readers w"
      using sinv_make_session(2) [OF sinv_quiet [OF inv q]] by simp
    with readers_quiet [OF q] s_http aw show ?thesis
      by (auto simp: http_request_def connected_def read_ended_def split: http_action.splits)
  next
    case (s_run t ec)
    with sinv_run(2,3) [OF inv] show ?thesis by (simp add: connected_def read_ended_def)
  next
    case (s_read t now ec msg)
    with sinv_read_error(2) [OF inv] sinv_read_ok(3) [OF L inv] show ?thesis
      by (cases ec) (simp_all add: connected_def read_ended_def)
  next
    case (s_write t m ec)
    have "readers (on_written ec m t (wk S)) = readers (wk S)"
      unfolding on_written_def
      by (rule readers_upd) (simp add: on_write_def do_write_def Let_def)
    with s_write show ?thesis by (simp add: connected_def read_ended_def)
  next
    case (s_close t)
    have "readers (on_close t (wk S)) = readers (wk S)"
      unfolding on_close_def by (rule readers_upd) simp
    with s_close show ?thesis by (simp add: connected_def read_ended_def)
  next
    case (s_pong t)
    with readers_quiet [OF q_pong [OF q_refl, where ok = True and C = UNIV], of t "wk S"]
    show ?thesis by (simp add: connected_def read_ended_def)
  next
    case (s_free s t)
    then show ?thesis
      by (auto simp: connected_def read_ended_def readers_iff n_ops_def split: if_splits)
  next
    case (s_db now d)
    have "readers (on_db_event L cfg now d (wk S)) = readers (wk S)"
    proof (cases d)
      case (Push v)
      show ?thesis
      proof (cases "length v = 3 \<and> v ! 0 = ''message'' \<and> v ! 2 = ''rpush''")
        case True
        from push_rpush [OF this, of UNIV "wk S" L cfg now] show ?thesis
          by (auto simp: Push readers_quiet) (auto simp: readers_iff)
      qed (simp add: Push readers_quiet [OF quiet_push [where ok = False and C = UNIV]])
    qed (simp_all add: readers_cong ops_def fun_eq_iff readers_quiet [OF quiet_hvals [where C = UNIV]]
        readers_quiet [OF quiet_hgetall [where ok = False and C = UNIV]])
    with s_db show ?thesis by (simp add: connected_def read_ended_def)
  next
    case (s_lrange msgs)
    have q: "readers (on_db_chat_msg cfg u msgs (wk S)) = readers (wk S)" for u
      by (rule readers_quiet [OF quiet_db_chat_msg [where ok = False and C = UNIV]]) simp
    have "readers (on_lrange cfg msgs (wk S)) = readers (wk S)"
      using q by (simp add: on_lrange_def Let_def crash_def)
    with s_lrange show ?thesis by (simp add: connected_def read_ended_def)
  next
    case (s_signal ec)
    with readers_quiet [OF quiet_signal] show ?thesis by (simp add: connected_def read_ended_def)
  next
    case (s_lost k)
    then show ?thesis by (simp add: connected_def read_ended_def)
  next
    case (s_accept ec ab)
    then show ?thesis by (simp add: connected_def read_ended_def)
  qed
  then show "readers (wk S') = connected e \<union> (readers (wk S) - read_ended e)"
    "connected e \<inter> readers (wk S) = {}" by simp_all
qed

text \<open>One step of the node is one step of the specification, for the same event.\<close>

lemma step_refines:
  assumes L: "json_laws L" and run: "sys_run L cfg es S" and step: "sys_step L cfg S e S'"
  shows "spec_step L cfg (abs_sys S) e (abs_sys S')"
proof -
  note inv = sinv_sys_run [OF L run]
  note rd = step_readers [OF L inv step]
  from step_posts [OF L inv step] obtain cs where cs: "set cs \<subseteq> event_cmds L cfg e"
    "posts (wk S') = fold channel_exec cs (posts (wk S))" by blast
  have board: "board_run cs (board (abs_sys S)) (board (abs_sys S'))"
    using board_fold [OF node_sorted [OF L run]] cs(2) by simp
  have nocmds: "board (abs_sys S') = board (abs_sys S)" if "event_cmds L cfg e = {}"
    using cs that by simp
  from step_sessions [OF L inv step] consider
      (table) "sessions (wk S') = sessions (wk S)"
    | (leave) now msg t x where "e = E_read now True msg t" "heap (wk S) t = Some x"
        "t \<in> readers (wk S)" "pub_hash x \<noteq> ''''"
        "map_of (sessions (wk S')) = (map_of (sessions (wk S)))(pub_hash x := None)"
    | (login) now msg t u where "e = E_read now False msg t" "credentials L msg u"
        "t \<notin> ran (map_of (sessions (wk S)))"
        "map_of (sessions (wk S')) = (map_of (sessions (wk S)))(u \<mapsto> t)"
    by blast
  then show ?thesis
  proof cases
    case login
    from step login(1) inv have "t \<in> readers (wk S)"
      by (auto elim!: sys_stepE elim: reading)
    from sp_login [of t "abs_sys S" L msg u cfg now] this login nocmds rd(1)
    show ?thesis by (simp add: abs_sys_def connected_def read_ended_def)
  next
    case leave
    note D = sinvD(2) [OF inv]
    have here: "map_of (sessions (wk S)) (pub_hash x) = Some t"
      by (rule table_inv_logged_in [OF D leave(3,2,4)])
    have only: "u = pub_hash x" if "map_of (sessions (wk S)) u = Some t" for u
      using table_invD [OF D that] leave(2) by auto
    have "(\<lambda>u. if map_of (sessions (wk S)) u = Some t then None else map_of (sessions (wk S)) u) =
        (map_of (sessions (wk S)))(pub_hash x := None)"
      using here by (intro ext) (auto dest: only)
    with sp_end [of t "abs_sys S" L cfg now msg] leave nocmds rd(1) show ?thesis
      by (simp add: abs_sys_def connected_def read_ended_def cong: if_cong)
  next
    case table
    note same = rd(1) table
    show ?thesis
    proof (cases e)
      case (E_run ec t)
      with same nocmds rd(2) sp_connect [of t "abs_sys S" L cfg] sp_internal [of e L cfg "abs_sys S"]
      show ?thesis by (cases ec) (simp_all add: abs_sys_def connected_def read_ended_def)
    next
      case (E_read now ec msg t)
      from step E_read inv have t: "t \<in> readers (wk S)" by (auto elim!: sys_stepE elim: reading)
      show ?thesis
      proof (cases ec)
        case False
        with E_read t same nocmds sp_message [of t "abs_sys S" L cfg now msg] show ?thesis
          by (simp add: abs_sys_def connected_def read_ended_def)
      next
        case True
        have "(\<lambda>u. if map_of (sessions (wk S)) u = Some t then None else map_of (sessions (wk S)) u) =
            map_of (sessions (wk S))"
        proof -
          have "map_of (sessions (wk S)) u \<noteq> Some t" for u
          proof
            assume "map_of (sessions (wk S)) u = Some t"
            with table have "map_of (sessions (wk S')) u = Some t" by simp
            from table_invD [OF sinvD(2) [OF sinv_step [OF L inv step]] this]
            have "t \<in> readers (wk S')" by blast
            with rd E_read True show False by (auto simp: connected_def read_ended_def)
          qed
          then show ?thesis by simp
        qed
        with sp_end [of t "abs_sys S" L cfg now msg] t E_read True nocmds same show ?thesis
          by (simp add: abs_sys_def connected_def read_ended_def cong: if_cong)
      qed
    next
      case (E_db now d)
      with same board cs(1) sp_board [of cs L cfg d "abs_sys S" _ now] show ?thesis
        by (simp add: abs_sys_def connected_def read_ended_def)
    qed (use same nocmds sp_internal [of e L cfg "abs_sys S"] in
        \<open>simp_all add: abs_sys_def connected_def read_ended_def\<close>)
  qed
qed

text \<open>C2: a node refines its specification: every run of the handlers is, event for event, a run of the
  abstract machine that only knows the live connections, who speaks for which user and the posts on
  the board. So whatever the handlers do with streams, queues, vectors and commands, a connection
  speaks for a user only after presenting that user's credentials, for at most one user and only
  while it lives, and the board changes only by the commands redis delivers, each removal by the
  author or the administrator.\<close>

theorem node_refines_spec:
  assumes "json_laws L" "sys_run L cfg es S"
  shows "spec_run L cfg es (abs_sys S)"
  using assms(2)
proof induction
  case start
  show ?case using spec_start
    by (simp add: abs_sys_def init_sys_def init_worker_def readers_def ops_def post_cores_def)
next
  case (step es S e S')
  then show ?case using spec_next step_refines [OF assms(1) step.hyps] by blast
qed

theorem node_refines_spec_witness:
  "\<exists>es. spec_run ref_lib sample_core es (abs_sys sample_login) \<and>
     who (abs_sys sample_login) (sample_id ''ann'') = Some 0"
  using node_refines_spec [OF ref_json_laws sample_login_run] by (auto simp: sample_login_eq)

end
