(* ===== verification/Mailbox.thy ===== *)
theory Mailbox
  imports Refinement
begin

text \<open>
  How a node asks redis for the stored messages of a user: it reads the list and deletes it with
  two commands in a row, and uses neither command otherwise. Theory Cluster puts several nodes
  beside one redis and says what becomes of the messages.
\<close>

section \<open>Reads and deletions come in pairs\<close>

inductive paired :: "redis_cmd list \<Rightarrow> bool" where
  p_nil: "paired []"
| p_pair: "paired cs \<Longrightarrow> paired (cs @ [R_lrange key 0 (-1), R_del key])"
| p_other: "paired cs \<Longrightarrow> \<not> list_cmd c \<Longrightarrow> paired (cs @ [c])"

lemma paired_free: "paired cs \<Longrightarrow> list_all (\<lambda>c. \<not> list_cmd c) ds \<Longrightarrow> paired (cs @ ds)"
proof (induction ds rule: rev_induct)
  case (snoc d ds)
  then show ?case using p_other [of "cs @ ds" d] by simp
qed simp

lemma paired_append: "paired ds \<Longrightarrow> paired cs \<Longrightarrow> paired (cs @ ds)"
proof (induction ds rule: paired.induct)
  case (p_pair ds key)
  from paired.p_pair [OF p_pair.IH [OF p_pair.prems]] show ?case by simp
next
  case (p_other ds c)
  from paired.p_other [OF p_other.IH [OF p_other.prems] p_other.hyps(2)] show ?case by simp
qed simp

text \<open>What a handler sends is appended to what was sent before, in pairs.\<close>

definition grows :: "worker \<Rightarrow> worker \<Rightarrow> bool" where
  "grows w v \<longleftrightarrow> (\<exists>cs. redis_out v = redis_out w @ cs \<and> paired cs)"

lemma grows_refl [simp, intro]: "redis_out v = redis_out w \<Longrightarrow> grows w v"
  by (simp add: grows_def p_nil)

lemma grows_trans [trans]: "grows w v \<Longrightarrow> grows v u \<Longrightarrow> grows w u"
  by (auto simp: grows_def intro: paired_append)

lemma grows_cong: "redis_out w' = redis_out w \<Longrightarrow> redis_out v' = redis_out v \<Longrightarrow> grows w' v' = grows w v"
  by (simp add: grows_def)

lemma grows_quiet: "quiet ok C w v \<Longrightarrow> grows w v"
  using quiet_out [of ok C w v] paired_free [OF p_nil] user_cmd_list by (auto simp: grows_def)

lemma grows_send: "list_all (\<lambda>c. \<not> list_cmd c) cs \<Longrightarrow> grows w (redis_send cs w)"
  using paired_free [OF p_nil, of cs] by (simp add: grows_def)

lemma grows_pair: "grows w (redis_send [R_lrange key 0 (-1), R_del key] w)"
  using p_pair [OF p_nil] by (simp add: grows_def)

lemma grows_store: "grows w (store_chat_msg cfg ms u w)"
  by (rule grows_quiet [OF quiet_store [OF q_refl]])

lemma paired_del:
  "paired cs \<Longrightarrow> n < length cs \<Longrightarrow> cs ! n = R_del key \<Longrightarrow> 0 < n \<and> cs ! (n - 1) = R_lrange key 0 (-1)"
proof (induction arbitrary: n rule: paired.induct)
  case (p_pair cs k)
  consider "n < length cs" | "n = length cs" | "n = Suc (length cs)" using p_pair.prems(1) by fastforce
  then show ?case
  proof cases
    case 1
    with p_pair show ?thesis by (auto simp: nth_append)
  qed (use p_pair.prems in \<open>auto simp: nth_append\<close>)
next
  case (p_other cs c)
  consider "n < length cs" | "n = length cs" using p_other.prems(1) by fastforce
  then show ?case
  proof cases
    case 1
    with p_other show ?thesis by (auto simp: nth_append)
  next
    case 2
    with p_other show ?thesis by auto
  qed
qed simp

lemma paired_lrange:
  "paired cs \<Longrightarrow> n < length cs \<Longrightarrow> cs ! n = R_lrange key a b \<Longrightarrow>
     a = 0 \<and> b = -1 \<and> Suc n < length cs \<and> cs ! Suc n = R_del key"
proof (induction arbitrary: n rule: paired.induct)
  case (p_pair cs k)
  consider "n < length cs" | "n = length cs" | "n = Suc (length cs)" using p_pair.prems(1) by fastforce
  then show ?case
  proof cases
    case 1
    with p_pair have "cs ! n = R_lrange key a b" by (simp add: nth_append)
    from p_pair.IH [OF 1 this] show ?thesis by (simp add: nth_append)
  qed (use p_pair.prems in \<open>auto simp: nth_append\<close>)
next
  case (p_other cs c)
  consider "n < length cs" | "n = length cs" using p_other.prems(1) by fastforce
  then show ?case
  proof cases
    case 1
    with p_other have "cs ! n = R_lrange key a b" by (simp add: nth_append)
    from p_other.IH [OF 1 this] show ?thesis by (simp add: nth_append)
  next
    case 2
    with p_other show ?thesis by auto
  qed
qed simp

section \<open>Every node keeps to it\<close>

lemma register_out: "redis_out (register_session u s w) = redis_out w"
  by (simp add: register_session_def Let_def split: option.splits)

lemma grows_subscribe: "grows w (subscribe_user cfg u w)"
proof -
  let ?subs = "[ R_subscribe (r_user_notify_prefix (c_redis cfg) @ u),
      R_subscribe (r_presence_channel_prefix (c_redis cfg) @ u) ]"
  have "grows w (redis_send ?subs w)" by (rule grows_send) simp
  also have "grows (redis_send ?subs w) (redis_send [R_lrange (r_chat_msg_prefix (c_redis cfg) @ u) 0 (-1),
      R_del (r_chat_msg_prefix (c_redis cfg) @ u)] (redis_send ?subs w))"
    by (rule grows_pair)
  finally show ?thesis by (simp add: subscribe_user_def Let_def grows_def)
qed

lemma grows_login:
  assumes L: "json_laws L" and run: "on_app_login L cfg j s w = (r, v)"
  shows "grows w v"
proof -
  have tok: "grows w' v'" if "publish_token L cfg j u w' = (r', v')" for u w' r' v'
    by (rule grows_quiet [OF quiet_token [OF that, of True UNIV]])
  have reg: "redis_out (register_session u s (upd_session s f w)) = redis_out w" for u f
    by (simp add: register_out)
  have sub: "grows w (subscribe_user cfg u v')" if "grows w v'" for u v'
    using that grows_subscribe by (rule grows_trans)
  have tok': "grows w v'" if "publish_token L cfg j u (register_session u' s (upd_session s f w)) = (r', v')"
    for u u' f r' v'
    using tok [OF that] reg [of u' f] by (simp add: grows_def)
  have snd: "grows w (send_msg s m p v')" if "grows w v'" for m p v'
    using that by (simp add: grows_def)
  from run show ?thesis
    by (auto simp: on_app_login_def Let_def reg dest!: tok' intro!: sub snd
        split: option.splits bind_splits if_splits prod.splits)
qed

lemma grows_on_app:
  assumes L: "json_laws L" and run: "on_app L cfg now s msg w = (r, v)"
  shows "grows w v"
proof (cases "do { j \<leftarrow> jparse L msg; cmd \<leftarrow> at_str L j ''cmd''; Some (j, cmd) }")
  case None
  with run show ?thesis by (simp add: on_app_def)
next
  case (Some jc)
  then obtain j c where j: "jc = (j, c)" by fastforce
  note q = grows_quiet [where ok = True and C = UNIV]
  have "grows w v'" if "catch_unknown (on_app_presence L cfg j s w) = (r', v')" for r' v'
    using catch_unknown_snd [OF that] quiet_presence [OF L] q by blast
  moreover have "grows w v'" if "catch_unknown (on_app_chat_msg L cfg j s w) = (r', v')" for r' v'
    using catch_unknown_snd [OF that] quiet_chat_msg [OF L] q by blast
  moreover have "grows w v'" if "catch_unknown (on_app_publish L cfg now j s w) = (r', v')" for r' v'
    using catch_unknown_snd [OF that] quiet_publish [OF L] q by blast
  moreover have "grows w v'" if "catch_unknown (on_app_login L cfg j s w) = (r', v')" for r' v'
    using catch_unknown_snd [OF that] grows_login [OF L] by blast
  ultimately show ?thesis
    using run Some j unfolding on_app_def by (auto split: if_splits)
qed

lemma grows_finish: "grows w (finish cfg s w)"
proof -
  have "grows w (on_session_dtor cfg u ms v)" if "redis_out v = redis_out w" for u ms v
  proof -
    let ?v = "redis_send [ R_unsubscribe (r_user_notify_prefix (c_redis cfg) @ u),
      R_unsubscribe (r_presence_channel_prefix (c_redis cfg) @ u) ]
        (v\<lparr>sessions := AList.delete u (sessions v)\<rparr>)"
    have "grows w ?v" using that paired_free [OF p_nil] by (simp add: grows_def)
    moreover from this have "grows w (store_chat_msg cfg ms u ?v)" by (rule grows_trans [OF _ grows_store])
    ultimately show ?thesis
      using that by (simp add: on_session_dtor_def Let_def split: option.split)
  qed
  then show ?thesis
    by (simp add: finish_def Let_def split: option.split prod.split)
qed

lemma grows_step:
  assumes L: "json_laws L" and step: "sys_step L cfg S e S'"
  shows "grows (wk S) (wk S')"
proof -
  note q = grows_quiet
  from step show ?thesis
  proof cases
    case (s_http now ret0 ec req)
    obtain a w where aw: "http_on_read L cfg now ret0 ec req (wk S) = (a, w)" by fastforce
    have "grows (wk S) w" by (rule q [OF quiet_http [OF _ aw, of False]]) simp
    with s_http aw show ?thesis
      by (auto simp: http_request_def make_session_def Let_def grows_def split: http_action.splits)
  next
    case (s_read t now ec msg)
    let ?w = "upd_session t (complete_op Async_read) (wk S)"
    obtain r v where app: "on_app L cfg now t msg ?w = (r, v)" by fastforce
    have "grows (wk S) v" "grows (wk S) (finish cfg t ?w)"
      using grows_on_app [OF L app] grows_finish [of ?w cfg t] by (simp_all add: grows_def)
    then show ?thesis
      using s_read app by (simp add: on_read_def Let_def grows_def)
  next
    case (s_db now d)
    have "grows (wk S) (on_db_event L cfg now d (wk S))"
    proof (cases d)
      case (Push v)
      show ?thesis
      proof (cases "length v = 3 \<and> v ! 0 = ''message'' \<and> v ! 2 = ''rpush''")
        case True
        from push_rpush [OF this, of UNIV "wk S" L cfg now] show ?thesis
          using grows_pair [of "wk S"] by (auto simp: Push grows_def intro: q [unfolded grows_def])
      qed (simp add: Push q [OF quiet_push [where ok = False and C = UNIV]])
    qed (simp_all add: on_hello_def grows_send q [OF quiet_hvals [where C = UNIV]]
        q [OF quiet_hgetall [where ok = False and C = UNIV]])
    with s_db show ?thesis by simp
  next
    case (s_lrange msgs)
    have "grows (wk S) (on_db_chat_msg cfg u msgs (wk S))" for u
      by (rule q [OF quiet_db_chat_msg [where ok = False and C = UNIV]]) simp
    with s_lrange show ?thesis by (simp add: on_lrange_def Let_def grows_def p_nil)
  next
    case (s_signal ec)
    with q [OF quiet_signal] show ?thesis by simp
  qed (simp_all add: on_run_def on_written_def on_close_def Let_def)
qed

lemma paired_run:
  assumes "json_laws L" "sys_run L cfg es S"
  shows "paired (redis_out (wk S))"
  using assms(2)
proof induction
  case start
  show ?case by (simp add: init_sys_def init_worker_def p_nil)
next
  case (step es S e S')
  from grows_step [OF assms(1) step.hyps(2)] step.IH show ?case
    by (auto simp: grows_def intro: paired_append)
qed

end
