(* ===== verification/Cluster.thy ===== *)
theory Cluster
  imports Mailbox
begin

text \<open>
  Several nodes beside one redis, as the documentation of the program describes it: every node
  sends its commands on a connection of its own, redis executes one command at a time and answers
  the commands of a connection in their order. What becomes of the messages stored for a user when
  nodes read and delete the same list.
\<close>

section \<open>Redis\<close>

text \<open>
  What redis has executed: commands of the nodes, by the number of the node, and keys whose time
  to live has passed. The contents of the lists are a parameter, a function of that history.
\<close>

datatype redis_op = Exec nat redis_cmd | Expired string

type_synonym redis = "redis_op list \<Rightarrow> string \<Rightarrow> string list"

fun effect :: "string \<Rightarrow> redis_op \<Rightarrow> string list \<Rightarrow> string list" where
  "effect k (Exec i (R_rpush key ms)) xs = (if key = k then xs @ ms else xs)"
| "effect k (Exec i (R_del key)) xs = (if key = k then [] else xs)"
| "effect k (Exec i (R_expire key t)) xs = (if key = k \<and> sint t \<le> 0 then [] else xs)"
| "effect k (Expired key) xs = (if key = k then [] else xs)"
| "effect k _ xs = xs"

text \<open>Commands that use a key for another type than a list.\<close>

fun foreign :: "string \<Rightarrow> redis_op \<Rightarrow> bool" where
  "foreign k (Exec i (R_hset key fs)) = (key = k)"
| "foreign k (Exec i (R_hincrby key f n)) = (key = k)"
| "foreign k (Exec i (R_hdel key fs)) = (key = k)"
| "foreign k (Exec i (R_incr key)) = (key = k)"
| "foreign k _ = False"

text \<open>The documented behaviour of RPUSH, DEL and EXPIRE on the keys that hold lists; no other
  command of the nodes changes a list.\<close>

definition redis_laws :: "redis \<Rightarrow> bool" where
  "redis_laws R \<longleftrightarrow> (\<forall>k hist op. list_all (\<lambda>op. \<not> foreign k op) (hist @ [op]) \<longrightarrow>
     R (hist @ [op]) k = effect k op (R hist k))"

definition ref_redis :: redis where
  "ref_redis = (\<lambda>hist k. fold (effect k) hist [])"

lemma ref_redis_laws: "redis_laws ref_redis"
  by (simp add: redis_laws_def ref_redis_def)

lemma redis_lawsD:
  "redis_laws R \<Longrightarrow> list_all (\<lambda>op. \<not> foreign k op) (hist @ [op]) \<Longrightarrow> R (hist @ [op]) k = effect k op (R hist k)"
  unfolding redis_laws_def by blast

fun cmds_of :: "nat \<Rightarrow> redis_op list \<Rightarrow> redis_cmd list" where
  "cmds_of i [] = []"
| "cmds_of i (Exec j c # hist) = (if j = i then c # cmds_of i hist else cmds_of i hist)"
| "cmds_of i (Expired k # hist) = cmds_of i hist"

lemma cmds_of_append [simp]: "cmds_of i (xs @ ys) = cmds_of i xs @ cmds_of i ys"
  by (induction i xs rule: cmds_of.induct) simp_all

text \<open>Going through the history, each operation with what was executed before it.\<close>

definition scan :: "(redis_op list \<Rightarrow> redis_op \<Rightarrow> 'a list) \<Rightarrow> redis_op list \<Rightarrow> 'a list" where
  "scan f log = concat (map (\<lambda>n. f (take n log) (log ! n)) [0..<length log])"

lemma scan_simps [simp]: "scan f [] = []" "scan f (log @ [op]) = scan f log @ f log op"
proof -
  have "map (\<lambda>n. f (take n (log @ [op])) ((log @ [op]) ! n)) [0..<length log] =
      map (\<lambda>n. f (take n log) (log ! n)) [0..<length log]"
    by (rule map_cong) (simp_all add: nth_append)
  moreover have "[0..<length (log @ [op])] = [0..<length log] @ [length log]" by simp
  ultimately show "scan f (log @ [op]) = scan f log @ f log op"
    unfolding scan_def by (simp only: map_append concat_append) simp
qed (simp add: scan_def)

section \<open>Nodes and redis\<close>

record cluster =
  member :: "nat \<Rightarrow> sys"
  rlog :: "redis_op list"
  answers :: "nat \<Rightarrow> string list list"

text \<open>\<open>answers X i\<close>: what redis has answered to LRANGE commands of node \<open>i\<close> and the node has not
  read yet. The nodes read whole lists only.\<close>

definition redis_executes :: "redis \<Rightarrow> nat \<Rightarrow> redis_cmd \<Rightarrow> cluster \<Rightarrow> cluster" where
  "redis_executes R i c X =
     X\<lparr> rlog := rlog X @ [Exec i c],
        answers := (case c of R_lrange key _ _ \<Rightarrow> (answers X)(i := answers X i @ [R (rlog X) key])
          | _ \<Rightarrow> answers X) \<rparr>"

text \<open>
  The events of a node that are about the answers to its LRANGE commands. In a cluster an answer is
  the oldest one that redis has given to that node; the nodes of a cluster keep their connections,
  so that no answer is lost.
\<close>

fun is_answer :: "event \<Rightarrow> bool" where
  "is_answer (E_lrange ms) = True"
| "is_answer (E_lost k) = True"
| "is_answer _ = False"

datatype cl_event =
    Node_event nat event
  | Redis_executes nat
  | Redis_expires string

inductive cl_step :: "'j extern \<Rightarrow> core \<Rightarrow> redis \<Rightarrow> cluster \<Rightarrow> cl_event \<Rightarrow> cluster \<Rightarrow> bool"
  for L cfg R X where
  c_node: "sys_step L cfg (member X i) e S \<Longrightarrow> \<not> is_answer e \<Longrightarrow>
     cl_step L cfg R X (Node_event i e) (X\<lparr>member := (member X)(i := S)\<rparr>)"
| c_answer: "answers X i = ms # r \<Longrightarrow> sys_step L cfg (member X i) (E_lrange ms) S \<Longrightarrow>
     cl_step L cfg R X (Node_event i (E_lrange ms))
       (X\<lparr>member := (member X)(i := S), answers := (answers X)(i := r)\<rparr>)"
| c_redis: "length (cmds_of i (rlog X)) < length (redis_out (wk (member X i))) \<Longrightarrow>
     c = redis_out (wk (member X i)) ! length (cmds_of i (rlog X)) \<Longrightarrow>
     cl_step L cfg R X (Redis_executes i) (redis_executes R i c X)"
| c_expire: "cl_step L cfg R X (Redis_expires key) (X\<lparr>rlog := rlog X @ [Expired key]\<rparr>)"

definition init_cluster :: cluster where
  "init_cluster = \<lparr> member = (\<lambda>_. init_sys), rlog = [], answers = (\<lambda>_. []) \<rparr>"

inductive cl_run :: "'j extern \<Rightarrow> core \<Rightarrow> redis \<Rightarrow> cl_event list \<Rightarrow> cluster \<Rightarrow> bool" for L cfg R where
  c_start: "cl_run L cfg R [] init_cluster"
| c_step: "cl_run L cfg R es X \<Longrightarrow> cl_step L cfg R X e X' \<Longrightarrow> cl_run L cfg R (es @ [e]) X'"

section \<open>What every cluster keeps\<close>

text \<open>The events of one node.\<close>

fun events_of :: "nat \<Rightarrow> cl_event list \<Rightarrow> event list" where
  "events_of i [] = []"
| "events_of i (Node_event j e # es) = (if j = i then e # events_of i es else events_of i es)"
| "events_of i (_ # es) = events_of i es"

lemma events_of_append [simp]: "events_of i (xs @ ys) = events_of i xs @ events_of i ys"
  by (induction i xs rule: events_of.induct) simp_all

lemma member_run: "cl_run L cfg R es X \<Longrightarrow> sys_run L cfg (events_of i es) (member X i)"
proof (induction rule: cl_run.induct)
  case c_start
  show ?case by (simp add: init_cluster_def sys_run.start)
next
  case (c_step es X e X')
  from c_step.hyps(2) show ?case
    by cases (auto simp: c_step.IH redis_executes_def intro: sys_run.step [OF c_step.IH])
qed

text \<open>Redis executes the commands of a node in the order the node sent them, reads and deletions in
  pairs, and the answers it gives to a node are the ones the node reads, in the same order.\<close>

lemma take_extend: "\<exists>m. take n xs = take m (xs @ ys)"
  by (cases "n \<le> length xs") (auto intro: exI [of _ n] exI [of _ "length xs"])

lemma take_self: "take (length (take n xs)) xs = take n xs"
  by (cases "n \<le> length xs") simp_all

lemma executed_prefix:
  assumes "json_laws L" "cl_run L cfg R es X"
  shows "\<exists>n. cmds_of i (rlog X) = take n (redis_out (wk (member X i)))"
  using assms(2)
proof (induction arbitrary: i)
  case c_start
  show ?case by (simp add: init_cluster_def)
next
  case (c_step es X e X')
  have more: "\<exists>n. cmds_of i (rlog X) = take n (redis_out (wk S))"
    if "sys_step L cfg (member X i) e' S" for e' S
  proof -
    obtain n where n: "cmds_of i (rlog X) = take n (redis_out (wk (member X i)))"
      using c_step.IH by blast
    have "\<exists>cs. redis_out (wk S) = redis_out (wk (member X i)) @ cs"
      using grows_step [OF assms(1) that] unfolding grows_def by blast
    with n show ?thesis using take_extend by metis
  qed
  from c_step.hyps(2) show ?case
  proof cases
    case (c_node j e S)
    with c_step.IH more show ?thesis by (cases "i = j") auto
  next
    case (c_answer j ms r S)
    with c_step.IH more show ?thesis by (cases "i = j") auto
  next
    case (c_redis j c)
    obtain n where n: "cmds_of i (rlog X) = take n (redis_out (wk (member X i)))"
      using c_step.IH by blast
    show ?thesis
    proof (cases "i = j")
      case True
      let ?out = "redis_out (wk (member X i))" and ?m = "length (cmds_of i (rlog X))"
      from n have "cmds_of i (rlog X) = take ?m ?out" by (simp only: take_self)
      with c_redis True have "cmds_of i (rlog X) @ [c] = take (Suc ?m) ?out"
        by (simp add: take_Suc_conv_app_nth)
      with c_redis True show ?thesis by (auto simp: redis_executes_def)
    next
      case False
      with c_redis n show ?thesis by (auto simp: redis_executes_def)
    qed
  next
    case (c_expire key)
    with c_step.IH show ?thesis by simp
  qed
qed

fun answer :: "redis \<Rightarrow> nat \<Rightarrow> redis_op list \<Rightarrow> redis_op \<Rightarrow> string list list" where
  "answer R i log (Exec j (R_lrange key a b)) = (if j = i then [R log key] else [])"
| "answer R i log _ = []"

lemma redis_executes_sel [simp]:
  "member (redis_executes R j c X) = member X"
  "rlog (redis_executes R j c X) = rlog X @ [Exec j c]"
  "answers (redis_executes R j c X) i = answers X i @ answer R i (rlog X) (Exec j c)"
  by (cases c; simp add: redis_executes_def)+

fun received :: "event list \<Rightarrow> string list list" where
  "received [] = []"
| "received (E_lrange ms # es) = ms # received es"
| "received (_ # es) = received es"

lemma received_append [simp]: "received (xs @ ys) = received xs @ received ys"
  by (induction xs rule: received.induct) simp_all

lemma received_other: "\<not> is_answer e \<Longrightarrow> received [e] = []"
  by (cases e) simp_all

text \<open>The nodes of a cluster lose no answer.\<close>

lemma member_lost: "cl_run L cfg R es X \<Longrightarrow> lost (member X i) = 0"
proof (induction arbitrary: i rule: cl_run.induct)
  case c_start
  show ?case by (simp add: init_cluster_def init_sys_def)
next
  case (c_step es X e X')
  from c_step.hyps(2) c_step.IH show ?case
    by cases (auto simp: redis_executes_def dest!: lost_step split: event.splits)
qed

lemma answers_in_order:
  assumes "cl_run L cfg R es X"
  shows "received (events_of i es) @ answers X i = scan (answer R i) (rlog X)"
  using assms
proof (induction arbitrary: i)
  case c_start
  show ?case by (simp add: init_cluster_def)
next
  case (c_step es X e X')
  from c_step.hyps(2) show ?case
  proof cases
    case (c_node j e S)
    with c_step.IH show ?thesis by (simp add: received_other)
  next
    case (c_answer j ms r S)
    with c_step.IH [of j] c_step.IH [of i] show ?thesis by auto
  next
    case (c_redis j c)
    then show ?thesis using c_step.IH [of i] by (simp flip: append_assoc)
  next
    case (c_expire key)
    with c_step.IH show ?thesis by simp
  qed
qed

section \<open>The messages stored for a user\<close>

text \<open>What is stored under a key, and what the answers hand over, from the beginning.\<close>

fun pushes :: "string \<Rightarrow> redis_op \<Rightarrow> string list" where
  "pushes k (Exec i (R_rpush key ms)) = (if key = k then ms else [])"
| "pushes k _ = []"

fun fetches :: "redis \<Rightarrow> string \<Rightarrow> redis_op list \<Rightarrow> redis_op \<Rightarrow> string list" where
  "fetches R k log (Exec j (R_lrange key a b)) = (if key = k then R log k else [])"
| "fetches R k log _ = []"

definition pushed :: "string \<Rightarrow> redis_op list \<Rightarrow> string list" where
  "pushed k log = concat (map (pushes k) log)"

definition fetched :: "redis \<Rightarrow> string \<Rightarrow> redis_op list \<Rightarrow> string list" where
  "fetched R k log = scan (fetches R k) log"

text \<open>The operations on a list, and the condition that nothing comes between the read of a node and
  its deletion.\<close>

fun uses :: "string \<Rightarrow> redis_op \<Rightarrow> bool" where
  "uses k (Exec i (R_rpush key ms)) = (key = k)"
| "uses k (Exec i (R_lrange key a b)) = (key = k)"
| "uses k (Exec i (R_del key)) = (key = k)"
| "uses k _ = False"

fun follows :: "redis_op \<Rightarrow> redis_op \<Rightarrow> bool" where
  "follows (Exec i (R_lrange key a b)) op = (op = Exec i (R_del key))"
| "follows _ op = True"

definition undisturbed :: "string \<Rightarrow> redis_op list \<Rightarrow> bool" where
  "undisturbed k log = successively follows (filter (uses k) log)"

fun reads :: "redis_op \<Rightarrow> bool" where
  "reads (Exec i (R_lrange key a b)) = True"
| "reads _ = False"

definition reading_list :: "string \<Rightarrow> redis_op list \<Rightarrow> bool" where
  "reading_list k log \<longleftrightarrow> filter (uses k) log \<noteq> [] \<and> reads (last (filter (uses k) log))"

fun expires :: "string \<Rightarrow> redis_op \<Rightarrow> bool" where
  "expires k (Expired key) = (key = k)"
| "expires k (Exec i (R_expire key t)) = (key = k \<and> sint t \<le> 0)"
| "expires k _ = False"

text \<open>
  What leaves the list, in order: handed to a node as an answer (\<open>True\<close>) or dropped when the time to
  live has passed (\<open>False\<close>). What a node has read and not deleted yet has left already.
\<close>

definition departs :: "redis \<Rightarrow> string \<Rightarrow> redis_op list \<Rightarrow> redis_op \<Rightarrow> (bool \<times> string) list" where
  "departs R k log op = map (Pair True) (fetches R k log op) @
     (if expires k op \<and> \<not> reading_list k log then map (Pair False) (R log k) else [])"

definition departed :: "redis \<Rightarrow> string \<Rightarrow> redis_op list \<Rightarrow> (bool \<times> string) list" where
  "departed R k log = scan (departs R k) log"

lemma fetched_departed: "map snd (filter fst (departed R k log)) = fetched R k log"
proof (induction log rule: rev_induct)
  case (snoc op log)
  have "filter fst (map (Pair True) xs) = map (Pair True) xs" "filter fst (map (Pair False) xs) = []"
    for xs :: "string list" by (induction xs) simp_all
  with snoc show ?case by (simp add: departed_def fetched_def departs_def comp_def)
qed (simp add: departed_def fetched_def)

lemma undisturbed_snoc:
  "undisturbed k (log @ [op]) \<longleftrightarrow> undisturbed k log \<and>
     (uses k op \<and> filter (uses k) log \<noteq> [] \<longrightarrow> follows (last (filter (uses k) log)) op)"
  by (auto simp: undisturbed_def successively_append_iff)

lemma read_pending:
  assumes "undisturbed k log" "cmds_of i log \<noteq> []" "last (cmds_of i log) = R_lrange k a b"
  shows "filter (uses k) log \<noteq> [] \<and> last (filter (uses k) log) = Exec i (R_lrange k a b)"
  using assms
proof (induction log rule: rev_induct)
  case (snoc op log)
  show ?case
  proof (cases "\<exists>c. op = Exec i c")
    case True
    with snoc.prems show ?thesis by auto
  next
    case False
    then have "cmds_of i (log @ [op]) = cmds_of i log" by (cases op) auto
    with snoc.IH snoc.prems have "filter (uses k) log \<noteq> [] \<and> last (filter (uses k) log) = Exec i (R_lrange k a b)"
      by (simp add: undisturbed_snoc)
    moreover from this snoc.prems(1) False have "\<not> uses k op" by (auto simp: undisturbed_snoc)
    ultimately show ?thesis by simp
  qed
qed simp

text \<open>The books of one list balance.\<close>

lemma list_balance:
  assumes R: "redis_laws R"
    and nodes: "\<And>i. \<exists>cs n. paired cs \<and> cmds_of i log = take n cs"
    and own: "list_all (\<lambda>op. \<not> foreign k op) log"
    and und: "undisturbed k log"
  shows "R [] k @ pushed k log =
    map snd (departed R k log) @ (if reading_list k log then [] else R log k)"
  using nodes own und
proof (induction log rule: rev_induct)
  case Nil
  show ?case by (simp add: pushed_def departed_def reading_list_def)
next
  case (snoc op log)
  have "\<exists>cs n. paired cs \<and> cmds_of i log = take n cs" for i
  proof -
    obtain cs n where "paired cs" "cmds_of i (log @ [op]) = take n cs" using snoc.prems(1) by blast
    then have "cmds_of i log = take (length (cmds_of i log)) cs"
      by (metis append_eq_conv_conj cmds_of_append take_take append_take_drop_id)
    with \<open>paired cs\<close> show ?thesis by blast
  qed
  with snoc have IH: "R [] k @ pushed k log =
      map snd (departed R k log) @ (if reading_list k log then [] else R log k)"
    by (simp add: undisturbed_snoc)
  have eff: "R (log @ [op]) k = effect k op (R log k)"
    using snoc.prems(2) by (intro redis_lawsD [OF R]) (simp add: list_all_iff)
  have fol: "uses k op \<Longrightarrow> filter (uses k) log \<noteq> [] \<Longrightarrow> follows (last (filter (uses k) log)) op"
    and und: "undisturbed k log" using snoc.prems(3) by (simp_all add: undisturbed_snoc)
  have del: "reading_list k log" if "op = Exec i (R_del k)" for i
  proof -
    obtain cs n where cs: "paired cs" "cmds_of i (log @ [op]) = take n cs" using snoc.prems(1) by blast
    let ?m = "length (cmds_of i log)"
    from cs(2) that have take: "cmds_of i log @ [R_del k] = take n cs" by simp
    then have len: "Suc ?m \<le> length cs" "?m < n" by (auto dest!: arg_cong [of _ _ length])
    have m: "cs ! ?m = R_del k" using take len by (metis nth_append_length nth_take)
    with paired_del [OF cs(1) _ m] len have p: "0 < ?m" "cs ! (?m - 1) = R_lrange k 0 (-1)" by auto
    have "cmds_of i log ! (?m - 1) = cs ! (?m - 1)"
      using take len p(1) by (metis diff_less less_imp_diff_less nth_append nth_take zero_less_one)
    with p have "cmds_of i log \<noteq> []" "last (cmds_of i log) = R_lrange k 0 (-1)"
      by (auto simp: last_conv_nth)
    from read_pending [OF und this] show ?thesis by (simp add: reading_list_def)
  qed
  have idle: "\<not> reading_list k log" if "\<not> (\<exists>i. op = Exec i (R_del k))" "uses k op"
  proof
    assume "reading_list k log"
    then obtain i key a b where r: "filter (uses k) log \<noteq> []"
        "last (filter (uses k) log) = Exec i (R_lrange key a b)"
      by (cases "last (filter (uses k) log)" rule: reads.cases) (auto simp: reading_list_def)
    with fol [OF that(2) r(1)] have "op = Exec i (R_del key)" by simp
    with that show False by simp
  qed
  note defs = pushed_def departed_def departs_def reading_list_def comp_def
  show ?case
  proof (cases "uses k op")
    case True
    then obtain i where "(\<exists>ms. op = Exec i (R_rpush k ms)) \<or> (\<exists>a b. op = Exec i (R_lrange k a b)) \<or>
        op = Exec i (R_del k)"
      by (cases "(k, op)" rule: uses.cases) auto
    then show ?thesis
    proof (elim disjE exE)
      fix ms assume op: "op = Exec i (R_rpush k ms)"
      with idle IH have "R [] k @ pushed k log = map snd (departed R k log) @ R log k" by simp
      with op eff show ?thesis by (simp add: defs)
    next
      fix a b assume op: "op = Exec i (R_lrange k a b)"
      with idle IH have "R [] k @ pushed k log = map snd (departed R k log) @ R log k" by simp
      with op eff show ?thesis by (simp add: defs)
    next
      assume op: "op = Exec i (R_del k)"
      with del IH eff show ?thesis by (simp add: defs)
    qed
  next
    case False
    have "effect k op xs = (if expires k op then [] else xs)" for xs
      using False by (cases "(k, op, xs)" rule: effect.cases) auto
    moreover have "pushes k op = []" using False by (cases "(k, op)" rule: pushes.cases) auto
    moreover have "fetches R k log op = []" using False by (cases "(R, k, log, op)" rule: fetches.cases) auto
    ultimately show ?thesis using False IH eff by (simp add: defs)
  qed
qed

section \<open>Runs of a cluster\<close>

text \<open>A node that no answer of redis has reached yet may do what a single node does.\<close>

lemma cl_run_node:
  assumes "sys_run L cfg es S" "list_all (\<lambda>e. \<not> is_answer e) es"
    "cl_run L cfg R evs X" "member X i = init_sys"
  shows "cl_run L cfg R (evs @ map (Node_event i) es) (X\<lparr>member := (member X)(i := S)\<rparr>)"
  using assms(1,2)
proof induction
  case start
  from assms(3,4) show ?case by (simp add: fun_upd_idem)
next
  case (step es S e S')
  let ?X = "X\<lparr>member := (member X)(i := S)\<rparr>"
  have "cl_step L cfg R ?X (Node_event i e) (?X\<lparr>member := (member ?X)(i := S')\<rparr>)"
    by (rule c_node) (use step in simp_all)
  from cl_run.c_step [OF step.IH this] step.prems show ?case
    by (simp add: fun_upd_def cong: if_cong)
qed

text \<open>Redis executes the next commands of the nodes listed.\<close>

definition redis_turn :: "redis \<Rightarrow> nat \<Rightarrow> cluster \<Rightarrow> cluster" where
  "redis_turn R i X =
     redis_executes R i (redis_out (wk (member X i)) ! length (cmds_of i (rlog X))) X"

lemma cl_run_redis:
  "cl_run L cfg R evs X \<Longrightarrow> length (cmds_of i (rlog X)) < length (redis_out (wk (member X i))) \<Longrightarrow>
     cl_run L cfg R (evs @ [Redis_executes i]) (redis_turn R i X)"
  unfolding redis_turn_def by (rule cl_run.c_step [OF _ c_redis]) simp_all

lemma redis_turn_sel [simp]:
  "member (redis_turn R i X) = member X"
  "length (cmds_of j (rlog (redis_turn R i X))) =
     (if i = j then Suc (length (cmds_of j (rlog X))) else length (cmds_of j (rlog X)))"
  by (simp_all add: redis_turn_def)

lemma cl_run_turns:
  "cl_run L cfg R evs X \<Longrightarrow>
     (\<And>i. length (cmds_of i (rlog X)) + count_list is i \<le> length (redis_out (wk (member X i)))) \<Longrightarrow>
     cl_run L cfg R (evs @ map Redis_executes is) (fold (redis_turn R) is X)"
proof (induction "is" arbitrary: evs X)
  case (Cons i "is")
  have "cl_run L cfg R (evs @ [Redis_executes i]) (redis_turn R i X)"
    by (rule cl_run_redis) (use Cons.prems(1) Cons.prems(2) [of i] in simp_all)
  moreover have "length (cmds_of j (rlog (redis_turn R i X))) + count_list is j
      \<le> length (redis_out (wk (member (redis_turn R i X) j)))" for j
    using Cons.prems(2) [of j] by (auto split: if_splits)
  ultimately show ?case using Cons.IH [of "evs @ [Redis_executes i]" "redis_turn R i X"] by simp
qed simp

section \<open>Properties\<close>

text \<open>C10: the books of the messages stored for a user balance, however many nodes the cluster has and
  however their commands interleave, under three conditions: the commands redis has executed use the
  key for a list only, no command on it comes between the read of a node and its deletion, and the
  nodes keep their connections to redis. Then what was stored under the key is, in order, exactly
  what left it followed by what redis still holds (nothing, when a node is about to delete what it
  has read); what left it was handed to a node, each message once, or was dropped unread because the
  time to live had passed; and every node receives the answers to its reads once each and in their
  order.\<close>

theorem mailbox_exact:
  assumes "json_laws L" "redis_laws R" "cl_run L cfg R es X"
    "list_all (\<lambda>op. \<not> foreign k op) (rlog X)" "undisturbed k (rlog X)"
  shows "R [] k @ pushed k (rlog X) =
      map snd (departed R k (rlog X)) @ (if reading_list k (rlog X) then [] else R (rlog X) k)
    \<and> map snd (filter fst (departed R k (rlog X))) = fetched R k (rlog X)
    \<and> (\<forall>i. received (events_of i es) @ answers X i = scan (answer R i) (rlog X))"
proof -
  have "\<exists>cs n. paired cs \<and> cmds_of i (rlog X) = take n cs" for i
    using executed_prefix [OF assms(1,3), of i] paired_run [OF assms(1) member_run [OF assms(3)]] by blast
  from list_balance [OF assms(2) this assms(4,5)] answers_in_order [OF assms(3)]
  show ?thesis by (simp add: fetched_departed)
qed

text \<open>Ann logs in on node 0 while Bob, on node 1, sends her a message.\<close>

definition ann_key :: string where
  "ann_key = r_chat_msg_prefix (c_redis sample_core) @ sample_id ''ann''"

definition bob_wrote :: sys where
  "bob_wrote = (sample_as ''bob'')\<lparr>wk :=
     on_read ref_lib sample_core 0 False (enc (chat_json (sample_id ''ann''))) 0 (wk (sample_as ''bob''))\<rparr>"

definition bob_text :: string where
  "bob_text = enc (forwarded ref_lib sample_core (sample_id ''bob'') (sample_id ''ann'')
     (chat_json (sample_id ''ann'')))"

lemma bob_facts:
  "heap (upd_session 0 (complete_op Async_read) (wk (sample_as ''bob''))) 0 =
     Some (complete_op Async_read (the (heap (wk (sample_as ''bob'')) 0)))"
  "pub_hash (the (heap (wk (sample_as ''bob'')) 0)) = sample_id ''bob''"
  by (simp_all add: sample_as_eq heap_upd_session)

lemma sample_ids:
  "sample_id ''ann'' \<noteq> sample_id ''bob''" "sample_id ''ann'' \<noteq> chat_admin_id_key"
  by code_simp+

lemma login_cmds_sample: "user \<noteq> '''' \<Longrightarrow> length (redis_out (wk (sample_as user))) = 4"
  by (simp add: sample_as_eq)

lemma bob_wrote_out:
  "redis_out (wk bob_wrote) = redis_out (wk (sample_as ''bob'')) @
     [ R_incr (r_chat_msgs_counter_key (c_redis sample_core)), R_rpush ann_key [bob_text],
       R_expire ann_key (r_chat_msg_exp_time (c_redis sample_core)),
       R_publish (r_notify_channel (c_redis sample_core)) bob_text ]"
proof -
  let ?w = "upd_session 0 (complete_op Async_read) (wk (sample_as ''bob''))"
  have a: "addressee sample_core (sample_id ''ann'') = sample_id ''ann''"
    by (simp add: addressee_def sample_ids)
  have "map_of (sessions ?w) (sample_id ''ann'') = None" by (simp add: sample_as_eq sample_ids)
  then have off: "on_app ref_lib sample_core 0 0 (enc (chat_json (sample_id ''ann''))) ?w =
      (Unknown, store_chat_msg sample_core [bob_text] (sample_id ''ann'') ?w)"
    by (subst offline_eq [OF ref_json_laws, where j = "chat_json (sample_id ''ann'')" and
          to = "sample_id ''ann''" and text_out = bob_text and
          x = "complete_op Async_read (the (heap (wk (sample_as ''bob'')) 0))"])
      (simp_all add: bob_facts a is_logged_in_def bob_text_def ack_of_def acknowledge_def)
  show ?thesis
    by (simp add: bob_wrote_def on_read_def Let_def off store_chat_msg_def ann_key_def)
qed

lemma bob_wrote_run:
  "sys_run ref_lib sample_core ([E_http 0 0 Read_ok sample_req, E_run False 0,
     E_read 0 False (enc (login_json ''bob'')) 0] @ [E_read 0 False (enc (chat_json (sample_id ''ann''))) 0]) bob_wrote"
  unfolding bob_wrote_def
  by (rule sys_run.step [OF sample_as_run s_read]) (simp_all add: sample_as_eq init_worker_def pending_def)

definition two_nodes :: cluster where
  "two_nodes = init_cluster\<lparr>member := (\<lambda>_. init_sys)(0 := sample_login, 1 := bob_wrote)\<rparr>"

lemma two_nodes_run: "\<exists>es. cl_run ref_lib sample_core R es two_nodes"
proof -
  have "\<exists>es. cl_run ref_lib sample_core R es (init_cluster\<lparr>member := (member init_cluster)(0 := sample_login)\<rparr>)"
    by (intro exI, rule cl_run_node [OF sample_login_run _ cl_run.c_start]) (simp_all add: init_cluster_def)
  then obtain es where "cl_run ref_lib sample_core R es
      (init_cluster\<lparr>member := (member init_cluster)(0 := sample_login)\<rparr>)" by blast
  from cl_run_node [OF bob_wrote_run _ this, of 1] show ?thesis
    by (auto simp: two_nodes_def init_cluster_def)
qed

definition race :: "redis \<Rightarrow> cluster" where
  "race R = fold (redis_turn R) [1, 1, 1, 1, 1, 0, 0, 0, 1, 0] two_nodes"

lemma race_log:
  "rlog (race R) = map (Exec 1) (redis_out (wk (sample_as ''bob''))) @
     [ Exec 1 (R_incr (r_chat_msgs_counter_key (c_redis sample_core))),
       Exec 0 (R_subscribe (r_user_notify_prefix (c_redis sample_core) @ sample_id ''ann'')),
       Exec 0 (R_subscribe (r_presence_channel_prefix (c_redis sample_core) @ sample_id ''ann'')),
       Exec 0 (R_lrange ann_key 0 (-1)), Exec 1 (R_rpush ann_key [bob_text]), Exec 0 (R_del ann_key) ]"
  by (simp add: race_def redis_turn_def two_nodes_def bob_wrote_out sample_login_eq sample_as_eq
      init_cluster_def ann_key_def)

lemma race_run: "\<exists>es. cl_run ref_lib sample_core R es (race R)"
proof -
  obtain es where es: "cl_run ref_lib sample_core R es two_nodes" using two_nodes_run by blast
  have "length (cmds_of i (rlog two_nodes)) + count_list [1, 1, 1, 1, 1, 0, 0, 0, 1, 0] i
      \<le> length (redis_out (wk (member two_nodes i)))" for i
    by (simp add: two_nodes_def init_cluster_def bob_wrote_out login_cmds_sample sample_login_def)
  from cl_run_turns [OF es this] show ?thesis
    unfolding race_def by blast
qed

lemma scan_Cons: "scan f (x # xs) = f [] x @ scan (\<lambda>ys. f (x # ys)) xs"
proof (induction xs rule: rev_induct)
  case Nil
  show ?case using scan_simps(2) [of f "[]" x] by simp
next
  case (snoc y ys)
  with scan_simps(2) [of f "x # ys" y] show ?case by simp
qed

lemma redis_fold:
  "redis_laws R \<Longrightarrow> list_all (\<lambda>op. \<not> foreign k op) log \<Longrightarrow> R log k = fold (effect k) log (R [] k)"
  by (induction log rule: rev_induct) (simp_all add: redis_lawsD)

lemma ann_key_facts:
  "r_chat_msg_prefix (c_redis sample_core) @ sample_id ''bob'' \<noteq> ann_key"
  "r_chat_msgs_counter_key (c_redis sample_core) \<noteq> ann_key"
  "0 < sint (r_chat_msg_exp_time (c_redis sample_core))"
  by code_simp+

lemma redis_after:
  "redis_laws R \<Longrightarrow> list_all (\<lambda>op. \<not> foreign k op) (log @ new) \<Longrightarrow>
     R (log @ new) k = fold (effect k) new (R log k)"
  using redis_fold [of R k "log @ new"] redis_fold [of R k log] by simp



text \<open>When Bob's commands are executed first, Ann gets the message.\<close>

lemma orderly_run:
  "\<exists>es X. cl_run ref_lib sample_core R es X \<and>
     rlog X = map (Exec 1) (redis_out (wk bob_wrote)) @ map (Exec 0) (redis_out (wk sample_login))"
proof -
  let ?is = "[1, 1, 1, 1, 1, 1, 1, 1, 0, 0, 0, 0]"
  obtain es where es: "cl_run ref_lib sample_core R es two_nodes" using two_nodes_run by blast
  have "length (cmds_of i (rlog two_nodes)) + count_list ?is i
      \<le> length (redis_out (wk (member two_nodes i)))" for i
    by (auto simp: two_nodes_def init_cluster_def bob_wrote_out login_cmds_sample sample_login_def)
  from cl_run_turns [OF es this] have "\<exists>es. cl_run ref_lib sample_core R es (fold (redis_turn R) ?is two_nodes)"
    by blast
  moreover have "rlog (fold (redis_turn R) ?is two_nodes) =
      map (Exec 1) (redis_out (wk bob_wrote)) @ map (Exec 0) (redis_out (wk sample_login))"
    by (simp add: redis_turn_def two_nodes_def bob_wrote_out sample_login_eq sample_as_eq init_cluster_def)
  ultimately show ?thesis by blast
qed

theorem mailbox_exact_witness:
  "\<exists>es X. cl_run ref_lib sample_core ref_redis es X \<and> map snd (departed ref_redis ann_key (rlog X)) = [bob_text]"
proof -
  obtain es X where run: "cl_run ref_lib sample_core ref_redis es X" and log:
    "rlog X = map (Exec 1) (redis_out (wk bob_wrote)) @ map (Exec 0) (redis_out (wk sample_login))"
    using orderly_run by blast
  note eval = log bob_wrote_out sample_as_eq sample_login_eq ann_key_facts
  have key: "r_chat_msg_prefix (c_redis sample_core) @ sample_id ''ann'' = ann_key"
    by (simp add: ann_key_def)
  have own: "list_all (\<lambda>op. \<not> foreign ann_key op) (rlog X)"
    by (simp add: eval not_le)
  have und: "undisturbed ann_key (rlog X)" "\<not> reading_list ann_key (rlog X)"
    "pushed ann_key (rlog X) = [bob_text]" "ref_redis (rlog X) ann_key = []"
    by (simp_all add: eval key undisturbed_def reading_list_def pushed_def ref_redis_def)
  from mailbox_exact [OF ref_json_laws ref_redis_laws run own und(1)] und(2-)
  have "map snd (departed ref_redis ann_key (rlog X)) = [bob_text]" by (simp add: ref_redis_def)
  with run show ?thesis by (intro exI conjI)
qed

lemma on_db_chat_sessions: "sessions (on_db_chat_msg cfg u ms w) = sessions w"
  using quiet_frame(1) [OF quiet_db_chat_msg [where ok = False and C = UNIV]] by blast

text \<open>Redis executes the four commands of a login: the list is answered, and empty afterwards.\<close>

lemma login_executed:
  assumes "json_laws L" "redis_laws R" "cl_run L cfg R es X" "answers X i = []"
    and out: "redis_out (wk (member X i)) = cs @ [R_subscribe a, R_subscribe b, R_lrange k 0 (-1), R_del k]"
      "length (cmds_of i (rlog X)) = length cs"
    and stored: "R (rlog X) k = ms" "list_all (\<lambda>op. \<not> foreign k op) (rlog X)"
  shows "\<exists>Y. cl_run L cfg R (es @ map Redis_executes [i, i, i, i]) Y \<and> member Y = member X
    \<and> answers Y i = [ms] \<and> R (rlog Y) k = []"
proof -
  have "length (cmds_of n (rlog X)) + count_list [i, i, i, i] n \<le> length (redis_out (wk (member X n)))" for n
    using executed_prefix [OF assms(1,3), of n] out by auto
  note run = cl_run_turns [OF assms(3) this]
  let ?Y = "fold (redis_turn R) [i, i, i, i] X"
  have log: "rlog ?Y = rlog X @ map (Exec i) [R_subscribe a, R_subscribe b, R_lrange k 0 (-1), R_del k]"
    using out by (simp add: redis_turn_def nth_append)
  have "answers ?Y i = [ms]"
    using out assms(4) stored by (simp add: redis_turn_def nth_append redis_after [OF assms(2)])
  moreover have "R (rlog ?Y) k = []"
    unfolding log using stored(2) by (subst redis_fold [OF assms(2)]) simp_all
  ultimately show ?thesis using run by (intro exI [of _ ?Y]) simp
qed

text \<open>C11: a user who logs in can get the messages stored for him, on any node of the cluster that is at
  rest: no read of stored messages is outstanding and all its commands are executed. When a client
  presents there the name and the key of the user, and no token, the run can go on with the four
  commands of the login being executed one after the other and with the answer, and then the queue
  of that session has the acknowledgement and every stored message, in order and marked to be kept,
  the session is in the table, and redis holds the messages no more. Of runs in which commands of
  other nodes come in between it says nothing.\<close>

theorem login_collects_messages:
  assumes "json_laws L" "redis_laws R" "cl_run L cfg R es X"
    and node: "S = member X i" "\<not> crashed (wk S)" "chat_queue (wk S) = []" "answers X i = []"
      "length (cmds_of i (rlog X)) = length (redis_out (wk S))"
    and sess: "pending s Async_read (wk S)" "heap (wk S) s = Some x" "\<not> is_logged_in x"
    and msg: "jparse L msg = Some j" "at_str L j ''cmd'' = Some ''login''"
      "at_str L j ''user'' = Some user" "at_str L j ''key'' = Some key"
      "make_hex_digest L user key = u" "u \<noteq> ''''" "jat L j ''token'' = None"
      "jdump L (login_ack L ''ok'') = Some ack"
    and stored: "k = r_chat_msg_prefix (c_redis cfg) @ u" "R (rlog X) k = ms" "'''' \<notin> set ms"
      "list_all (\<lambda>op. \<not> foreign k op) (rlog X)"
  shows "\<exists>X' y. cl_run L cfg R (es @ [Node_event i (E_read now False msg s)] @
        map Redis_executes [i, i, i, i] @ [Node_event i (E_lrange ms)]) X'
    \<and> map_of (sessions (wk (member X' i))) u = Some s \<and> heap (wk (member X' i)) s = Some y
    \<and> queued y = queued x @ (ack, False) # map (\<lambda>m. (m, True)) ms
    \<and> R (rlog X') k = []"
proof -
  have run: "sys_run L cfg (events_of i es) S" using member_run [OF assms(3)] node(1) by blast
  let ?v = "on_read L cfg now False msg s (wk S)" and ?e = "E_read now False msg s"
  let ?S = "S\<lparr>wk := ?v\<rparr>" and ?p = "c_redis cfg"
  let ?X = "X\<lparr>member := (member X)(i := ?S)\<rparr>"
  obtain y where y: "heap ?v s = Some y" "queued y = queued x @ [(ack, False)]"
    and v: "map_of (sessions ?v) u = Some s" "chat_queue ?v = [u]" "redis_out ?v = redis_out (wk S) @
        [ R_subscribe (r_user_notify_prefix ?p @ u), R_subscribe (r_presence_channel_prefix ?p @ u),
          R_lrange k 0 (-1), R_del k ]"
    using login_result [OF assms(1) run sess msg refl, of now] node(3) stored(1) by auto
  have s1: "sys_step L cfg S ?e ?S" using node(2) sess(1) by (rule s_read)
  have run1: "sys_run L cfg (events_of i es @ [?e]) ?S" by (rule sys_run.step [OF run s1])
  have r1: "cl_run L cfg R (es @ [Node_event i ?e]) ?X"
    using s1 node(1) by (intro cl_run.c_step [OF assms(3) c_node]) simp_all
  have "redis_out (wk (member ?X i)) = redis_out ?v" "answers ?X i = []" "rlog ?X = rlog X"
    using node(4) by simp_all
  from login_executed [OF assms(1,2) r1 this(2) this(1) [unfolded v(3)]] node(5) stored(2,4)
  obtain Y where r2: "cl_run L cfg R ((es @ [Node_event i ?e]) @ map Redis_executes [i, i, i, i]) Y"
    and Y: "member Y = (member X)(i := ?S)" "answers Y i = [ms]" "R (rlog Y) k = []" by auto
  have nolost: "lost ?S = 0" using member_lost [OF assms(3), of i] node(1) by simp
  have pend: "replies ?S < length (lrange_keys (redis_out (wk ?S)))"
    using v(2) sinvD(3) [OF sinv_sys_run [OF assms(1) run1]]
    by (auto simp: queue_inv_def dest!: list_all2_lengthD)
  let ?T = "?S\<lparr>wk := on_lrange cfg ms (wk ?S), replies := replies ?S + 1\<rparr>"
  have s2: "sys_step L cfg ?S (E_lrange ms) ?T"
    using sinv_read_ok(2) [OF assms(1) sinv_sys_run [OF assms(1) run] sess(1)] node(2) pend nolost
    by (intro s_lrange) simp_all
  let ?Z = "Y\<lparr>member := (member Y)(i := ?T), answers := (answers Y)(i := [])\<rparr>"
  have "cl_step L cfg R Y (Node_event i (E_lrange ms)) ?Z"
    by (rule c_answer [OF Y(2)]) (use s2 in \<open>simp add: Y(1)\<close>)
  from cl_run.c_step [OF r2 this]
  have r3: "cl_run L cfg R (es @ [Node_event i ?e] @ map Redis_executes [i, i, i, i] @
      [Node_event i (E_lrange ms)]) ?Z" by simp
  obtain z where z: "heap (wk ?T) s = Some z" "queued z = queued y @ map (\<lambda>m. (m, True)) ms"
    using lrange_delivers [OF assms(1) run1, of u "[]" ms] v(1,2) y(1) stored(3) by auto
  have "map_of (sessions (wk ?T)) u = Some s"
    using v(1,2) by (simp add: on_lrange_def Let_def on_db_chat_sessions)
  with r3 z y(2) Y(3) show ?thesis
    by (intro exI [of _ ?Z] exI [of _ z]) simp
qed

lemma waiting_run:
  "\<exists>es X. cl_run ref_lib sample_core R es X \<and> member X 0 = sample_conn \<and> answers X 0 = [] \<and>
     rlog X = map (Exec 1) (redis_out (wk bob_wrote))"
proof -
  let ?is = "[1, 1, 1, 1, 1, 1, 1, 1]"
  let ?C = "init_cluster\<lparr>member := (\<lambda>_. init_sys)(0 := sample_conn, 1 := bob_wrote)\<rparr>"
  have "\<exists>es. cl_run ref_lib sample_core R es (init_cluster\<lparr>member := (member init_cluster)(0 := sample_conn)\<rparr>)"
    by (intro exI, rule cl_run_node [OF sample_conn_run _ cl_run.c_start]) (simp_all add: init_cluster_def)
  then obtain es where "cl_run ref_lib sample_core R es
      (init_cluster\<lparr>member := (member init_cluster)(0 := sample_conn)\<rparr>)" by blast
  from cl_run_node [OF bob_wrote_run _ this, of 1]
  have "\<exists>es. cl_run ref_lib sample_core R es ?C" by (auto simp: init_cluster_def)
  then obtain es where es: "cl_run ref_lib sample_core R es ?C" by blast
  have "length (cmds_of i (rlog ?C)) + count_list ?is i \<le> length (redis_out (wk (member ?C i)))" for i
    by (auto simp: init_cluster_def bob_wrote_out login_cmds_sample)
  from cl_run_turns [OF es this] have "\<exists>es. cl_run ref_lib sample_core R es (fold (redis_turn R) ?is ?C)"
    by blast
  moreover have "rlog (fold (redis_turn R) ?is ?C) = map (Exec 1) (redis_out (wk bob_wrote))"
    "answers (fold (redis_turn R) ?is ?C) 0 = []" "member (fold (redis_turn R) ?is ?C) 0 = sample_conn"
    by (simp_all add: redis_turn_def bob_wrote_out sample_as_eq init_cluster_def)
  ultimately show ?thesis by blast
qed

theorem login_collects_messages_witness:
  "\<exists>es X y. cl_run ref_lib sample_core ref_redis es X \<and> heap (wk (member X 0)) 0 = Some y
     \<and> queued y = [(sample_ack, False), (bob_text, True)]"
proof -
  obtain es X where run: "cl_run ref_lib sample_core ref_redis es X" and X: "member X 0 = sample_conn"
    "answers X 0 = []" "rlog X = map (Exec 1) (redis_out (wk bob_wrote))"
    using waiting_run by blast
  let ?x = "new_session\<lparr>pending_ops := [Async_read]\<rparr>"
  have S: "sample_conn = member X 0" "\<not> crashed (wk sample_conn)" "chat_queue (wk sample_conn) = []"
    "length (cmds_of 0 (rlog X)) = length (redis_out (wk sample_conn))"
    "pending 0 Async_read (wk sample_conn)" "heap (wk sample_conn) 0 = Some ?x" "\<not> is_logged_in ?x"
    using X by (simp_all add: sample_conn_eq init_worker_def pending_def is_logged_in_def new_session_def
        bob_wrote_out sample_as_eq)
  note eval = X(3) bob_wrote_out sample_as_eq ann_key_facts
  have stored: "ref_redis (rlog X) ann_key = [bob_text]" "'''' \<notin> set [bob_text]"
    "list_all (\<lambda>op. \<not> foreign ann_key op) (rlog X)"
    by (simp_all add: eval ref_redis_def not_le) (simp add: bob_text_def not_sym [OF enc_nonempty])
  obtain X' y where "cl_run ref_lib sample_core ref_redis (es @ [Node_event 0
        (E_read 0 False (enc (login_json ''ann'')) 0)] @ map Redis_executes [0, 0, 0, 0] @
        [Node_event 0 (E_lrange [bob_text])]) X'"
    "heap (wk (member X' 0)) 0 = Some y"
    "queued y = queued ?x @ (sample_ack, False) # map (\<lambda>m. (m, True)) [bob_text]"
    using login_collects_messages [OF ref_json_laws ref_redis_laws run S(1-3) X(2) S(4-7), of
        "enc (login_json ''ann'')" "login_json ''ann''" "''ann''" "replicate 32 CHR ''k''"
        "sample_id ''ann''" sample_ack ann_key "[bob_text]" 0] stored
    by (auto simp: ann_key_def sample_ack_def)
  then show ?thesis by (intro exI conjI) (auto simp: queued_def new_session_def)
qed

end
