(* ===== verification/Notifier.thy ===== *)
theory Notifier
  imports Worker_State
begin

text \<open>
  \<open>src/notifier.cpp\<close>, \<open>src/ntf_session.cpp\<close>: the push notifier, a program of its own that
  listens on redis and sends a notification for a chat message that nobody fetched in time. A timer
  of the library is modelled by its waits: a wait is armed until the timer expires or is cancelled,
  then its completion is queued, and the handler runs later in the event loop.
\<close>

section \<open>The messages sent to the notification service\<close>

definition make_ntf_body :: "'j extern \<Rightarrow> string \<Rightarrow> string \<Rightarrow> string \<Rightarrow> 'j" where
  "make_ntf_body L msg_title msg_body fcm_token = jobject L
     [ (''notification'', jobject L
          [ (''title'', of_str L msg_title), (''body'', of_str L msg_body),
            (''tag'', of_str L ''chat'') ]),
       (''priority'', of_str L ''high''),
       (''collapse_key'', of_str L ''chat''),
       (''data'', jobject L
          [ (''click_action'', of_str L ''FLUTTER_NOTIFICATION_CLICK''),
            (''id'', of_str L ''1''), (''status'', of_str L ''done'') ]),
       (''to'', of_str L fcm_token) ]"

record ntf_cfg =
  fcm_port :: string
  fcm_host :: string
  fcm_target :: string
  fcm_server_token :: string
  fcm_version :: c_int

definition is_fcm_valid :: "ntf_cfg \<Rightarrow> bool" where
  "is_fcm_valid c \<longleftrightarrow>
     \<not> (fcm_port c = '''' \<or> fcm_host c = '''' \<or> fcm_target c = '''' \<or> fcm_server_token c = '''')"

record ntf_request =
  nq_version :: c_int
  nq_target :: string
  nq_host :: string
  nq_content_type :: string
  nq_authorization :: string
  nq_content_length :: nat
  nq_body :: string

text \<open>
  The operation a session has outstanding; \<open>Closed\<close> when none is, and it is freed. \<open>ns_expires\<close> is
  the time limit in seconds set on the stream.
\<close>

datatype ntf_phase = Connecting | Handshaking | Writing | Reading | Shutting_down | Closed

record ntf_session =
  ns_phase :: ntf_phase
  ns_req :: "ntf_request option"
  ns_expires :: "nat option"

definition ntf_timeout :: nat where
  "ntf_timeout = 30"

text \<open>\<open>sni_ok\<close>: the host name could be set on the TLS stream.\<close>

definition ntf_run :: "bool \<Rightarrow> ntf_cfg \<Rightarrow> string \<Rightarrow> ntf_session" where
  "ntf_run sni_ok c body =
     (if \<not> sni_ok then \<lparr> ns_phase = Closed, ns_req = None, ns_expires = None \<rparr>
      else \<lparr> ns_phase = Connecting,
             ns_req = Some \<lparr> nq_version = fcm_version c, nq_target = fcm_target c,
               nq_host = fcm_host c, nq_content_type = ''application/json'',
               nq_authorization = fcm_server_token c, nq_content_length = length body,
               nq_body = body \<rparr>,
             ns_expires = None \<rparr>)"

text \<open>The completion handlers; \<open>ec\<close> tells whether the operation failed.\<close>

fun ntf_on_connect :: "bool \<Rightarrow> ntf_session \<Rightarrow> ntf_session" where
  "ntf_on_connect ec s = s\<lparr>ns_phase := (if ec then Closed else Handshaking)\<rparr>"

fun ntf_on_handshake :: "bool \<Rightarrow> ntf_session \<Rightarrow> ntf_session" where
  "ntf_on_handshake ec s =
     (if ec then s\<lparr>ns_phase := Closed\<rparr>
      else s\<lparr>ns_expires := Some ntf_timeout, ns_phase := Writing\<rparr>)"

fun ntf_on_write :: "bool \<Rightarrow> ntf_session \<Rightarrow> ntf_session" where
  "ntf_on_write ec s = s\<lparr>ns_phase := (if ec then Closed else Reading)\<rparr>"

fun ntf_on_read :: "bool \<Rightarrow> ntf_session \<Rightarrow> ntf_session" where
  "ntf_on_read ec s =
     (if ec then s\<lparr>ns_phase := Closed\<rparr>
      else s\<lparr>ns_expires := Some ntf_timeout, ns_phase := Shutting_down\<rparr>)"

fun ntf_on_shutdown :: "bool \<Rightarrow> ntf_session \<Rightarrow> ntf_session" where
  "ntf_on_shutdown ec s = s\<lparr>ns_phase := Closed\<rparr>"

section \<open>State\<close>

definition redis_rpush_ntf :: string where
  "redis_rpush_ntf = ''__keyevent@0__:rpush''"

definition redis_del_ntf :: string where
  "redis_del_ntf = ''__keyevent@0__:del''"

record notifier_cfg =
  n_ssl_cert_file :: string
  n_ssl_priv_key_file :: string
  n_ssl_dh_file :: string
  n_redis_notify_channel :: string
  n_redis_tokens_key :: string
  n_redis_host :: string
  n_redis_port :: string
  n_redis_max_pipeline_size :: c_int
  n_ntf :: ntf_cfg
  n_max_msg_size :: c_int
  n_wait_interval :: c_int

text \<open>\<open>u_node\<close> identifies the node of the map that holds the entry.\<close>

record 'j user_entry =
  u_token :: string
  u_msg :: 'j
  u_node :: nat

definition has_token :: "'j user_entry \<Rightarrow> bool" where
  "has_token e \<longleftrightarrow> u_token e \<noteq> ''''"

datatype wait_state = Armed | Expired | Aborted

text \<open>
  The handler of a wait has captured an iterator: to the node \<open>wt_node\<close>, taken when the map had
  been rehashed \<open>wt_epoch\<close> times. By the C++ standard it is valid until that entry is erased or the
  map is rehashed.
\<close>

record wait =
  wt_node :: nat
  wt_epoch :: nat
  wt_state :: wait_state

text \<open>
  \<open>n_buckets\<close> is the number of buckets of the map, zero before the first insertion, when there is no
  iterator to it; \<open>n_epoch\<close> counts its rehashes. \<open>launched\<close> lists the bodies handed to a new
  \<open>ntf_session\<close>; \<open>dangling\<close> is set when a handler follows an iterator that is no longer valid.
\<close>

record 'j notifier =
  tokens :: "(string \<times> 'j user_entry) list"
  waits :: "wait list"
  next_node :: nat
  n_buckets :: nat
  n_epoch :: nat
  launched :: "string list"
  n_redis_out :: "redis_cmd list"
  dangling :: bool

section \<open>Operations\<close>

text \<open>\<open>timer.cancel()\<close>, also the effect of destroying the timer.\<close>

definition cancel_timer :: "nat \<Rightarrow> 'j notifier \<Rightarrow> 'j notifier" where
  "cancel_timer node n =
     n\<lparr>waits := map (\<lambda>wt. if wt_node wt = node \<and> wt_state wt = Armed
        then wt\<lparr>wt_state := Aborted\<rparr> else wt) (waits n)\<rparr>"

definition on_ntf_message :: "'j extern \<Rightarrow> notifier_cfg \<Rightarrow> 'j \<Rightarrow> 'j notifier \<Rightarrow> unit option \<times> 'j notifier" where
  "on_ntf_message L cfg j n =
     (case at_str L j ''to'' of
        None \<Rightarrow> (None, n)
      | Some to \<Rightarrow>
          if \<not> is_fcm_valid (n_ntf cfg) then (Some (), n)
          else
            (case map_of (tokens n) to of
               None \<Rightarrow> (Some (), n)
             | Some e \<Rightarrow>
                 if \<not> has_token e then (Some (), n)
                 else
                   let n = n\<lparr>tokens := AList.update to (e\<lparr>u_msg := j\<rparr>) (tokens n)\<rparr>;
                       n = cancel_timer (u_node e) n
                   in (Some (), n\<lparr>waits := waits n @
                        [\<lparr> wt_node = u_node e, wt_epoch = n_epoch n, wt_state = Armed \<rparr>]\<rparr>)))"

definition find_node :: "nat \<Rightarrow> 'j notifier \<Rightarrow> 'j user_entry option" where
  "find_node node n =
     (case List.find (\<lambda>(u, e). u_node e = node) (tokens n) of None \<Rightarrow> None | Some (u, e) \<Rightarrow> Some e)"

text \<open>The text of a notification: \<open>resize\<close> to a negative size throws.\<close>

definition truncated :: "c_int \<Rightarrow> string \<Rightarrow> string option" where
  "truncated max_size msg =
     (if sint max_size < int (length msg)
      then (if sint max_size < 0 then None else Some (take (nat (sint max_size)) msg))
      else Some msg)"

definition on_timeout :: "'j extern \<Rightarrow> notifier_cfg \<Rightarrow> wait \<Rightarrow> 'j notifier \<Rightarrow> 'j notifier" where
  "on_timeout L cfg wt n =
     (if wt_state wt = Aborted then n
      else if wt_epoch wt \<noteq> n_epoch n then n\<lparr>dangling := True\<rparr>
      else
        (case find_node (wt_node wt) n of
           None \<Rightarrow> n\<lparr>dangling := True\<rparr>
         | Some e \<Rightarrow>
             (case do { msg \<leftarrow> at_str L (u_msg e) ''body'';
                        msg \<leftarrow> truncated (n_max_msg_size cfg) msg;
                        nick \<leftarrow> at_str L (u_msg e) ''nick'';
                        jdump L (make_ntf_body L nick msg (u_token e)) } of
                None \<Rightarrow> n
              | Some body \<Rightarrow> n\<lparr>launched := launched n @ [body]\<rparr>)))"

definition on_ntf_del :: "string \<Rightarrow> 'j notifier \<Rightarrow> 'j notifier" where
  "on_ntf_del key n =
     (case map_of (tokens n) key of None \<Rightarrow> n | Some e \<Rightarrow> cancel_timer (u_node e) n)"

definition erase_token :: "string \<Rightarrow> 'j notifier \<Rightarrow> 'j notifier" where
  "erase_token user_id n =
     (case map_of (tokens n) user_id of
        None \<Rightarrow> n
      | Some e \<Rightarrow> cancel_timer (u_node e) (n\<lparr>tokens := AList.delete user_id (tokens n)\<rparr>))"

text \<open>\<open>tokens_.insert\<close>: an entry that is already there stays; a new one may make the map rehash.\<close>

definition insert_token :: "'j extern \<Rightarrow> string \<Rightarrow> string \<Rightarrow> 'j notifier \<Rightarrow> bool \<times> 'j notifier" where
  "insert_token L user_id token n =
     (case map_of (tokens n) user_id of
        Some _ \<Rightarrow> (False, n)
      | None \<Rightarrow>
          let b = hash_grow L (n_buckets n) (Suc (length (tokens n)))
          in (True,
              n\<lparr>tokens := (user_id, \<lparr> u_token = token, u_msg = jnull L, u_node = next_node n \<rparr>) # tokens n,
                next_node := Suc (next_node n), n_buckets := b,
                n_epoch := (if b = n_buckets n then n_epoch n else Suc (n_epoch n))\<rparr>))"

definition on_ntf_publish :: "'j extern \<Rightarrow> notifier_cfg \<Rightarrow> string \<Rightarrow> 'j notifier \<Rightarrow> unit option \<times> 'j notifier" where
  "on_ntf_publish L cfg payload n =
     (case do { j \<leftarrow> jparse L payload; cmd \<leftarrow> at_str L j ''cmd''; Some (j, cmd) } of
        None \<Rightarrow> (None, n)
      | Some (j, cmd) \<Rightarrow>
          if cmd = ''message'' then on_ntf_message L cfg j n
          else if cmd = ''token'' then
            (case do { user_id \<leftarrow> at_str L j ''user_id''; token \<leftarrow> at_str L j ''token'';
                       Some (user_id, token) } of
               None \<Rightarrow> (None, n)
             | Some (user_id, token) \<Rightarrow>
                 if token = '''' then (Some (), erase_token user_id n)
                 else
                   let (inserted, n) = insert_token L user_id token n
                   in if inserted then (Some (), n)
                      else (Some (), n\<lparr>tokens := map (\<lambda>(u, e). (u, if u = user_id
                              then e\<lparr>u_token := token\<rparr> else e)) (tokens n)\<rparr>))
          else (Some (), n))"

definition is_pmessage :: "string list \<Rightarrow> string \<Rightarrow> bool" where
  "is_pmessage resp match \<longleftrightarrow>
     (if length resp \<noteq> 4 then False
      else if hd resp \<noteq> ''pmessage'' then False
      else if resp ! 1 = match then True
      else False)"

definition is_message :: "string list \<Rightarrow> string \<Rightarrow> bool" where
  "is_message resp ch \<longleftrightarrow>
     (if length resp \<noteq> 3 then False
      else if hd resp \<noteq> ''message'' then False
      else if resp ! 1 = ch then True
      else False)"

text \<open>An exception is logged; what was done before it stays.\<close>

definition ntf_on_push :: "'j extern \<Rightarrow> notifier_cfg \<Rightarrow> string list \<Rightarrow> 'j notifier \<Rightarrow> 'j notifier" where
  "ntf_on_push L cfg v n =
     (if is_pmessage v redis_del_ntf then on_ntf_del (last v) n
      else if is_message v (n_redis_notify_channel cfg)
      then snd (on_ntf_publish L cfg (last v) n)
      else n)"

text \<open>\<open>on_hgetall\<close>: pairs of user id and token, an odd element at the end is left out.\<close>

fun ntf_on_hgetall :: "'j extern \<Rightarrow> string list \<Rightarrow> 'j notifier \<Rightarrow> 'j notifier" where
  "ntf_on_hgetall L (u # t # v) n = ntf_on_hgetall L v (snd (insert_token L u t n))"
| "ntf_on_hgetall L _ n = n"

definition ntf_init :: "notifier_cfg \<Rightarrow> 'j notifier \<Rightarrow> 'j notifier" where
  "ntf_init cfg n =
     n\<lparr>n_redis_out := n_redis_out n @
        [ R_psubscribe [redis_del_ntf], R_subscribe (n_redis_notify_channel cfg),
          R_hgetall (n_redis_tokens_key cfg) ]\<rparr>"

definition new_notifier :: "notifier_cfg \<Rightarrow> 'j notifier" where
  "new_notifier cfg = ntf_init cfg
     \<lparr> tokens = [], waits = [], next_node = 0, n_buckets = 0, n_epoch = 0,
       launched = [], n_redis_out = [], dangling = False \<rparr>"

definition make_tokens_file_content :: "(string \<times> 'j user_entry) list \<Rightarrow> string" where
  "make_tokens_file_content m =
     foldl (\<lambda>i (u, e). i @ u @ [CHR 0x0a] @ u_token e @ [CHR 0x0a]) '''' m"

section \<open>Steps\<close>

datatype ntf_event =
    N_push "string list"
  | N_hgetall "string list"
  | N_expire nat
  | N_handler nat

text \<open>
  \<open>N_expire i\<close>: the timer of the \<open>i\<close>-th wait runs out; \<open>N_handler i\<close>: the event loop runs the
  completion handler of the \<open>i\<close>-th wait, which is queued.
\<close>

definition expire_wait :: "nat \<Rightarrow> 'j notifier \<Rightarrow> 'j notifier" where
  "expire_wait i n = n\<lparr>waits := (waits n)[i := (waits n ! i)\<lparr>wt_state := Expired\<rparr>]\<rparr>"

inductive ntf_step :: "'j extern \<Rightarrow> notifier_cfg \<Rightarrow> 'j notifier \<Rightarrow> ntf_event \<Rightarrow> 'j notifier \<Rightarrow> bool"
  for L cfg n where
  n_push: "ntf_step L cfg n (N_push v) (ntf_on_push L cfg v n)"
| n_hgetall: "ntf_step L cfg n (N_hgetall v) (ntf_on_hgetall L v n)"
| n_expire: "i < length (waits n) \<Longrightarrow> wt_state (waits n ! i) = Armed \<Longrightarrow>
     ntf_step L cfg n (N_expire i) (expire_wait i n)"
| n_handler: "i < length (waits n) \<Longrightarrow> wt_state (waits n ! i) \<noteq> Armed \<Longrightarrow>
     ntf_step L cfg n (N_handler i)
       (on_timeout L cfg (waits n ! i) (n\<lparr>waits := erase_at i (waits n)\<rparr>))"

inductive_cases ntf_stepE: "ntf_step L cfg n e n'"

inductive ntf_reach :: "'j extern \<Rightarrow> notifier_cfg \<Rightarrow> ntf_event list \<Rightarrow> 'j notifier \<Rightarrow> bool" for L cfg where
  n_start: "ntf_reach L cfg [] (new_notifier cfg)"
| n_step: "ntf_reach L cfg es n \<Longrightarrow> ntf_step L cfg n e n' \<Longrightarrow> ntf_reach L cfg (es @ [e]) n'"

end
