(* ===== verification/Notifier_Facts.thy ===== *)
theory Notifier_Facts
  imports Notifier Http_Facts
begin

text \<open>
  The push notifier in every state it reaches: the invariant of its entries and timers, and a sample
  run in which it learns a token and gets a message.
\<close>

section \<open>The invariant\<close>

definition nodes :: "'j notifier \<Rightarrow> nat set" where
  "nodes n = (\<lambda>(u, e). u_node e) ` set (tokens n)"

definition armed :: "nat \<Rightarrow> 'j notifier \<Rightarrow> nat" where
  "armed node n = length (filter (\<lambda>wt. wt_node wt = node \<and> wt_state wt = Armed) (waits n))"

definition ninv :: "'j notifier \<Rightarrow> bool" where
  "ninv n \<longleftrightarrow>
     distinct (map fst (tokens n)) \<and> distinct (map (\<lambda>(u, e). u_node e) (tokens n)) \<and>
     (\<forall>k \<in> nodes n. k < next_node n) \<and> (\<forall>wt \<in> set (waits n). wt_node wt < next_node n) \<and>
     (\<forall>k. armed k n \<le> 1) \<and> (\<forall>k. 0 < armed k n \<longrightarrow> k \<in> nodes n)"

lemma map_of_nodes: "map_of (tokens n) u = Some e \<Longrightarrow> u_node e \<in> nodes n"
  by (force simp: nodes_def dest: map_of_SomeD)

lemma cancel_sel [simp]:
  "tokens (cancel_timer k n) = tokens n" "next_node (cancel_timer k n) = next_node n"
  "launched (cancel_timer k n) = launched n" "dangling (cancel_timer k n) = dangling n"
  "nodes (cancel_timer k n) = nodes n" "n_epoch (cancel_timer k n) = n_epoch n"
  "n_buckets (cancel_timer k n) = n_buckets n"
  by (simp_all add: cancel_timer_def nodes_def)

lemma armed_cancel: "armed j (cancel_timer k n) = (if j = k then 0 else armed j n)"
proof -
  have "length (filter (\<lambda>wt. wt_node wt = j \<and> wt_state wt = Armed)
      (map (\<lambda>wt. if wt_node wt = k \<and> wt_state wt = Armed then wt\<lparr>wt_state := Aborted\<rparr> else wt) ws)) =
    (if j = k then 0 else length (filter (\<lambda>wt. wt_node wt = j \<and> wt_state wt = Armed) ws))" for ws
  proof (cases "j = k")
    case True
    have "filter (\<lambda>wt. wt_node wt = k \<and> wt_state wt = Armed)
      (map (\<lambda>wt. if wt_node wt = k \<and> wt_state wt = Armed then wt\<lparr>wt_state := Aborted\<rparr> else wt) ws) = []"
      by (induction ws) simp_all
    with True show ?thesis by simp
  next
    case False
    then show ?thesis by (induction ws) auto
  qed
  from this [of "waits n"] show ?thesis by (simp add: armed_def cancel_timer_def)
qed

lemma waits_cancel: "wt \<in> set (waits (cancel_timer k n)) \<Longrightarrow> \<exists>v \<in> set (waits n). wt_node wt = wt_node v"
  by (auto simp: cancel_timer_def)

lemma ninv_cancel: "ninv n \<Longrightarrow> ninv (cancel_timer k n)"
  by (auto simp: ninv_def armed_cancel dest!: waits_cancel)

lemma ninv_init: "ninv (new_notifier cfg)"
  by (simp add: ninv_def new_notifier_def ntf_init_def nodes_def armed_def)

text \<open>Replacing the contents of an entry leaves its node.\<close>

lemma update_nodes:
  assumes "distinct (map fst ts)" "map_of ts u = Some e" "u_node e' = u_node e"
  shows "map (\<lambda>(u, e). u_node e) (AList.update u e' ts) = map (\<lambda>(u, e). u_node e) ts"
  using assms by (induction ts) auto

lemma nodes_update:
  assumes "ninv n" "map_of (tokens n) u = Some e" "u_node e' = u_node e"
  shows "nodes (n\<lparr>tokens := AList.update u e' (tokens n)\<rparr>) = nodes n"
proof -
  have "distinct (map fst (tokens n))" using assms(1) by (simp add: ninv_def)
  from arg_cong [OF update_nodes [OF this assms(2,3)], of set] show ?thesis
    by (simp add: nodes_def)
qed

lemma ninv_update:
  assumes "ninv n" "map_of (tokens n) u = Some e" "u_node e' = u_node e"
  shows "ninv (n\<lparr>tokens := AList.update u e' (tokens n)\<rparr>)"
proof -
  have d: "distinct (map fst (tokens n))" using assms(1) by (simp add: ninv_def)
  from assms(1) update_nodes [OF d assms(2,3)] nodes_update [OF assms] show ?thesis
    by (simp add: ninv_def distinct_update armed_def)
qed

lemma ninv_message:
  assumes "ninv n" "on_ntf_message L cfg j n = (r, n')"
  shows "ninv n'"
proof -
  have add: "ninv (v\<lparr>waits := waits v @ [\<lparr> wt_node = k, wt_epoch = i, wt_state = Armed \<rparr>]\<rparr>)"
    if "ninv v" "k \<in> nodes v" "armed k v = 0" for k v i
  proof -
    have "armed j (v\<lparr>waits := waits v @ [\<lparr> wt_node = k, wt_epoch = i, wt_state = Armed \<rparr>]\<rparr>) =
        armed j v + (if j = k then 1 else 0)" for j
      by (simp add: armed_def)
    with that show ?thesis by (auto simp: ninv_def nodes_def)
  qed
  from assms show ?thesis
    by (auto simp: on_ntf_message_def Let_def armed_cancel split: option.splits if_splits
        simp: nodes_update
        intro!: add ninv_cancel ninv_update intro: map_of_nodes)
qed

lemma delete_nodes:
  "distinct (map fst ts) \<Longrightarrow> distinct (map (\<lambda>(u, e). u_node e) ts) \<Longrightarrow> map_of ts u = Some e \<Longrightarrow>
     distinct (map (\<lambda>(u, e). u_node e) (AList.delete u ts)) \<and>
     (\<lambda>(u, e). u_node e) ` set (AList.delete u ts) = (\<lambda>(u, e). u_node e) ` set ts - {u_node e}"
proof (induction ts)
  case (Cons x ts)
  obtain v f where x: "x = (v, f)" by fastforce
  show ?case
  proof (cases "v = u")
    case True
    with Cons.prems x have "AList.delete u ts = ts" "e = f"
      by (auto simp: delete_id)
    with Cons.prems x True show ?thesis by auto
  next
    case False
    with Cons x have ih: "distinct (map (\<lambda>(u, e). u_node e) (AList.delete u ts))"
      "(\<lambda>(u, e). u_node e) ` set (AList.delete u ts) = (\<lambda>(u, e). u_node e) ` set ts - {u_node e}"
      and e: "map_of ts u = Some e" by simp_all
    have "u_node e \<in> (\<lambda>(u, e). u_node e) ` set ts" using map_of_SomeD [OF e] by force
    moreover have "u_node f \<notin> (\<lambda>(u, e). u_node e) ` set ts" using Cons.prems(2) x by simp
    ultimately have "u_node f \<noteq> u_node e" by metis
    with ih \<open>u_node f \<notin> _\<close> False show ?thesis by (auto simp: x)
  qed
qed simp

lemma ninv_erase: "ninv n \<Longrightarrow> ninv (erase_token u n)"
proof (cases "map_of (tokens n) u")
  case (Some e)
  assume inv: "ninv n"
  then have "distinct (map fst (tokens n))" "distinct (map (\<lambda>(u, e). u_node e) (tokens n))"
    by (simp_all add: ninv_def)
  note del = delete_nodes [OF this Some]
  let ?n = "n\<lparr>tokens := AList.delete u (tokens n)\<rparr>"
  have "nodes ?n = nodes n - {u_node e}" using del by (simp add: nodes_def)
  moreover have "armed k ?n = armed k n" for k by (simp add: armed_def)
  ultimately show ?thesis
    using inv del by (auto simp: erase_token_def Some ninv_def armed_cancel distinct_delete
        dest!: waits_cancel)
qed (simp add: erase_token_def)

lemma ninv_insert:
  assumes "ninv n" "insert_token L u t n = (b, n')"
  shows "ninv n'"
proof (cases "map_of (tokens n) u")
  case None
  with assms(2) obtain k m where
    n': "n' = n\<lparr>tokens := (u, \<lparr> u_token = t, u_msg = jnull L, u_node = next_node n \<rparr>) # tokens n,
      next_node := Suc (next_node n), n_buckets := k, n_epoch := m\<rparr>"
    by (auto simp: insert_token_def Let_def)
  have "nodes n' = insert (next_node n) (nodes n)" by (simp add: n' nodes_def)
  moreover have "armed k n' = armed k n" for k by (simp add: n' armed_def)
  moreover have "next_node n \<notin> (\<lambda>(u, e). u_node e) ` set (tokens n)"
    using assms(1) by (auto simp: ninv_def nodes_def)
  ultimately show ?thesis
    using assms(1) None by (auto simp: ninv_def n' less_Suc_eq map_of_eq_None_iff)
qed (use assms in \<open>auto simp: insert_token_def\<close>)

lemma retoken_map:
  "map (\<lambda>(u, e). u_node e) (map (\<lambda>(u, e). (u, if u = v then e\<lparr>u_token := t\<rparr> else e)) ts) =
     map (\<lambda>(u, e). u_node e) ts"
  "map fst (map (\<lambda>(u, e). (u, if u = v then e\<lparr>u_token := t\<rparr> else e)) ts) = map fst ts"
  by auto

lemma ninv_retoken:
  assumes "ninv n"
  shows "ninv (n\<lparr>tokens := map (\<lambda>(u, e). (u, if u = v then e\<lparr>u_token := t\<rparr> else e)) (tokens n)\<rparr>)"
    (is "ninv ?n")
proof -
  have "nodes ?n = nodes n"
    using arg_cong [OF retoken_map(1) [of v t "tokens n"], of set] by (simp only: nodes_def set_map) simp
  moreover have "armed k ?n = armed k n" for k by (simp add: armed_def)
  moreover have "map fst (tokens ?n) = map fst (tokens n)"
    "map (\<lambda>(u, e). u_node e) (tokens ?n) = map (\<lambda>(u, e). u_node e) (tokens n)"
    using retoken_map [of _ _ "tokens n"] by simp_all
  ultimately show ?thesis using assms by (simp only: ninv_def) simp
qed

lemma ninv_publish: "ninv n \<Longrightarrow> on_ntf_publish L cfg s n = (r, n') \<Longrightarrow> ninv n'"
  by (auto simp: on_ntf_publish_def Let_def split: option.splits if_splits prod.splits
      intro: ninv_message ninv_erase ninv_insert ninv_retoken)

lemma ninv_push: "ninv n \<Longrightarrow> ninv (ntf_on_push L cfg v n)"
proof -
  assume inv: "ninv n"
  obtain r n' where "on_ntf_publish L cfg (last v) n = (r, n')" by fastforce
  with ninv_publish [OF inv this] inv show ?thesis
    by (auto simp: ntf_on_push_def on_ntf_del_def split: option.splits intro: ninv_cancel)
qed

lemma ninv_hgetall: "ninv n \<Longrightarrow> ninv (ntf_on_hgetall L v n)"
proof (induction L v n rule: ntf_on_hgetall.induct)
  case (1 L u t v n)
  obtain b n' where "insert_token L u t n = (b, n')" by fastforce
  with 1 ninv_insert [OF "1.prems" this] show ?case by simp
qed simp_all

lemma armed_expire: "armed k (expire_wait i n) \<le> armed k n"
proof -
  let ?P = "\<lambda>wt. wt_node wt = k \<and> wt_state wt = Armed"
  have "length (filter ?P (ws[i := (ws ! i)\<lparr>wt_state := Expired\<rparr>])) \<le> length (filter ?P ws)" for ws
  proof (induction ws arbitrary: i)
    case (Cons w ws)
    then show ?case by (cases i) (simp_all add: le_SucI)
  qed simp
  then show ?thesis by (simp add: armed_def expire_wait_def)
qed

lemma ninv_expire: "ninv n \<Longrightarrow> i < length (waits n) \<Longrightarrow> ninv (expire_wait i n)"
proof -
  assume inv: "ninv n" and i: "i < length (waits n)"
  have a: "armed k (expire_wait i n) \<le> 1" "0 < armed k (expire_wait i n) \<Longrightarrow> 0 < armed k n" for k
    using armed_expire [of k i n] inv by (auto simp: ninv_def intro: le_trans)
  have "wt_node wt < next_node n" if "wt \<in> set (waits (expire_wait i n))" for wt
    using that inv i nth_mem [OF i]
    by (auto simp: expire_wait_def ninv_def dest!: set_update_subset_insert [THEN subsetD])
  moreover have "nodes (expire_wait i n) = nodes n" by (simp add: nodes_def expire_wait_def)
  ultimately show ?thesis
    using inv a by (auto simp: ninv_def) (simp_all add: expire_wait_def)
qed

lemma on_timeout_sel [simp]:
  "tokens (on_timeout L cfg wt n) = tokens n" "waits (on_timeout L cfg wt n) = waits n"
  "next_node (on_timeout L cfg wt n) = next_node n" "n_epoch (on_timeout L cfg wt n) = n_epoch n"
  "n_buckets (on_timeout L cfg wt n) = n_buckets n"
  by (simp_all add: on_timeout_def split: option.splits)

lemma armed_erase: "wt_state (waits n ! i) \<noteq> Armed \<Longrightarrow> i < length (waits n) \<Longrightarrow>
    armed k (n\<lparr>waits := erase_at i (waits n)\<rparr>) = armed k n"
proof -
  let ?P = "\<lambda>wt. wt_node wt = k \<and> wt_state wt = Armed"
  have "wt_state (ws ! i) \<noteq> Armed \<Longrightarrow> i < length ws \<Longrightarrow> filter ?P (erase_at i ws) = filter ?P ws"
    for ws :: "wait list"
  proof (induction ws arbitrary: i)
    case (Cons w ws)
    then show ?case by (cases i) simp_all
  qed simp
  then show "wt_state (waits n ! i) \<noteq> Armed \<Longrightarrow> i < length (waits n) \<Longrightarrow>
    armed k (n\<lparr>waits := erase_at i (waits n)\<rparr>) = armed k n"
    by (simp add: armed_def)
qed

lemma ninv_step: "ninv n \<Longrightarrow> ntf_step L cfg n e n' \<Longrightarrow> ninv n'"
proof (erule ntf_step.cases)
  fix i assume inv: "ninv n" and i: "i < length (waits n)" "wt_state (waits n ! i) \<noteq> Armed"
    and n': "n' = on_timeout L cfg (waits n ! i) (n\<lparr>waits := erase_at i (waits n)\<rparr>)"
  have "armed k n' = armed k n" for k
    using armed_erase [OF i(2,1), of k] by (simp add: n' armed_def)
  moreover have "nodes n' = nodes n" by (simp add: nodes_def n')
  ultimately show "ninv n'"
    using inv set_erase_at_subset [of i "waits n"] by (auto simp: ninv_def n')
qed (auto intro: ninv_push ninv_hgetall ninv_expire)

lemma ninv_reach: "ntf_reach L cfg es n \<Longrightarrow> ninv n"
  by (induction rule: ntf_reach.induct) (auto intro: ninv_init ninv_step)

section \<open>Properties\<close>

definition tok :: "'j notifier \<Rightarrow> string \<Rightarrow> string option" where
  "tok n u = map_option u_token (map_of (tokens n) u)"

text \<open>C35: the notifier never has two timers running for one user, and a running timer belongs to an entry
  that is there: however messages, tokens, deletions and expiries interleave, every user has at most
  one entry, every entry at most one armed wait, and every armed wait an entry.\<close>

theorem one_timer_per_user:
  assumes "ntf_reach L cfg es n"
  shows "distinct (map fst (tokens n)) \<and>
    (\<forall>u e. map_of (tokens n) u = Some e \<longrightarrow> armed (u_node e) n \<le> 1) \<and>
    (\<forall>wt \<in> set (waits n). wt_state wt = Armed \<longrightarrow>
       (\<exists>u e. map_of (tokens n) u = Some e \<and> u_node e = wt_node wt))"
proof -
  note inv = ninv_reach [OF assms]
  have "\<exists>u e. map_of (tokens n) u = Some e \<and> u_node e = wt_node wt"
    if "wt \<in> set (waits n)" "wt_state wt = Armed" for wt
  proof -
    have "0 < armed (wt_node wt) n" using that by (force simp: armed_def filter_empty_conv)
    then have "wt_node wt \<in> nodes n" using inv by (simp add: ninv_def)
    with inv show ?thesis by (force simp: nodes_def ninv_def)
  qed
  with inv show ?thesis by (simp add: ninv_def)
qed

section \<open>A run\<close>

definition sample_ntf :: notifier_cfg where
  "sample_ntf = \<lparr> n_ssl_cert_file = '''', n_ssl_priv_key_file = '''', n_ssl_dh_file = '''',
     n_redis_notify_channel = ''notify'', n_redis_tokens_key = ''tokens'',
     n_redis_host = '''', n_redis_port = '''', n_redis_max_pipeline_size = 1024,
     n_ntf = \<lparr> fcm_port = ''443'', fcm_host = ''host'', fcm_target = ''/fcm'',
       fcm_server_token = ''key'', fcm_version = 11 \<rparr>,
     n_max_msg_size = 4, n_wait_interval = 5 \<rparr>"

definition note_json :: "string \<Rightarrow> string \<Rightarrow> jval" where
  "note_json u text = JObj [(''cmd'', JStr ''message''), (''to'', JStr u),
     (''body'', JStr text), (''nick'', JStr ''bob'')]"

definition token_push :: "string \<Rightarrow> string \<Rightarrow> string list" where
  "token_push u t = [''message'', ''notify'', enc (token_msg ref_lib u t)]"

definition note_push :: "string \<Rightarrow> string \<Rightarrow> string list" where
  "note_push u text = [''message'', ''notify'', enc (note_json u text)]"

definition with_token :: "jval notifier" where
  "with_token = ntf_on_push ref_lib sample_ntf (token_push ''ann'' ''t1'') (new_notifier sample_ntf)"

definition with_message :: "jval notifier" where
  "with_message = ntf_on_push ref_lib sample_ntf (note_push ''ann'' ''hello'') with_token"

lemma sample_ntf_sel [simp]:
  "n_redis_notify_channel sample_ntf = ''notify''" "n_max_msg_size sample_ntf = 4"
  "is_fcm_valid (n_ntf sample_ntf)"
  by (simp_all add: sample_ntf_def is_fcm_valid_def)

lemma token_json_at [simp]:
  "at_str ref_lib (token_msg ref_lib u t) ''cmd'' = Some ''token''"
  "at_str ref_lib (token_msg ref_lib u t) ''user_id'' = Some u"
  "at_str ref_lib (token_msg ref_lib u t) ''token'' = Some t"
  by (simp_all add: token_msg_def jobject_def at_str_def)

lemma note_json_at [simp]:
  "at_str ref_lib (note_json u t) ''cmd'' = Some ''message''"
  "at_str ref_lib (note_json u t) ''to'' = Some u"
  "at_str ref_lib (note_json u t) ''body'' = Some t"
  "at_str ref_lib (note_json u t) ''nick'' = Some ''bob''"
  by (simp_all add: note_json_def at_str_def)

lemma sample_push:
  "ntf_on_push ref_lib sample_ntf [''message'', ''notify'', enc j] n =
     snd (on_ntf_publish ref_lib sample_ntf (enc j) n)"
  by (simp add: ntf_on_push_def is_pmessage_def is_message_def)

lemma with_token_eq:
  "with_token = (new_notifier sample_ntf)\<lparr>tokens := [(''ann'', \<lparr> u_token = ''t1'', u_msg = JNull, u_node = 0 \<rparr>)],
     next_node := 1, n_buckets := 1, n_epoch := 1\<rparr>"
  unfolding with_token_def token_push_def sample_push
  by (simp add: on_ntf_publish_def insert_token_def Let_def)
    (simp add: new_notifier_def ntf_init_def)

lemma with_message_eq:
  "with_message = with_token\<lparr>
     tokens := [(''ann'', \<lparr> u_token = ''t1'', u_msg = note_json ''ann'' ''hello'', u_node = 0 \<rparr>)],
     waits := [\<lparr> wt_node = 0, wt_epoch = 1, wt_state = Armed \<rparr>]\<rparr>"
  unfolding with_message_def note_push_def sample_push with_token_eq
  by (simp add: on_ntf_publish_def on_ntf_message_def has_token_def Let_def cancel_timer_def)
    (simp add: new_notifier_def ntf_init_def)

lemma with_token_run: "ntf_reach ref_lib sample_ntf [N_push (token_push ''ann'' ''t1'')] with_token"
  using ntf_reach.n_step [OF n_start n_push] by (simp add: with_token_def)

lemma with_message_run:
  "ntf_reach ref_lib sample_ntf
     [N_push (token_push ''ann'' ''t1''), N_push (note_push ''ann'' ''hello'')] with_message"
  using ntf_reach.n_step [OF with_token_run n_push] by (simp add: with_message_def)

theorem one_timer_per_user_witness:
  "\<exists>e. map_of (tokens with_message) ''ann'' = Some e \<and> armed (u_node e) with_message \<le> 1"
proof -
  obtain e where e: "map_of (tokens with_message) ''ann'' = Some e" by (simp add: with_message_eq)
  with one_timer_per_user [OF with_message_run] show ?thesis by blast
qed

end
