(* ===== verification/Notifications.thy ===== *)
theory Notifications
  imports Notifier_Facts Messages
begin

text \<open>
  What becomes of a chat message for a user who is away, across the two programs: the server
  publishes it, the notifier starts a timer, and a notification is sent when the timer runs out.
  Further, what a token and a deletion do in the notifier, and the session with the notification
  service.
\<close>

section \<open>A notification is sent\<close>

lemma find_node_update:
  assumes "ninv n" "map_of (tokens n) u = Some e" "u_node e' = u_node e"
  shows "find_node (u_node e) (n\<lparr>tokens := AList.update u e' (tokens n)\<rparr>) = Some e'"
proof -
  have "List.find (\<lambda>(v, f). u_node f = u_node e) (AList.update u e' ts) = Some (u, e')"
    if "map_of ts u = Some e" "distinct (map (\<lambda>(v, f). u_node f) ts)" for ts
    using that
  proof (induction ts)
    case (Cons x ts)
    obtain v f where x: "x = (v, f)" by fastforce
    show ?case
    proof (cases "v = u")
      case False
      with Cons.prems x have e: "map_of ts u = Some e" by simp
      then have "u_node e \<in> (\<lambda>(v, f). u_node f) ` set ts" by (force dest: map_of_SomeD)
      with Cons.prems(2) x have "u_node f \<noteq> u_node e" by auto
      with Cons e x False show ?thesis by simp
    qed (use Cons.prems x assms(3) in simp)
  qed simp
  with assms show ?thesis by (simp add: find_node_def ninv_def)
qed

definition notification :: "'j extern \<Rightarrow> notifier_cfg \<Rightarrow> 'j \<Rightarrow> string \<Rightarrow> string option" where
  "notification L cfg j token = do {
     msg \<leftarrow> at_str L j ''body'';
     msg \<leftarrow> truncated (n_max_msg_size cfg) msg;
     nick \<leftarrow> at_str L j ''nick'';
     jdump L (make_ntf_body L nick msg token) }"

text \<open>The state after a message for a user with a token: a new wait, armed, at the end.\<close>

lemma message_arms:
  assumes "is_message v (n_redis_notify_channel cfg)" "jparse L (last v) = Some j"
    "at_str L j ''cmd'' = Some ''message''" "at_str L j ''to'' = Some u"
    "is_fcm_valid (n_ntf cfg)" "map_of (tokens n) u = Some e" "has_token e"
  shows "ntf_on_push L cfg v n =
    (cancel_timer (u_node e) n)\<lparr>tokens := AList.update u (e\<lparr>u_msg := j\<rparr>) (tokens n),
       waits := waits (cancel_timer (u_node e) n) @
         [\<lparr> wt_node = u_node e, wt_epoch = n_epoch n, wt_state = Armed \<rparr>]\<rparr>"
proof -
  have "\<not> is_pmessage v redis_del_ntf"
    using assms(1) by (auto simp: is_message_def is_pmessage_def split: if_splits)
  with assms show ?thesis
    by (simp add: ntf_on_push_def on_ntf_publish_def on_ntf_message_def Let_def cancel_timer_def)
qed

lemma length_waits_cancel [simp]: "length (waits (cancel_timer k n)) = length (waits n)"
  by (simp add: cancel_timer_def)

text \<open>The timer of that wait can run out, and its handler then sends the notification.\<close>

lemma notification_sent:
  assumes "ntf_reach L cfg es n" "is_message v (n_redis_notify_channel cfg)"
    "jparse L (last v) = Some j" "at_str L j ''cmd'' = Some ''message''" "at_str L j ''to'' = Some u"
    "is_fcm_valid (n_ntf cfg)" "map_of (tokens n) u = Some e" "has_token e"
    "notification L cfg j (u_token e) = Some body"
  shows "\<exists>i n\<^sub>1 n\<^sub>2 n\<^sub>3. ntf_step L cfg n (N_push v) n\<^sub>1 \<and> ntf_step L cfg n\<^sub>1 (N_expire i) n\<^sub>2 \<and>
    ntf_step L cfg n\<^sub>2 (N_handler i) n\<^sub>3 \<and> launched n\<^sub>3 = launched n @ [body] \<and> dangling n\<^sub>3 = dangling n"
proof -
  let ?n\<^sub>1 = "ntf_on_push L cfg v n" and ?i = "length (waits n)" and ?e = "e\<lparr>u_msg := j\<rparr>"
  let ?n\<^sub>2 = "expire_wait ?i ?n\<^sub>1"
  let ?m = "?n\<^sub>2\<lparr>waits := erase_at ?i (waits ?n\<^sub>2)\<rparr>"
  note n1 = message_arms [OF assms(2-8)]
  have w1: "?i < length (waits ?n\<^sub>1)" "wt_state (waits ?n\<^sub>1 ! ?i) = Armed"
    "wt_node (waits ?n\<^sub>1 ! ?i) = u_node e" "wt_epoch (waits ?n\<^sub>1 ! ?i) = n_epoch n"
    by (simp_all add: n1 nth_append)
  then have w2: "?i < length (waits ?n\<^sub>2)" "waits ?n\<^sub>2 ! ?i =
      \<lparr> wt_node = u_node e, wt_epoch = n_epoch n, wt_state = Expired \<rparr>"
    by (simp_all add: expire_wait_def)
  have "find_node (u_node e) ?m = find_node (u_node e) (n\<lparr>tokens := AList.update u ?e (tokens n)\<rparr>)"
    by (simp add: find_node_def expire_wait_def n1)
  also have "\<dots> = Some ?e"
    using find_node_update [OF ninv_reach [OF assms(1)] assms(7)] by simp
  finally have "on_timeout L cfg (waits ?n\<^sub>2 ! ?i) ?m = ?m\<lparr>launched := launched n @ [body]\<rparr>"
    using assms(9) by (simp add: on_timeout_def w2 notification_def) (simp add: expire_wait_def n1)
  then have "launched (on_timeout L cfg (waits ?n\<^sub>2 ! ?i) ?m) = launched n @ [body]"
    "dangling (on_timeout L cfg (waits ?n\<^sub>2 ! ?i) ?m) = dangling n"
    by (simp_all add: expire_wait_def n1)
  moreover have "ntf_step L cfg ?n\<^sub>2 (N_handler ?i) (on_timeout L cfg (waits ?n\<^sub>2 ! ?i) ?m)"
    by (rule n_handler) (simp_all add: w2)
  ultimately show ?thesis using n_push [of L cfg n v] n_expire [OF w1(1,2), of L cfg] by blast
qed

section \<open>A deletion cancels nothing\<close>

fun hash_fields :: "string list \<Rightarrow> string set" where
  "hash_fields (u # t # v) = insert u (hash_fields v)"
| "hash_fields _ = {}"

text \<open>The user ids an event names: user ids are digests, which have no colon.\<close>

fun token_users :: "'j extern \<Rightarrow> ntf_event \<Rightarrow> string set" where
  "token_users L (N_push v) = {u. \<exists>j. jparse L (last v) = Some j \<and> at_str L j ''user_id'' = Some u}"
| "token_users L (N_hgetall v) = hash_fields v"
| "token_users L _ = {}"

definition names :: "'j notifier \<Rightarrow> string set" where
  "names n = fst ` set (tokens n)"

lemma names_sel [simp]:
  "names (cancel_timer k n) = names n" "names (n\<lparr>waits := ws\<rparr>) = names n"
  "names (on_timeout L cfg wt n) = names n" "names (expire_wait i n) = names n"
  by (simp_all add: names_def expire_wait_def)

lemma names_update: "map_of (tokens n) u = Some e \<Longrightarrow>
    names (n\<lparr>tokens := AList.update u e' (tokens n)\<rparr>) = names n"
  by (auto simp: names_def update_conv' simp flip: dom_map_of_conv_image_fst)

lemma names_insert: "insert_token L u t n = (b, n') \<Longrightarrow> names n' \<subseteq> insert u (names n)"
  by (auto simp: insert_token_def names_def Let_def split: option.splits)

lemma names_erase: "names (erase_token u n) \<subseteq> names n"
proof -
  have "fst ` set (AList.delete u ts) \<subseteq> fst ` set ts" for ts
    by (auto simp: AList.delete_eq)
  from this [of "tokens n"] show ?thesis by (auto simp: erase_token_def names_def split: option.split)
qed

lemma names_hgetall: "names (ntf_on_hgetall L v n) \<subseteq> hash_fields v \<union> names n"
proof (induction L v n rule: ntf_on_hgetall.induct)
  case (1 L u t v n)
  obtain b n' where "insert_token L u t n = (b, n')" by fastforce
  with 1 names_insert [OF this] show ?case by auto
qed simp_all

lemma names_message: "names (snd (on_ntf_message L cfg j n)) = names n"
  by (simp add: on_ntf_message_def Let_def split: option.split) (simp add: names_update)

lemma names_retoken:
  "names (n\<lparr>tokens := map (\<lambda>(u, e). (u, if u = v then f e else e)) (tokens n)\<rparr>) = names n"
  by (force simp: names_def)

lemma names_publish: "names (snd (on_ntf_publish L cfg s n)) \<subseteq>
    {u. \<exists>j. jparse L s = Some j \<and> at_str L j ''user_id'' = Some u} \<union> names n"
proof (cases "do { j \<leftarrow> jparse L s; cmd \<leftarrow> at_str L j ''cmd''; Some (j, cmd) }")
  case None
  then show ?thesis by (simp add: on_ntf_publish_def)
next
  case (Some jc)
  then obtain j c where j: "jparse L s = Some j" "at_str L j ''cmd'' = Some c" "jc = (j, c)"
    by (auto split: bind_splits)
  show ?thesis
  proof (cases "do { user_id \<leftarrow> at_str L j ''user_id''; token \<leftarrow> at_str L j ''token''; Some (user_id, token) }")
    case None
    then show ?thesis by (simp add: on_ntf_publish_def j names_message)
  next
    case (Some ut)
    then obtain u t where u: "at_str L j ''user_id'' = Some u" "ut = (u, t)"
      by (auto split: bind_splits)
    obtain b n' where i: "insert_token L u t n = (b, n')" by fastforce
    have "names (snd (on_ntf_publish L cfg s n)) \<subseteq> insert u (names n)"
      using names_insert [OF i] names_erase [of u n] Some
      by (auto simp: on_ntf_publish_def j u i names_message names_retoken)
    with j u show ?thesis by auto
  qed
qed

lemma names_step:
  assumes "ntf_step L cfg n e n'"
  shows "names n' \<subseteq> token_users L e \<union> names n"
  using assms
proof cases
  case (n_push v)
  with names_publish [of L cfg "last v" n] show ?thesis
    by (auto simp: ntf_on_push_def on_ntf_del_def split: option.splits)
next
  case (n_hgetall v)
  with names_hgetall show ?thesis by simp
qed auto

lemma names_reach: "ntf_reach L cfg es n \<Longrightarrow> names n \<subseteq> (\<Union>e \<in> set es. token_users L e)"
proof (induction rule: ntf_reach.induct)
  case n_start
  show ?case by (simp add: names_def new_notifier_def ntf_init_def)
next
  case (n_step es n e n')
  with names_step [OF n_step.hyps(2)] show ?case by auto
qed

text \<open>C27: the deletion of a user's stored messages never cancels a notification, although that is what it
  is for: redis names the key, the prefix and the user id, the notifier looks for an entry of that
  name, and its entries are named by user ids, which have no colon. So the notifier does not change
  when the server fetches the messages, and the user who has read them is still notified.\<close>

theorem deletion_cancels_nothing:
  assumes "ntf_reach L cfg es n" "\<forall>e \<in> set es. \<forall>u \<in> token_users L e. CHR '':'' \<notin> set u"
    "CHR '':'' \<in> set pre"
  shows "ntf_on_push L cfg [''pmessage'', redis_del_ntf, redis_del_ntf, pre @ u] n = n"
proof -
  have "pre @ u \<notin> names n" using names_reach [OF assms(1)] assms(2,3) by fastforce
  then have "map_of (tokens n) (pre @ u) = None" by (simp add: names_def map_of_eq_None_iff)
  then show ?thesis by (simp add: ntf_on_push_def is_pmessage_def on_ntf_del_def)
qed

theorem deletion_cancels_nothing_witness:
  "waits (ntf_on_push ref_lib sample_ntf [''pmessage'', redis_del_ntf, redis_del_ntf, ''chat:'' @ ''ann'']
     with_message) = [\<lparr> wt_node = 0, wt_epoch = 1, wt_state = Armed \<rparr>]"
proof -
  have "at_str ref_lib (note_json ''ann'' ''hello'') ''user_id'' = None"
    by (simp add: note_json_def at_str_def)
  then have "ntf_on_push ref_lib sample_ntf [''pmessage'', redis_del_ntf, redis_del_ntf, ''chat:'' @ ''ann'']
      with_message = with_message"
    by (intro deletion_cancels_nothing [OF with_message_run])
      (auto simp: token_push_def note_push_def)
  then show ?thesis by (simp add: with_message_eq)
qed

section \<open>From the server to the notifier\<close>

lemma notification_cong:
  assumes "jat L j ''body'' = jat L j' ''body''" "jat L j ''nick'' = jat L j' ''nick''"
  shows "notification L cfg j t = notification L cfg j' t"
  using assms by (simp add: notification_def at_str_def)


definition away_json :: jval where
  "away_json = JObj [(''cmd'', JStr ''message''), (''to'', JStr ''ann''), (''body'', JStr ''hello''),
     (''nick'', JStr ''bob'')]"


section \<open>Tokens\<close>

lemma map_of_retoken:
  "map_of (map (\<lambda>(v, e). (v, if v = u then f e else e)) ts) w =
     (if w = u then map_option f (map_of ts w) else map_of ts w)"
  by (induction ts) auto

lemma tok_sel [simp]: "tok (cancel_timer k n) = tok n"
  by (rule ext) (simp add: tok_def)

lemma tok_token_push:
  assumes "jparse L s = Some j" "at_str L j ''cmd'' = Some ''token''"
    "at_str L j ''user_id'' = Some u" "at_str L j ''token'' = Some t"
  shows "tok (snd (on_ntf_publish L cfg s n)) = (tok n)(u := if t = '''' then None else Some t)"
proof (rule ext)
  fix v
  have "tok (erase_token u n) v = ((tok n)(u := None)) v"
    by (simp add: erase_token_def tok_def delete_conv split: option.split)
  then show "tok (snd (on_ntf_publish L cfg s n)) v =
      ((tok n)(u := if t = '''' then None else Some t)) v"
    using assms
    by (auto simp: on_ntf_publish_def insert_token_def tok_def map_of_retoken option.map_comp comp_def Let_def
        split: option.split)
qed

text \<open>C26: the token an app sends with its login reaches the notifier: the server stores it and publishes a
  message that makes every notifier listening on the channel record that token, and no other, for
  exactly the user id the server derived from the credentials; an empty token removes the entry, so
  that the user is not notified any more.\<close>

theorem token_reaches_notifier:
  assumes "json_laws L" "jat L j ''token'' = Some tj" "\<not> jempty L tj" "get_str L tj = Some t"
    "publish_token L cfg j u w = (Some (), v)" "n_redis_notify_channel ncfg = r_notify_channel (c_redis cfg)"
  shows "\<exists>tx. redis_out v = redis_out w @
      [ R_publish (r_notify_channel (c_redis cfg)) tx, R_hset (r_tokens_key (c_redis cfg)) [(u, t)] ]
    \<and> (\<forall>n. tok (ntf_on_push L ncfg [''message'', r_notify_channel (c_redis cfg), tx] n) =
          (tok n)(u := if t = '''' then None else Some t))"
proof -
  from assms(2-5) obtain tx where tx: "jdump L (token_msg L u t) = Some tx"
    and v: "v = redis_send [ R_publish (r_notify_channel (c_redis cfg)) tx,
      R_hset (r_tokens_key (c_redis cfg)) [(u, t)] ] w"
    by (auto simp: publish_token_def split: option.splits bind_splits)
  have at: "at_str L (token_msg L u t) ''cmd'' = Some ''token''"
    "at_str L (token_msg L u t) ''user_id'' = Some u" "at_str L (token_msg L u t) ''token'' = Some t"
    using assms(1) by (simp_all add: token_msg_def at_str_def json_simps)
  have "ntf_on_push L ncfg [''message'', r_notify_channel (c_redis cfg), tx] n =
      snd (on_ntf_publish L ncfg tx n)" for n
    using assms(6) by (simp add: ntf_on_push_def is_pmessage_def is_message_def)
  with tok_token_push [OF parse_dump [OF assms(1) tx] at] v show ?thesis
    by (intro exI [of _ tx]) simp
qed

theorem token_reaches_notifier_witness:
  "\<exists>tx v. publish_token ref_lib sample_core (token_msg ref_lib ''x'' ''t9'') ''ann'' init_worker = (Some (), v)
     \<and> R_publish ''notify'' tx \<in> set (redis_out v)
     \<and> tok (ntf_on_push ref_lib sample_ntf [''message'', ''notify'', tx] with_token) ''ann'' = Some ''t9''"
proof -
  let ?j = "token_msg ref_lib ''x'' ''t9''"
  have t: "jat ref_lib ?j ''token'' = Some (JStr ''t9'')" "\<not> jempty ref_lib (JStr ''t9'')"
    "get_str ref_lib (JStr ''t9'') = Some ''t9''"
    by (simp_all add: token_msg_def jobject_def)
  obtain v where v: "publish_token ref_lib sample_core ?j ''ann'' init_worker = (Some (), v)"
    using t by (simp add: publish_token_def)
  have c: "n_redis_notify_channel sample_ntf = r_notify_channel (c_redis sample_core)"
    by (simp add: sample_core_def default_redis_def)
  then have k: "r_notify_channel (c_redis sample_core) = ''notify''" by simp
  from token_reaches_notifier [OF ref_json_laws t v c, unfolded k] obtain tx where
    "redis_out v = redis_out init_worker @
      [R_publish ''notify'' tx, R_hset (r_tokens_key (c_redis sample_core)) [(''ann'', ''t9'')]]"
    "tok (ntf_on_push ref_lib sample_ntf [''message'', ''notify'', tx] with_token) =
      (tok with_token)(''ann'' := Some ''t9'')" by auto
  with v show ?thesis by (intro exI [of _ tx] exI [of _ v]) simp
qed

section \<open>The session with the service\<close>

text \<open>\<open>ntf_sess_run L cfg body n s\<close>: the session for \<open>body\<close> after \<open>n\<close> completions.\<close>

inductive ntf_sess_step :: "ntf_session \<Rightarrow> ntf_session \<Rightarrow> bool" where
  st_connect: "ns_phase s = Connecting \<Longrightarrow> ntf_sess_step s (ntf_on_connect ec s)"
| st_handshake: "ns_phase s = Handshaking \<Longrightarrow> ntf_sess_step s (ntf_on_handshake ec s)"
| st_write: "ns_phase s = Writing \<Longrightarrow> ntf_sess_step s (ntf_on_write ec s)"
| st_read: "ns_phase s = Reading \<Longrightarrow> ntf_sess_step s (ntf_on_read ec s)"
| st_shutdown: "ns_phase s = Shutting_down \<Longrightarrow> ntf_sess_step s (ntf_on_shutdown ec s)"

inductive ntf_sess_run :: "bool \<Rightarrow> ntf_cfg \<Rightarrow> string \<Rightarrow> nat \<Rightarrow> ntf_session \<Rightarrow> bool" for sni_ok c body where
  sr_start: "ntf_sess_run sni_ok c body 0 (ntf_run sni_ok c body)"
| sr_step: "ntf_sess_run sni_ok c body n s \<Longrightarrow> ntf_sess_step s s' \<Longrightarrow> ntf_sess_run sni_ok c body (Suc n) s'"

fun ntf_rank :: "ntf_phase \<Rightarrow> nat" where
  "ntf_rank Connecting = 5"
| "ntf_rank Handshaking = 4"
| "ntf_rank Writing = 3"
| "ntf_rank Reading = 2"
| "ntf_rank Shutting_down = 1"
| "ntf_rank Closed = 0"

definition limited :: "ntf_session \<Rightarrow> bool" where
  "limited s \<longleftrightarrow> (if ns_phase s \<in> {Connecting, Handshaking} then ns_expires s = None
     else ns_phase s = Closed \<or> ns_expires s = Some ntf_timeout)"

lemma ntf_sess_inv:
  assumes "ntf_sess_step s s'" "limited s"
  shows "limited s' \<and> ntf_rank (ns_phase s') < ntf_rank (ns_phase s) \<and> ns_req s' = ns_req s"
  using assms by cases (auto simp: limited_def)

text \<open>C38: a session with the notification service ends: after at most five completions it is closed,
  whatever fails, and all the time its request is the one made from the configuration and the body.
  But only writing, reading and the shutdown have a time limit: the connect and the TLS handshake
  have none, so a service that accepts and stays silent holds the session for good.\<close>

theorem ntf_session_ends:
  assumes "ntf_sess_run sni_ok c body n s"
  shows "n + ntf_rank (ns_phase s) \<le> 5 \<and> ns_req s = ns_req (ntf_run sni_ok c body)
    \<and> (ns_phase s \<in> {Writing, Reading, Shutting_down} \<longleftrightarrow> ns_phase s \<noteq> Closed \<and> ns_expires s = Some 30)
    \<and> (ns_phase s = Closed \<longleftrightarrow> (\<nexists>s'. ntf_sess_step s s'))"
proof -
  from assms have "n + ntf_rank (ns_phase s) \<le> 5 \<and> limited s \<and> ns_req s = ns_req (ntf_run sni_ok c body)"
  proof induction
    case sr_start
    show ?case by (simp add: ntf_run_def limited_def)
  next
    case (sr_step n s s')
    with ntf_sess_inv [OF sr_step.hyps(2)] show ?case by auto
  qed
  moreover have "ns_phase s = Closed \<longleftrightarrow> (\<nexists>s'. ntf_sess_step s s')"
    by (cases "ns_phase s") (auto intro: ntf_sess_step.intros elim: ntf_sess_step.cases)
  ultimately show ?thesis
    by (cases "ns_phase s") (auto simp: limited_def ntf_timeout_def)
qed

theorem ntf_session_ends_witness:
  "\<exists>s. ntf_sess_run True (n_ntf sample_ntf) ''b'' 1 s \<and> ns_phase s = Handshaking \<and> ns_expires s \<noteq> Some 30"
proof -
  let ?s = "ntf_on_connect False (ntf_run True (n_ntf sample_ntf) ''b'')"
  have p: "ns_phase ?s = Handshaking" by simp
  have run: "ntf_sess_run True (n_ntf sample_ntf) ''b'' 1 ?s"
    unfolding One_nat_def by (rule sr_step [OF sr_start st_connect]) (simp add: ntf_run_def)
  from ntf_session_ends [OF run] p have "ns_expires ?s \<noteq> Some 30" by simp
  with p run show ?thesis by blast
qed

end
