(* ===== verification/Programs.thy ===== *)
theory Programs
  imports Notifications
begin

text \<open>
  The two programs: \<open>src/occase-db.cpp\<close> and \<open>src/occase-notify.cpp\<close> read their options from the
  command line and a file, the values given first win, and turn them into the configurations the
  worker and the notifier run with; \<open>src/net.cpp\<close> loads the TLS files. What boost::program_options
  parses is an argument: the name and text of every option, and the conversions to integers.
\<close>

section \<open>Options\<close>

text \<open>
  \<open>None\<close> is an exception. \<open>conf_text name\<close> is \<open>None\<close> if the file cannot be opened. Options are
  given by their long names; in the file unknown ones are left out.
\<close>

record options =
  cmd_line :: "(string \<times> string) list option"
  conf_text :: "string \<Rightarrow> (string \<times> string) list option option"
  lex_int :: "string \<Rightarrow> c_int option"
  lex_u16 :: "string \<Rightarrow> 16 word option"

type_synonym varmap = "(string \<times> string) list"

text \<open>\<open>po::store\<close>: an option that has a value keeps it; a new option given twice is an error.\<close>

definition po_store :: "(string \<times> string) list \<Rightarrow> varmap \<Rightarrow> varmap option" where
  "po_store opts vm =
     (let new = filter (\<lambda>(k, v). k \<notin> fst ` set vm) opts
      in if distinct (map fst new) then Some (vm @ new) else None)"

definition str_opt :: "varmap \<Rightarrow> string \<Rightarrow> string \<Rightarrow> string" where
  "str_opt vm k d = (case map_of vm k of None \<Rightarrow> d | Some t \<Rightarrow> t)"

definition int_opt :: "options \<Rightarrow> varmap \<Rightarrow> string \<Rightarrow> c_int \<Rightarrow> c_int option" where
  "int_opt opt vm k d = (case map_of vm k of None \<Rightarrow> Some d | Some t \<Rightarrow> lex_int opt t)"

definition u16_opt :: "options \<Rightarrow> varmap \<Rightarrow> string \<Rightarrow> 16 word \<Rightarrow> 16 word option" where
  "u16_opt opt vm k d = (case map_of vm k of None \<Rightarrow> Some d | Some t \<Rightarrow> lex_u16 opt t)"

definition has_opt :: "varmap \<Rightarrow> string \<Rightarrow> bool" where
  "has_opt vm k \<longleftrightarrow> map_of vm k \<noteq> None"

definition load_vm :: "options \<Rightarrow> varmap option" where
  "load_vm opt = do {
     cmd \<leftarrow> cmd_line opt;
     vm \<leftarrow> po_store cmd [];
     let conf_file = str_opt vm ''config'' '''';
     if conf_file = '''' then Some vm
     else (case conf_text opt conf_file of
             None \<Rightarrow> Some vm
           | Some r \<Rightarrow> do { opts \<leftarrow> r; po_store opts vm })
   }"

section \<open>The server\<close>

definition redis_options :: "options \<Rightarrow> varmap \<Rightarrow> redis_cfg option" where
  "redis_options opt vm = do {
     exp_time \<leftarrow> int_opt opt vm ''redis-user-msg-exp_time'' (7 * 24 * 60 * 60);
     offline \<leftarrow> int_opt opt vm ''redis-offline-chat-msgs'' 100;
     Some (default_redis\<lparr>
       r_port := str_opt vm ''redis-port'' ''6379'',
       r_host := str_opt vm ''redis-host'' ''127.0.0.1'',
       r_chat_msgs_counter_key := str_opt vm ''redis-key-chat-msgs-counter'' ''chat_msgs_counter'',
       r_chat_msg_prefix := str_opt vm ''redis-key-chat-msg-prefix'' ''msg'',
       r_posts_key := str_opt vm ''redis-key-posts'' ''posts'',
       r_removed_posts_key := str_opt vm ''redis-key-removed-posts'' ''removed_posts'',
       r_chat_msg_exp_time := exp_time,
       r_max_offline_chat_msgs := offline,
       r_posts_channel_key := str_opt vm ''redis-key-posts-channel'' ''posts_channel'',
       r_notify_channel := str_opt vm ''redis-notify-channel'' ''notify'',
       r_tokens_key := str_opt vm ''redis-tokens-key'' ''fcm_tokens'',
       r_post_visualizations_key :=
         str_opt vm ''redis-post-visualizations-key'' ''post_visualizations'' \<rparr>)
   }"

text \<open>The timeouts are set later; the source leaves them uninitialised until then.\<close>

definition core_options :: "options \<Rightarrow> varmap \<Rightarrow> core option" where
  "core_options opt vm = do {
     port \<leftarrow> u16_opt opt vm ''db-port'' 443;
     conns \<leftarrow> int_opt opt vm ''max-listen-connections'' 511;
     max_posts \<leftarrow> int_opt opt vm ''max-posts-on-search'' 300;
     allowed \<leftarrow> int_opt opt vm ''allowed-posts'' 1;
     pwd \<leftarrow> int_opt opt vm ''password-size'' 8;
     http_timeout \<leftarrow> int_opt opt vm ''http-session-timeout'' 30;
     ssl_timeout \<leftarrow> int_opt opt vm ''ssl-shutdown-timeout'' 30;
     red \<leftarrow> redis_options opt vm;
     Some \<lparr> c_max_posts_on_search = max_posts, c_pwd_size = pwd, c_db_port = port,
       c_max_listen_connections = conns, c_mms_key = str_opt vm ''mms-key'' '''',
       c_db_host = str_opt vm ''db-host'' '''', c_mms_host = str_opt vm ''mms-host'' '''',
       c_http_session_timeout = http_timeout,
       c_http_allow_origin = str_opt vm ''http-allow-origin'' ''*'',
       c_ssl_shutdown_timeout = ssl_timeout, c_server_name = str_opt vm ''server-name'' ''occase-db'',
       c_adm_pwd = str_opt vm ''adm-password'' '''', c_allowed_posts = allowed,
       c_chat_admin_id = str_opt vm ''chat-admin-id'' '''', c_redis = red,
       c_timeouts = \<lparr> t_handshake = 0, t_idle = 0, t_post_interval = 0, t_post_expiration = 0 \<rparr> \<rparr>
   }"

definition db_options :: "options \<Rightarrow> varmap \<Rightarrow> config_all option" where
  "db_options opt vm = do {
     handshake \<leftarrow> int_opt opt vm ''handshake-timeout'' 2;
     idle \<leftarrow> int_opt opt vm ''idle-timeout'' 30;
     expiration \<leftarrow> int_opt opt vm ''post-expiration'' (3 * 30 * 24 * 60 * 60);
     interval \<leftarrow> int_opt opt vm ''post-interval'' (7 * 24 * 60 * 60);
     c \<leftarrow> core_options opt vm;
     Some \<lparr> a_help = 0, a_ssl_cert_file = str_opt vm ''ssl-certificate-file'' '''',
       a_ssl_priv_key_file = str_opt vm ''ssl-private-key-file'' '''',
       a_ssl_dh_file = str_opt vm ''ssl-dh-file'' '''', a_logfilter = Notice, a_core = c,
       a_handshake_timeout = handshake, a_idle_timeout = idle, a_post_interval = interval,
       a_post_expiration = expiration \<rparr>
   }"

definition db_get_cfg :: "'j extern \<Rightarrow> options \<Rightarrow> (c_int + config_all) option" where
  "db_get_cfg L opt = do {
     vm \<leftarrow> load_vm opt;
     cfg \<leftarrow> db_options opt vm;
     Some (get_cfg L (has_opt vm ''help'') (has_opt vm ''git-sha1'')
             (str_opt vm ''log-level'' ''notice'') cfg)
   }"

section \<open>TLS files\<close>

text \<open>
  Whether each call on the TLS context fails. The private key is loaded with the overload that
  throws, so that the test after it never sees an error.
\<close>

record tls_results =
  password_fails :: bool
  options_fail :: bool
  chain_fails :: bool
  key_throws :: bool
  dh_fails :: bool

definition load_ssl :: "tls_results \<Rightarrow> bool option" where
  "load_ssl r =
     (if password_fails r then Some False
      else if options_fail r then Some False
      else if chain_fails r then Some False
      else if key_throws r then None
      else if dh_fails r then Some False
      else Some True)"

section \<open>The main functions\<close>

text \<open>
  The exit status. \<open>run cfg\<close> is \<open>None\<close> if running the worker with that configuration ends with an
  exception; \<open>sodium_ok\<close>: libsodium could be initialised, else \<open>init_libsodium\<close> throws.
\<close>

definition db_main ::
  "'j extern \<Rightarrow> options \<Rightarrow> bool \<Rightarrow> tls_results \<Rightarrow> (config_all \<Rightarrow> unit option) \<Rightarrow> nat" where
  "db_main L opt sodium_ok tls run =
     (case db_get_cfg L opt of
        None \<Rightarrow> 1
      | Some (Inl n) \<Rightarrow> if n = 1 then 0 else 1
      | Some (Inr cfg) \<Rightarrow>
          if \<not> sodium_ok then 1
          else
            let b = if with_ssl cfg then load_ssl tls else Some True
            in case b of
                 None \<Rightarrow> 1
               | Some False \<Rightarrow> 1
               | Some True \<Rightarrow> (case run cfg of None \<Rightarrow> 1 | Some _ \<Rightarrow> 0))"

section \<open>The notifier\<close>

record notify_config =
  m_logfilter :: level
  m_ntf :: notifier_cfg

text \<open>\<open>fcm_key\<close> is the server token the header gives, used when the option is absent.\<close>

definition default_ntf :: "string \<Rightarrow> ntf_cfg" where
  "default_ntf fcm_key = \<lparr> fcm_port = ''443'', fcm_host = ''fcm.googleapis.com'',
     fcm_target = ''/fcm/send'', fcm_server_token = fcm_key, fcm_version = 11 \<rparr>"

definition notify_options :: "string \<Rightarrow> options \<Rightarrow> varmap \<Rightarrow> notifier_cfg option" where
  "notify_options fcm_key opt vm = do {
     wait \<leftarrow> int_opt opt vm ''wait-interval'' 5;
     size \<leftarrow> int_opt opt vm ''max-message-size'' 2000;
     pipeline \<leftarrow> int_opt opt vm ''redis-max-pipeline-size'' 1024;
     let d = default_ntf fcm_key;
     Some \<lparr> n_ssl_cert_file = str_opt vm ''ssl-certificate-file'' '''',
       n_ssl_priv_key_file = str_opt vm ''ssl-private-key-file'' '''',
       n_ssl_dh_file = str_opt vm ''ssl-dh-file'' '''',
       n_redis_notify_channel = str_opt vm ''redis-notify-channel'' ''notify'',
       n_redis_tokens_key = str_opt vm ''redis-tokens-key'' ''fcm_tokens'',
       n_redis_host = str_opt vm ''redis-host'' ''127.0.0.1'',
       n_redis_port = str_opt vm ''redis-port'' ''6379'',
       n_redis_max_pipeline_size = pipeline,
       n_ntf = d\<lparr> fcm_port := str_opt vm ''fcm-port'' (fcm_port d),
          fcm_host := str_opt vm ''fcm-host'' (fcm_host d),
          fcm_target := str_opt vm ''fcm-target'' (fcm_target d),
          fcm_server_token := str_opt vm ''fcm-server-token'' (fcm_server_token d) \<rparr>,
       n_max_msg_size = size, n_wait_interval = wait \<rparr>
   }"

definition notify_get_cfg :: "string \<Rightarrow> options \<Rightarrow> (c_int + notify_config) option" where
  "notify_get_cfg fcm_key opt = do {
     vm \<leftarrow> load_vm opt;
     cfg \<leftarrow> notify_options fcm_key opt vm;
     Some (if has_opt vm ''help'' then Inl 1
           else Inr \<lparr> m_logfilter = to_level (str_opt vm ''log-level'' ''notice''), m_ntf = cfg \<rparr>)
   }"

text \<open>\<open>resolves\<close> tells whether the notification service is found, \<open>loop\<close> how the event loop ends:
  normally, or with an exception.\<close>

definition notifier_run ::
  "(string \<Rightarrow> string \<Rightarrow> bool) \<Rightarrow> (notifier_cfg \<Rightarrow> unit option) \<Rightarrow> notifier_cfg \<Rightarrow> unit option" where
  "notifier_run resolves loop cfg =
     (if \<not> resolves (fcm_host (n_ntf cfg)) (fcm_port (n_ntf cfg)) then Some () else loop cfg)"

definition notify_main ::
  "string \<Rightarrow> options \<Rightarrow> (string \<Rightarrow> string \<Rightarrow> bool) \<Rightarrow> (notifier_cfg \<Rightarrow> unit option) \<Rightarrow> nat" where
  "notify_main fcm_key opt resolves loop =
     (case notify_get_cfg fcm_key opt of
        None \<Rightarrow> 1
      | Some (Inl n) \<Rightarrow> if n = 1 then 0 else 1
      | Some (Inr cfg) \<Rightarrow> (case notifier_run resolves loop (m_ntf cfg) of None \<Rightarrow> 1 | Some _ \<Rightarrow> 0))"

text \<open>A notifier that cannot find the notification service ends at once, and reports success.\<close>

lemma unresolved_succeeds:
  assumes "notify_get_cfg fcm_key opt = Some (Inr cfg)" "\<And>h p. \<not> resolves h p"
  shows "notify_main fcm_key opt resolves loop = 0"
  using assms by (simp add: notify_main_def notifier_run_def)

section \<open>What the programs start with\<close>

lemma po_store_keeps:
  assumes "po_store opts vm = Some vm'" "map_of vm k = Some t"
  shows "map_of vm' k = Some t"
  using assms by (auto simp: po_store_def Let_def map_add_Some_iff split: if_splits)

lemma map_of_filter_new:
  "k \<notin> K \<Longrightarrow> map_of (filter (\<lambda>(k, v). k \<notin> K) opts) k = map_of opts k"
  by (induction opts) auto

lemma po_store_new:
  assumes "po_store opts vm = Some vm'" "map_of vm k = None"
  shows "map_of vm' k = map_of opts k"
proof -
  have k: "k \<notin> fst ` set vm" using assms(2) by (simp add: map_of_eq_None_iff)
  have "vm' = vm @ filter (\<lambda>(k, v). k \<notin> fst ` set vm) opts"
    using assms(1) by (simp add: po_store_def Let_def split: if_splits)
  with assms(2) map_of_filter_new [OF k] show ?thesis
    by (simp add: map_add_def split: option.splits)
qed

text \<open>An option on the command line beats the one in the file, an option given only in the file is
  used, and any other has its default; the file is the one the command line names, and a file that
  cannot be opened is no error.\<close>

lemma options_precedence:
  assumes "cmd_line opt = Some cmd" "load_vm opt = Some vm"
  shows "map_of vm k =
    (case map_of cmd k of
       Some t \<Rightarrow> Some t
     | None \<Rightarrow>
         (case map_of cmd ''config'' of
            None \<Rightarrow> None
          | Some f \<Rightarrow>
              if f = '''' then None
              else (case conf_text opt f of Some (Some opts) \<Rightarrow> map_of opts k | _ \<Rightarrow> None)))"
proof -
  obtain vm0 where vm0: "po_store cmd [] = Some vm0"
    using assms by (auto simp: load_vm_def split: bind_splits)
  have m: "map_of vm0 = map_of cmd"
    using po_store_new [OF vm0] by (simp add: fun_eq_iff)
  show ?thesis
    using assms vm0 m
    by (auto simp: load_vm_def Let_def str_opt_def po_store_keeps po_store_new
        split: option.splits bind_splits if_splits dest: po_store_keeps po_store_new)
qed

text \<open>A server that starts has a consistent configuration: the image key has the size the keyed hash
  requires, the channel of a user's key events stripped of \<open>user_notify_prefix\<close> is the user id
  whose messages lie under \<open>chat_msg_prefix\<close>, that prefix ends in a colon, and the time limits are
  those of the options.\<close>

lemma started_config:
  assumes "db_get_cfg L opt = Some (Inr cfg)"
  shows "let red = c_redis (a_core cfg) in
    length (c_mms_key (a_core cfg)) = key_bytes L
    \<and> r_user_notify_prefix red = ''__keyspace@0__:'' @ r_chat_msg_prefix red
    \<and> (\<exists>p. r_chat_msg_prefix red = p @ '':'')
    \<and> c_timeouts (a_core cfg) = get_timeouts cfg
    \<and> (\<exists>vm. load_vm opt = Some vm \<and> r_chat_msg_prefix red = str_opt vm ''redis-key-chat-msg-prefix'' ''msg'' @ '':''
         \<and> r_notify_channel red = str_opt vm ''redis-notify-channel'' ''notify'')"
  using assms
  by (auto simp: db_get_cfg_def db_options_def core_options_def redis_options_def get_cfg_def Let_def
      default_redis_def get_timeouts_def split: bind_splits if_splits)

text \<open>The two programs meet: if their options say the same about the channel and the tokens key, in
  particular if neither is mentioned, the notifier subscribes to the channel the server publishes
  messages and tokens on and reads the tokens the server stores.\<close>

lemma programs_agree:
  assumes "db_get_cfg L opt = Some (Inr cfg)" "notify_get_cfg fcm_key opt' = Some (Inr ncfg)"
    "load_vm opt = Some vm" "load_vm opt' = Some vm'"
    "map_of vm ''redis-notify-channel'' = map_of vm' ''redis-notify-channel''"
    "map_of vm ''redis-tokens-key'' = map_of vm' ''redis-tokens-key''"
  shows "n_redis_out (new_notifier (m_ntf ncfg)) =
    [ R_psubscribe [redis_del_ntf], R_subscribe (r_notify_channel (c_redis (a_core cfg))),
      R_hgetall (r_tokens_key (c_redis (a_core cfg))) ]"
proof -
  have "r_notify_channel (c_redis (a_core cfg)) = str_opt vm ''redis-notify-channel'' ''notify''"
    "r_tokens_key (c_redis (a_core cfg)) = str_opt vm ''redis-tokens-key'' ''fcm_tokens''"
    using assms(1,3)
    by (auto simp: db_get_cfg_def db_options_def core_options_def redis_options_def get_cfg_def Let_def
        split: bind_splits if_splits)
  moreover have "n_redis_notify_channel (m_ntf ncfg) = str_opt vm' ''redis-notify-channel'' ''notify''"
    "n_redis_tokens_key (m_ntf ncfg) = str_opt vm' ''redis-tokens-key'' ''fcm_tokens''"
    using assms(2,4)
    by (auto simp: notify_get_cfg_def notify_options_def Let_def split: bind_splits if_splits)
  ultimately show ?thesis
    using assms(5,6) by (simp add: new_notifier_def ntf_init_def str_opt_def)
qed

end
