(* ===== verification/Clients.thy ===== *)
theory Clients
  imports Programs
begin

text \<open>
  \<open>src/occase-db-tests.cpp\<close>: the client that is run against a server to test it. Its messages
  in JSON, its coroutines, the unit tests of the posts in memory, and the choice of a test.
  A coroutine is the tree of the operations it awaits; what it is resumed with comes from the
  network, and an operation that fails throws.
\<close>

section \<open>Coroutines\<close>

text \<open>\<open>endpoints\<close> stands for the result of resolving a host and a port. A line of output is a
  success or an error of a test, which the text names, or the text of an exception, or another line.\<close>

type_synonym endpoints = "string \<times> string"

datatype line = Success string | Failure string | Failure_what | Success_what string | Line string

record client_request = request +
  cq_version :: nat
  cq_host :: string
  cq_user_agent :: string
  cq_content_type :: string
  cq_content_length :: nat

datatype operation =
    Resolve string string
  | Connect endpoints
  | Read_some
  | Http_write client_request
  | Http_read
  | Shutdown_both
  | Handshake string string
  | Ws_write string
  | Ws_read
  | Ws_close
  | Print line
  | Spawn_replier endpoints string string string string c_int

datatype resumption = Done | Failed | Text_read string | Response_read status string

datatype 'a co = Return 'a | Throw | Await operation "resumption \<Rightarrow> 'a co"

primrec co_bind :: "'a co \<Rightarrow> ('a \<Rightarrow> 'b co) \<Rightarrow> 'b co" where
  "co_bind (Return a) f = f a"
| "co_bind Throw f = Throw"
| "co_bind (Await a k) f = Await a (\<lambda>r. co_bind (k r) f)"

primrec co_catch :: "'a co \<Rightarrow> 'a co \<Rightarrow> 'a co" where
  "co_catch (Return a) h = Return a"
| "co_catch Throw h = h"
| "co_catch (Await a k) h = Await a (\<lambda>r. co_catch (k r) h)"

definition perform :: "operation \<Rightarrow> 'a co \<Rightarrow> 'a co" where
  "perform a k = Await a (\<lambda>r. if r = Failed then Throw else k)"

definition receive_text :: "(string \<Rightarrow> 'a co) \<Rightarrow> 'a co" where
  "receive_text k = Await Ws_read (\<lambda>r. case r of Text_read m \<Rightarrow> k m | _ \<Rightarrow> Throw)"

definition receive_response :: "(status \<times> string \<Rightarrow> 'a co) \<Rightarrow> 'a co" where
  "receive_response k =
     Await Http_read (\<lambda>r. case r of Response_read st body \<Rightarrow> k (st, body) | _ \<Rightarrow> Throw)"

definition print :: "line \<Rightarrow> 'a co \<Rightarrow> 'a co" where
  "print l k = Await (Print l) (\<lambda>_. k)"

text \<open>A conversion that throws.\<close>

definition get_or_throw :: "'a option \<Rightarrow> ('a \<Rightarrow> 'b co) \<Rightarrow> 'b co" where
  "get_or_throw x k = (case x of None \<Rightarrow> Throw | Some a \<Rightarrow> k a)"

definition assert_line :: "bool \<Rightarrow> string \<Rightarrow> line" where
  "assert_line b msg = (if b then Success msg else Failure msg)"

definition assert_true :: "bool \<Rightarrow> string \<Rightarrow> 'a co \<Rightarrow> 'a co" where
  "assert_true b msg k = print (assert_line b msg) k"

definition assert_equal :: "'b \<Rightarrow> 'b \<Rightarrow> string \<Rightarrow> 'a co \<Rightarrow> 'a co" where
  "assert_equal a b msg k = print (assert_line (a = b) msg) k"

definition check_result :: "'j extern \<Rightarrow> 'j \<Rightarrow> string \<Rightarrow> unit option" where
  "check_result L j expected =
     (case at_str L j ''result'' of
        None \<Rightarrow> None
      | Some res \<Rightarrow> if res \<noteq> expected then None else Some ())"

section \<open>Requests\<close>

definition make_req :: "string \<Rightarrow> string \<Rightarrow> string \<Rightarrow> client_request" where
  "make_req host target body =
     \<lparr> q_method = Verb_post, q_target = target, q_body = body, q_upgrade = False,
       cq_version = 11, cq_host = host, cq_user_agent = ''occase-db-test'',
       cq_content_type = ''application/json'', cq_content_length = length body \<rparr>"

definition make_search_body :: "'j extern \<Rightarrow> string option" where
  "make_search_body L = jdump L (jset L (jnull L) ''post'' (to_json L empty_post))"

section \<open>Credentials, posts and acknowledgements\<close>

record user_cred =
  u_user :: string
  u_key :: string
  u_user_id :: string

text \<open>\<open>p\<close> is uninitialised but for its date until every member is set.\<close>

definition publish_post :: "user_cred \<Rightarrow> post" where
  "publish_post cred =
     \<lparr> p_date = 0, p_visualizations = 0, p_id = '''', p_from = u_user_id cred, p_nick = '''',
       p_avatar = '''', p_description = '''', p_location = [1, 2, 3, 4], p_product = [1, 2, 3],
       p_ex_details = [1, 2, 3], p_in_details = [1, 2, 3], p_range_values = [1, 2, 3],
       p_images = [''''] \<rparr>"

definition make_publish_body :: "'j extern \<Rightarrow> user_cred \<Rightarrow> string option" where
  "make_publish_body L cred =
     (let j = jnull L;
          j = jset L j ''user'' (of_str L (u_user cred));
          j = jset L j ''key'' (of_str L (u_key cred));
          j = jset L j ''post'' (to_json L (publish_post cred))
      in jdump L j)"

definition cred_from_json :: "'j extern \<Rightarrow> 'j \<Rightarrow> user_cred option" where
  "cred_from_json L j = do {
     user \<leftarrow> at_str L j ''user'';
     key \<leftarrow> at_str L j ''key'';
     user_id \<leftarrow> at_str L j ''user_id'';
     Some \<lparr> u_user = user, u_key = key, u_user_id = user_id \<rparr> }"

definition cred_to_json :: "'j extern \<Rightarrow> user_cred \<Rightarrow> 'j" where
  "cred_to_json L e = jobject L
     [ (''date'', of_str L (u_user e)), (''key'', of_str L (u_key e)),
       (''user_id'', of_str L (u_user_id e)) ]"

definition login_request :: "'j extern \<Rightarrow> user_cred \<Rightarrow> 'j" where
  "login_request L cred =
     (let j = jnull L;
          j = jset L j ''cmd'' (of_str L ''login'');
          j = jset L j ''user'' (of_str L (u_user cred))
      in jset L j ''key'' (of_str L (u_key cred)))"

definition make_login :: "'j extern \<Rightarrow> user_cred \<Rightarrow> string option" where
  "make_login L cred = jdump L (login_request L cred)"

record pub_ack =
  a_admin_id :: string
  a_id :: string
  a_date :: u64

text \<open>The date is read as a 64 bit word either way.\<close>

definition pub_ack_from_json :: "'j extern \<Rightarrow> 'j \<Rightarrow> pub_ack option" where
  "pub_ack_from_json L j = do {
     admin_id \<leftarrow> at_str L j ''admin_id'';
     pid \<leftarrow> at_str L j ''id'';
     date \<leftarrow> Option.bind (jat L j ''date'') (get_long L);
     Some \<lparr> a_admin_id = admin_id, a_id = pid, a_date = date \<rparr> }"

text \<open>\<open>of_size\<close> makes a JSON number of a \<open>std::size_t\<close>.\<close>

definition pub_ack_to_json :: "'j extern \<Rightarrow> (u64 \<Rightarrow> 'j) \<Rightarrow> pub_ack \<Rightarrow> 'j" where
  "pub_ack_to_json L of_size e = jobject L
     [ (''admin_id'', of_str L (a_admin_id e)), (''id'', of_str L (a_id e)),
       (''date'', of_size (a_date e)) ]"

definition show_pub_ack :: "pub_ack \<Rightarrow> string" where
  "show_pub_ack c = ''Id: '' @ a_id c"

section \<open>Chat messages\<close>

record message =
  m_cmd :: string
  m_to :: string
  m_from :: string
  m_message :: string
  m_post_id :: string
  m_nick :: string
  m_type :: string
  m_is_redirected :: c_int
  m_refers_to :: c_int
  m_id :: c_int

definition new_message :: message where
  "new_message =
     \<lparr> m_cmd = ''message'', m_to = '''', m_from = '''', m_message = ''Tenho interesse'',
       m_post_id = '''', m_nick = '''', m_type = ''chat'', m_is_redirected = 0,
       m_refers_to = -1, m_id = 23 \<rparr>"

definition log_message :: "user_cred \<Rightarrow> message \<Rightarrow> line" where
  "log_message cred msg =
     Line (''User '' @ u_user_id cred @ '' received message to '' @ m_to msg @ '' from '' @
           m_from msg @ ''. Type '' @ m_type msg)"

definition show_message :: "message \<Rightarrow> string" where
  "show_message c = ''To: '' @ m_to c @ '', from '' @ m_from c @ '', post id: '' @ m_post_id c"

definition message_from_json :: "'j extern \<Rightarrow> 'j \<Rightarrow> message option" where
  "message_from_json L j = do {
     cmd \<leftarrow> at_str L j ''cmd'';
     post_id \<leftarrow> at_str L j ''post_id'';
     author \<leftarrow> at_str L j ''from'';
     to \<leftarrow> get_optional_field L (get_str L) '''' j ''to'';
     msg \<leftarrow> get_optional_field L (get_str L) '''' j ''message'';
     nick \<leftarrow> get_optional_field L (get_str L) '''' j ''nick'';
     type \<leftarrow> get_optional_field L (get_str L) '''' j ''type'';
     redirected \<leftarrow> get_optional_field L (get_int32 L) 0 j ''is_redirected'';
     refers \<leftarrow> get_optional_field L (get_int32 L) 0 j ''refers_to'';
     mid \<leftarrow> get_optional_field L (get_int32 L) 0 j ''id'';
     Some \<lparr> m_cmd = cmd, m_to = to, m_from = author, m_message = msg, m_post_id = post_id,
       m_nick = nick, m_type = type, m_is_redirected = redirected, m_refers_to = refers,
       m_id = mid \<rparr> }"

definition message_to_json :: "'j extern \<Rightarrow> message \<Rightarrow> 'j" where
  "message_to_json L e = jobject L
     [ (''cmd'', of_str L (m_cmd e)), (''to'', of_str L (m_to e)),
       (''message'', of_str L (m_message e)), (''post_id'', of_str L (m_post_id e)),
       (''nick'', of_str L (m_nick e)), (''type'', of_str L (m_type e)),
       (''from'', of_str L (m_from e)), (''is_redirected'', of_int32 L (m_is_redirected e)),
       (''refers_to'', of_int32 L (m_refers_to e)), (''id'', of_int32 L (m_id e)) ]"

definition chat_message :: "string \<Rightarrow> string \<Rightarrow> string \<Rightarrow> message" where
  "chat_message to post_id body =
     new_message\<lparr>m_to := to, m_post_id := post_id, m_message := body\<rparr>"

definition make_message :: "'j extern \<Rightarrow> string \<Rightarrow> string \<Rightarrow> string \<Rightarrow> string option" where
  "make_message L to post_id body = jdump L (message_to_json L (chat_message to post_id body))"

section \<open>HTTP clients\<close>

definition tcp_timeout :: "string \<Rightarrow> string \<Rightarrow> unit co" where
  "tcp_timeout host port =
     co_bind
       (co_catch
          (perform (Resolve host port)
          (perform (Connect (host, port))
          (perform Read_some
             (Return ()))))
          (Return ()))
       (\<lambda>_. print (Success ''tcp_timeout.'') (Return ()))"

text \<open>Exceptions leave this coroutine.\<close>

definition posts_search :: "'j extern \<Rightarrow> string \<Rightarrow> string \<Rightarrow> string \<Rightarrow> unit co" where
  "posts_search L host port target =
     get_or_throw (make_search_body L) (\<lambda>body.
     perform (Resolve host port)
     (perform (Connect (host, port))
     (perform (Http_write (make_req host target body))
     (receive_response (\<lambda>_.
      perform Shutdown_both
     (print (Success ''search/count.'')
        (Return ())))))))"

definition make_request :: "endpoints \<Rightarrow> string \<Rightarrow> string \<Rightarrow> string \<Rightarrow> (status \<times> string) co" where
  "make_request results target host body =
     perform (Connect results)
     (perform (Http_write (make_req host target body))
     (receive_response (\<lambda>res.
      perform Shutdown_both
        (Return res))))"

definition read_cred :: "'j extern \<Rightarrow> string \<Rightarrow> user_cred option" where
  "read_cred L body = Option.bind (jparse L body) (cred_from_json L)"

definition read_pub_ack :: "'j extern \<Rightarrow> string \<Rightarrow> pub_ack option" where
  "read_pub_ack L body = Option.bind (jparse L body) (pub_ack_from_json L)"

definition read_message :: "'j extern \<Rightarrow> string \<Rightarrow> message option" where
  "read_message L body = Option.bind (jparse L body) (message_from_json L)"

text \<open>Credentials and a published post; the empty ones after an exception.\<close>

record cred_pub_helper =
  h_cred :: user_cred
  h_pack :: pub_ack

definition no_cred_pub :: cred_pub_helper where
  "no_cred_pub =
     \<lparr> h_cred = \<lparr> u_user = '''', u_key = '''', u_user_id = '''' \<rparr>,
       h_pack = \<lparr> a_admin_id = '''', a_id = '''', a_date = 0 \<rparr> \<rparr>"

definition cred_pub :: "'j extern \<Rightarrow> endpoints \<Rightarrow> string \<Rightarrow> cred_pub_helper co" where
  "cred_pub L results host =
     co_catch
       (co_bind (make_request results ''/get-user-id'' host '''') (\<lambda>(st1, body1).
        assert_true (st1 = Status_ok) ''get-user-id''
       (get_or_throw (read_cred L body1) (\<lambda>cred.
        get_or_throw (make_publish_body L cred) (\<lambda>body.
        co_bind (make_request results ''/posts/publish'' host body) (\<lambda>(st2, body2).
        assert_true (st2 = Status_ok) ''get-user-id''
       (get_or_throw (read_pub_ack L body2) (\<lambda>pack.
          Return \<lparr> h_cred = cred, h_pack = pack \<rparr>))))))))
       (print Failure_what
         (Return no_cred_pub))"

section \<open>Websocket clients\<close>

text \<open>A websocket connection is made, the client logs in and waits for the answer.\<close>

definition ws_connect :: "endpoints \<Rightarrow> string \<Rightarrow> string \<Rightarrow> 'a co \<Rightarrow> 'a co" where
  "ws_connect results host port k =
     perform (Connect results) (perform (Handshake (host @ '':'' @ port) ''/'') k)"

definition ws_send_text :: "string option \<Rightarrow> 'a co \<Rightarrow> 'a co" where
  "ws_send_text m k = get_or_throw m (\<lambda>m. perform (Ws_write m) k)"

text \<open>One message is received and checked: \<open>launch_replier\<close>, \<open>publisher\<close>.\<close>

definition expect_message ::
  "'j extern \<Rightarrow> user_cred \<Rightarrow> (message \<Rightarrow> line list) \<Rightarrow> (message \<Rightarrow> 'a co) \<Rightarrow> 'a co" where
  "expect_message L cred checks k =
     receive_text (\<lambda>m.
     get_or_throw (read_message L m) (\<lambda>msg.
     print (log_message cred msg)
       (foldr print (checks msg) (k msg))))"

definition replier_checks :: "user_cred \<Rightarrow> string \<Rightarrow> message \<Rightarrow> line list" where
  "replier_checks cred type msg =
     [ assert_line (u_user_id cred = m_to msg) ''launch_replier'',
       assert_line (m_type msg = type) ''launch_replier'' ]"

primrec replier_rounds :: "'j extern \<Rightarrow> user_cred \<Rightarrow> string \<Rightarrow> nat \<Rightarrow> unit co \<Rightarrow> unit co" where
  "replier_rounds L cred msg 0 k = k"
| "replier_rounds L cred msg (Suc n) k =
     perform (Ws_write msg)
     (expect_message L cred (replier_checks cred ''server_ack'') (\<lambda>_.
      expect_message L cred (replier_checks cred ''chat'') (\<lambda>_.
      replier_rounds L cred msg n k)))"

definition launch_replier ::
  "'j extern \<Rightarrow> endpoints \<Rightarrow> string \<Rightarrow> string \<Rightarrow> string \<Rightarrow> string \<Rightarrow> c_int \<Rightarrow> unit co" where
  "launch_replier L results host port post_id user_id n_chat_msgs =
     co_catch
       (co_bind (make_request results ''/get-user-id'' host '''') (\<lambda>(st, body).
        assert_true (st = Status_ok) ''get-user-id''
       (get_or_throw (read_cred L body) (\<lambda>cred.
        ws_connect results host port
       (ws_send_text (make_login L cred)
       (receive_text (\<lambda>_.
        get_or_throw (make_message L user_id post_id '''') (\<lambda>msg.
        replier_rounds L cred msg (nat (sint n_chat_msgs))
       (print (Line ''Replier Leaving'')
       (perform Ws_close
          (Return ())))))))))))
       (print Failure_what (Return ()))"

definition publisher_checks :: "cred_pub_helper \<Rightarrow> string \<Rightarrow> message \<Rightarrow> line list" where
  "publisher_checks h type msg =
     [ assert_line (u_user_id (h_cred h) = m_to msg) ''publisher'',
       assert_line (a_id (h_pack h) = m_post_id msg) ''publisher'',
       assert_line (m_type msg = type) ''publisher'' ]"

primrec publisher_rounds :: "'j extern \<Rightarrow> cred_pub_helper \<Rightarrow> nat \<Rightarrow> unit co \<Rightarrow> unit co" where
  "publisher_rounds L h 0 k = k"
| "publisher_rounds L h (Suc n) k =
     expect_message L (h_cred h) (publisher_checks h ''chat'') (\<lambda>msg.
     ws_send_text (make_message L (m_from msg) (m_post_id msg) '''')
     (expect_message L (h_cred h) (publisher_checks h ''server_ack'') (\<lambda>_.
      publisher_rounds L h n k)))"

definition publisher :: "'j extern \<Rightarrow> string \<Rightarrow> string \<Rightarrow> c_int \<Rightarrow> unit co" where
  "publisher L host port n_chat_msgs =
     (let results = (host, port)
      in co_catch
       (perform (Resolve host port)
       (co_bind (cred_pub L results host) (\<lambda>h.
        perform (Spawn_replier results host port (a_id (h_pack h)) (u_user_id (h_cred h)) n_chat_msgs)
       (ws_connect results host port
       (ws_send_text (make_login L (h_cred h))
       (receive_text (\<lambda>foo.
        print (Line (''Login: '' @ foo))
       (publisher_rounds L h (nat (sint n_chat_msgs))
       (print (Line ''Publisher Leaving'')
       (perform Ws_close
          (Return ())))))))))))
       (print Failure_what (Return ())))"

text \<open>A client that does not log in: the server should drop the connection.\<close>

definition no_login :: "string \<Rightarrow> string \<Rightarrow> unit co" where
  "no_login host port =
     co_catch
       (perform (Resolve host port)
       (ws_connect (host, port) host port
       (receive_text (\<lambda>_.
          Return ()))))
       (print (Success_what ''No login '') (Return ()))"

definition show_cred :: "user_cred \<Rightarrow> string" where
  "show_cred c = ''User: '' @ u_user c @ '', user id: '' @ u_user_id c"

text \<open>The two parts of \<open>offline\<close>: a second user writes to the first, who then logs in.\<close>

definition offline_peer ::
  "'j extern \<Rightarrow> endpoints \<Rightarrow> string \<Rightarrow> string \<Rightarrow> cred_pub_helper \<Rightarrow> 'a co \<Rightarrow> 'a co" where
  "offline_peer L results host port u1 k =
     co_bind (make_request results ''/get-user-id'' host '''') (\<lambda>(st2, body2).
     assert_true (st2 = Status_ok) ''get-user-id''
    (get_or_throw (read_cred L body2) (\<lambda>cred2.
     print (Line (''Peer: '' @ show_cred cred2))
    (ws_connect results host port
    (ws_send_text (make_login L cred2)
    (receive_text (\<lambda>_.
     ws_send_text (make_message L (u_user_id (h_cred u1)) (a_id (h_pack u1)) ''offline test'')
    (receive_text (\<lambda>_.
     perform Ws_close
    (print (Line ''Peer finsihed.'') k))))))))))"

definition offline_login ::
  "'j extern \<Rightarrow> endpoints \<Rightarrow> string \<Rightarrow> string \<Rightarrow> cred_pub_helper \<Rightarrow> unit co" where
  "offline_login L results host port u1 =
     print (Line (''Loggin to retrieve message: '' @ show_cred (h_cred u1)))
    (ws_connect results host port
    (ws_send_text (make_login L (h_cred u1))
    (receive_text (\<lambda>_.
     receive_text (\<lambda>foo.
     print (Line (''Message received: '' @ foo))
    (perform Ws_close
       (Return ())))))))"

definition offline :: "'j extern \<Rightarrow> string \<Rightarrow> string \<Rightarrow> unit co" where
  "offline L host port =
     (let results = (host, port)
      in co_catch
       (perform (Resolve host port)
       (co_bind (cred_pub L results host) (\<lambda>u1.
        print (Line (''Post publisher: '' @ show_cred (h_cred u1)))
       (offline_peer L results host port u1
       (offline_login L results host port u1)))))
       (print Failure_what (Return ())))"

section \<open>Unit tests\<close>

text \<open>\<open>v\<close>: the counter of a post that the test leaves uninitialised. \<open>front\<close> of an empty vector,
  which the tests do not reach, would be undefined; here it is \<open>post{}\<close>.\<close>

definition front :: "post list \<Rightarrow> post" where
  "front r = (case r of [] \<Rightarrow> empty_post | p # _ \<Rightarrow> p)"

definition test_post :: "c_int \<Rightarrow> string \<Rightarrow> c_int list \<Rightarrow> c_int list \<Rightarrow> post" where
  "test_post v pid loc pr =
     empty_post\<lparr>p_visualizations := v, p_id := pid, p_location := loc, p_product := pr\<rparr>"

definition visual_check :: "post \<Rightarrow> c_int \<Rightarrow> channel \<Rightarrow> line list" where
  "visual_check p n chn =
     (let r = channel_query p 300 chn
      in [ assert_line (length r = 1) ''channel_tests'',
           assert_line (p_visualizations (front r) = n) ''channel_tests'' ])"

definition channel_tests :: "c_int \<Rightarrow> line list" where
  "channel_tests v =
     (let p1 = test_post v '''' [1, 2, 3] [1, 2, 3];
          p2 = test_post v '''' [1, 3, 3] [1, 3, 3];
          chn = add_post p2 (add_post p1 []);
          r = channel_query p1 300 chn
      in [ assert_line (length r = 1) ''channel_tests'',
           assert_line (p_location (front r) = p_location p1) ''channel_test'' ]) @
     (let p1 = test_post 0 ''1'' [1] [];
          p2 = test_post 0 ''2'' [2] [];
          p3 = test_post 0 ''3'' [3] [];
          chn = add_post p3 (add_post p2 (add_post p1 []));
          chn = load_visualizations [(''1'', 10), (''3'', 10)] chn
      in visual_check p1 10 chn @ visual_check p2 0 chn @ visual_check p3 0 chn)"

section \<open>Process limits\<close>

text \<open>\<open>set_fd_limits\<close> of \<open>src/system.cpp\<close>: the lines it logs and the limits (soft, hard) the process
  has then, given the limits before (\<open>None\<close> if they cannot be read), whether they can be changed
  and, if not, the text of the error.\<close>

definition limits_line :: "u64 \<Rightarrow> u64 \<Rightarrow> string" where
  "limits_line a b =
     ''getrlimit (soft, hard): ('' @ show_nat (unat a) @ '', '' @ show_nat (unat b) @ '')''"

definition set_fd_limits ::
  "c_int \<Rightarrow> (u64 \<times> u64) option \<Rightarrow> bool \<Rightarrow> string \<Rightarrow> (level \<times> string) list \<times> (u64 \<times> u64) option" where
  "set_fd_limits fds old can_set err_text =
     (case old of
        None \<Rightarrow> ([], None)
      | Some (cur, mx) \<Rightarrow>
          let lines = [(Info, limits_line cur cur)]
          in if \<not> can_set then (lines @ [(Err, ''Unable to raise fd limits: '' @ err_text)], old)
             else (lines @ [(Info, limits_line (scast fds) (scast fds))], Some (scast fds, scast fds)))"

section \<open>The main function\<close>

record test_options =
  o_host :: string
  o_port :: string
  o_publishers :: c_int
  o_repliers :: c_int
  o_offline_tests :: c_int
  o_test :: c_int

definition test_options_of :: "options \<Rightarrow> varmap \<Rightarrow> test_options option" where
  "test_options_of opt vm = do {
     publishers \<leftarrow> int_opt opt vm ''publishers'' 2;
     repliers \<leftarrow> int_opt opt vm ''repliers'' 10;
     offline_tests \<leftarrow> int_opt opt vm ''offline-tests'' 10;
     test \<leftarrow> int_opt opt vm ''test'' 1;
     Some \<lparr> o_host = str_opt vm ''ip'' ''127.0.0.1'', o_port = str_opt vm ''port'' ''8080'',
       o_publishers = publishers, o_repliers = repliers, o_offline_tests = offline_tests,
       o_test = test \<rparr> }"

text \<open>The coroutines that \<open>main\<close> starts, and the lines of the unit tests.\<close>

definition test_tasks :: "'j extern \<Rightarrow> c_int \<Rightarrow> test_options \<Rightarrow> unit co list \<times> line list" where
  "test_tasks L v op =
     (let host = o_host op; port = o_port op
      in ((if o_test op = 1 then [tcp_timeout host port] else []) @
          (if o_test op = 2 then [posts_search L host port ''/posts/search''] else []) @
          (if o_test op = 3 then [posts_search L host port ''/posts/count''] else []) @
          (if o_test op = 4 then [no_login host port] else []) @
          (if o_test op = 5
           then replicate (nat (sint (o_publishers op))) (publisher L host port (o_repliers op)) else []) @
          (if o_test op = 6
           then replicate (nat (sint (o_offline_tests op))) (offline L host port) else []),
          (if o_test op = 7 then channel_tests v else [])))"

text \<open>An exception of the option parser ends the process (\<open>None\<close>); with \<open>--help\<close> nothing is started.
  The limits of the process are raised first: the lines logged and the limits then, what is
  started, and the lines of the unit tests.\<close>

definition test_main ::
  "'j extern \<Rightarrow> c_int \<Rightarrow> options \<Rightarrow> (u64 \<times> u64) option \<Rightarrow> bool \<Rightarrow> string \<Rightarrow>
     (((level \<times> string) list \<times> (u64 \<times> u64) option) \<times> unit co list \<times> line list) option" where
  "test_main L v opt old can_set err_text = do {
     cmd \<leftarrow> cmd_line opt;
     vm \<leftarrow> po_store cmd [];
     op \<leftarrow> test_options_of opt vm;
     Some (if has_opt vm ''help'' then (([], old), [], [])
           else (set_fd_limits 100000 old can_set err_text, test_tasks L v op)) }"

section \<open>The test of the notification service\<close>

text \<open>\<open>src/notify-test.cpp\<close>: one notification is sent. The exit status, and the session that is
  run; \<open>resolve_fails\<close>: the host of the service is not found.\<close>

record notify_test_options =
  nt_title :: string
  nt_body :: string
  nt_fcm_token :: string

definition default_fcm_token :: string where
  "default_fcm_token = ''dQ2rmqTJUNclfzqQoR9Xkj:APA91bGJeqWlL4tlgKBrfl26FUBcnao0BjZrrCZ6bVr4HHoJfkod4nA99ZoMtwLcXGjoVq2Akaj7cItE_oH0X6zYHtxP0aNO54l79F5IfAiahjCCmgDinyyCSPdN3OsLrUpPLJQm3JJE''"

definition notify_test_options_of :: "options \<Rightarrow> (bool \<times> notify_test_options) option" where
  "notify_test_options_of opt = do {
     cmd \<leftarrow> cmd_line opt;
     vm \<leftarrow> po_store cmd [];
     Some (has_opt vm ''help'',
       \<lparr> nt_title = str_opt vm ''title'' ''Test title'', nt_body = str_opt vm ''body'' ''Test body.'',
         nt_fcm_token = str_opt vm ''fcm-token'' default_fcm_token \<rparr>) }"

definition notify_test_main ::
  "'j extern \<Rightarrow> string \<Rightarrow> options \<Rightarrow> bool \<Rightarrow> bool \<Rightarrow> nat \<times> ntf_session option" where
  "notify_test_main L fcm_key opt resolve_fails sni_ok =
     (case notify_test_options_of opt of
        None \<Rightarrow> (1, None)
      | Some (True, _) \<Rightarrow> (0, None)
      | Some (False, op) \<Rightarrow>
          (case jdump L (make_ntf_body L (nt_title op) (nt_body op) (nt_fcm_token op)) of
             None \<Rightarrow> (1, None)
           | Some ntf_body \<Rightarrow>
               if resolve_fails then (1, None)
               else (0, Some (ntf_run sni_ok (default_ntf fcm_key) ntf_body))))"

end
