(* ===== verification/Clients_Facts.thy ===== *)
theory Clients_Facts
  imports Cluster Clients
begin

text \<open>
  The test client and the server understand each other: what the client makes of the answers of
  the server, and what the server makes of the messages of the client.
\<close>

section \<open>Messages of the client\<close>

lemma message_from_to_json:
  "json_laws L \<Longrightarrow> message_from_json L (message_to_json L m) = Some m"
  by (cases m) (simp add: message_from_json_def message_to_json_def at_str_def get_optional_field_def json_simps)

lemma login_request_members:
  assumes "json_laws L"
  shows "at_str L (login_request L c) ''cmd'' = Some ''login''"
    "at_str L (login_request L c) ''user'' = Some (u_user c)"
    "at_str L (login_request L c) ''key'' = Some (u_key c)"
    "jat L (login_request L c) ''token'' = None"
  using assms by (simp_all add: login_request_def Let_def json_simps)

lemma message_members:
  assumes "json_laws L"
  shows "at_str L (message_to_json L m) ''cmd'' = Some (m_cmd m)"
    "at_str L (message_to_json L m) ''to'' = Some (m_to m)"
    "at_str L (message_to_json L m) ''post_id'' = Some (m_post_id m)"
    "Option.bind (jat L (message_to_json L m) ''id'') (get_int32 L) = Some (m_id m)"
  using assms by (simp_all add: message_to_json_def at_str_def json_simps)

text \<open>The JSON form of the credentials writes the name of the user under another key than it is read
  from.\<close>

lemma cred_not_reread: "json_laws L \<Longrightarrow> cred_from_json L (cred_to_json L c) = None"
  by (simp add: cred_from_json_def cred_to_json_def at_str_def json_simps)

lemma pub_ack_from_to_json:
  "json_laws L \<Longrightarrow> get_long L (of_size (a_date a)) = Some (a_date a) \<Longrightarrow>
     pub_ack_from_json L (pub_ack_to_json L of_size a) = Some a"
  by (cases a) (simp add: pub_ack_from_json_def pub_ack_to_json_def at_str_def json_simps)

lemma crlf_space: "list_all json_space crlf"
  by (simp add: crlf_def json_space_def)

lemma parse_body: "space_laws L \<Longrightarrow> jdump L j = Some s \<Longrightarrow> jparse L (s @ crlf) = Some j"
  using crlf_space by (auto simp: space_laws_def)

section \<open>Credentials\<close>

text \<open>What a request for a user id draws from the generator.\<close>

definition new_cred :: "'j extern \<Rightarrow> core \<Rightarrow> nat \<Rightarrow> user_cred \<times> nat" where
  "new_cred L cfg g =
     (let (user, g) = pwd_make L (c_pwd_size cfg) g; (key, g) = pwd_make_key L g
      in (\<lparr> u_user = user, u_key = key, u_user_id = make_hex_digest L user key \<rparr>, g))"

definition cred_resp :: "'j extern \<Rightarrow> user_cred \<Rightarrow> 'j" where
  "cred_resp L c = user_id_resp L (u_user c) (u_key c) (u_user_id c)"

lemma new_cred_valid:
  assumes "hash_laws L" "0 < sint (c_pwd_size cfg)" "key_bytes L < 2 ^ 31" "new_cred L cfg g = (c, g')"
  shows "u_user_id c = make_hex_digest L (u_user c) (u_key c)" "u_user_id c \<noteq> ''''"
proof -
  have "sint (of_nat (key_bytes L) :: c_int) = int (key_bytes L)"
    using assms(3) by (simp add: signed_of_nat signed_take_bit_int_eq_self)
  then have "length (u_key c) = key_bytes L" "u_user c \<noteq> ''''"
    using assms(2,4) by (auto simp: new_cred_def Let_def pwd_make_key_def pwd_make_eq)
  moreover show "u_user_id c = make_hex_digest L (u_user c) (u_key c)"
    using assms(4) by (auto simp: new_cred_def Let_def split: prod.splits)
  ultimately show "u_user_id c \<noteq> ''''" using make_hex_digest_empty [OF assms(1)] by simp
qed

lemma read_cred_resp:
  assumes "json_laws L" "space_laws L" "jdump L (cred_resp L c) = Some s"
  shows "read_cred L (s @ crlf) = Some c"
  using assms(1) parse_body [OF assms(2,3)]
  by (cases c) (simp add: read_cred_def cred_resp_def user_id_resp_def cred_from_json_def at_str_def json_simps)

lemma http_user_id:
  assumes "new_cred L cfg (gen w) = (c, g)" "jdump L (cred_resp L c) = Some s"
  shows "\<exists>resp. http_on_read L cfg now ret0 Read_ok (request.truncate (make_req host ''/get-user-id'' '''')) w =
      (Respond resp, w\<lparr>gen := g\<rparr>) \<and> rs_status resp = Status_ok \<and> rs_body resp = s @ crlf"
proof -
  obtain user g1 key g2 where p: "pwd_make L (c_pwd_size cfg) (gen w) = (user, g1)"
    "pwd_make_key L g1 = (key, g2)" by fastforce
  with assms show ?thesis
    by (auto simp: http_on_read_def process_request_def post_handler_def make_req_def request.defs
        route_matches_def get_user_id_handler_def on_get_user_id_def new_cred_def cred_resp_def
        new_response_def set_body_def finish_response_def Let_def)
qed

lemma login_credentials:
  assumes "json_laws L" "make_login L c = Some m" "u_user_id c = make_hex_digest L (u_user c) (u_key c)"
    "u_user_id c \<noteq> ''''"
  shows "credentials L m (u_user_id c)"
proof -
  have "jparse L m = Some (login_request L c)"
    using parse_dump [OF assms(1)] assms(2) by (simp add: make_login_def)
  with assms(3,4) login_request_members [OF assms(1), of c] show ?thesis
    unfolding credentials_def by auto
qed

text \<open>The credentials the server hands out are good: the client reads from the answer to its
  request, whose status is 200, a name, a key and a user id, and the login message it makes of them
  presents, to every node, exactly that user id.\<close>

lemma issued_credentials:
  assumes "json_laws L" "space_laws L" "hash_laws L" "0 < sint (c_pwd_size cfg)" "key_bytes L < 2 ^ 31"
    "http_on_read L cfg now ret0 Read_ok (request.truncate (make_req host ''/get-user-id'' '''')) w =
       (Respond resp, v)"
    "rs_status resp = Status_ok"
  shows "\<exists>c. read_cred L (rs_body resp) = Some c \<and> u_user_id c \<noteq> '''' \<and>
    (\<forall>m. make_login L c = Some m \<longrightarrow> credentials L m (u_user_id c))
    \<and> v = w\<lparr>gen := gen v\<rparr>"
proof -
  obtain c g where cg: "new_cred L cfg (gen w) = (c, g)" by fastforce
  have "jdump L (cred_resp L c) \<noteq> None"
    using assms(6,7) cg
    by (auto simp: http_on_read_def process_request_def post_handler_def make_req_def request.defs
        route_matches_def get_user_id_handler_def on_get_user_id_def new_cred_def cred_resp_def
        new_response_def set_body_def set_not_fount_header_def finish_response_def Let_def
        split: prod.splits option.splits)
  then obtain s where s: "jdump L (cred_resp L c) = Some s" by blast
  from http_user_id [OF cg s, of now ret0 host] assms(6)
  have "rs_body resp = s @ crlf" "v = w\<lparr>gen := g\<rparr>" by auto
  then show ?thesis
    using read_cred_resp [OF assms(1,2) s] new_cred_valid [OF assms(3-5) cg]
      login_credentials [OF assms(1)] by auto
qed

section \<open>Publishing\<close>

definition publish_request :: "'j extern \<Rightarrow> user_cred \<Rightarrow> 'j" where
  "publish_request L c = jset L (jset L (jset L (jnull L) ''user'' (of_str L (u_user c)))
     ''key'' (of_str L (u_key c))) ''post'' (to_json L (publish_post c))"

lemma publish_request_members:
  assumes "json_laws L"
  shows "at_str L (publish_request L c) ''user'' = Some (u_user c)"
    "at_str L (publish_request L c) ''key'' = Some (u_key c)"
    "jat L (publish_request L c) ''post'' = Some (to_json L (publish_post c))"
  using assms by (simp_all add: publish_request_def json_simps)

lemma publish_post_plain: "map strip_query (p_images (publish_post c)) = p_images (publish_post c)"
  by (simp add: publish_post_def strip_query_takeWhile)

text \<open>The post the server makes of the one the client sends.\<close>

definition published_post :: "user_cred \<Rightarrow> string \<Rightarrow> c_long \<Rightarrow> post" where
  "published_post c pid now = (publish_post c)\<lparr>p_date := now, p_id := pid\<rparr>"

lemma read_publish_ack:
  assumes "json_laws L" "space_laws L" "jdump L (publish_ok_ack L p) = Some s"
  shows "read_pub_ack L (s @ crlf) = Some \<lparr> a_admin_id = chat_admin_id_key, a_id = p_id p, a_date = p_date p \<rparr>"
  using assms(1) parse_body [OF assms(2,3)]
  by (simp add: read_pub_ack_def publish_ok_ack_def pub_ack_from_json_def at_str_def json_simps)

lemma http_publish:
  assumes "json_laws L" "u_user_id c = make_hex_digest L (u_user c) (u_key c)" "u_user_id c \<noteq> ''''"
    "make_publish_body L c = Some body" "pwd_make L (c_pwd_size cfg) (gen w) = (pid, g)"
    "jdump L (publish_internal L (published_post c pid now)) = Some msg"
    "jdump L (publish_ok_ack L (published_post c pid now)) = Some ack"
  shows "\<exists>resp. http_on_read L cfg now ret0 Read_ok (request.truncate (make_req host ''/posts/publish'' body)) w =
      (Respond resp, redis_send [ R_hset (r_posts_key (c_redis cfg)) [(pid, msg)],
         R_publish (r_posts_channel_key (c_redis cfg)) msg ] (w\<lparr>gen := g\<rparr>))
    \<and> rs_status resp = Status_ok \<and> rs_body resp = ack @ crlf"
proof -
  have body: "jparse L body = Some (publish_request L c)"
    using parse_dump [OF assms(1)] assms(4) by (simp add: make_publish_body_def publish_request_def Let_def)
  have post: "from_json L (to_json L (publish_post c)) = Some (publish_post c)"
    using from_to_json [OF assms(1), of "publish_post c"] by (simp add: publish_post_plain)
  have q: "(publish_post c)\<lparr>p_from := u_user_id c, p_date := now, p_id := pid, p_visualizations := 0\<rparr> =
      published_post c pid now"
    by (simp add: published_post_def publish_post_def)
  have "on_publish_impl L cfg now (publish_request L c) w = (Some ack,
      redis_send [ R_hset (r_posts_key (c_redis cfg)) [(pid, msg)],
         R_publish (r_posts_channel_key (c_redis cfg)) msg ] (w\<lparr>gen := g\<rparr>))"
    using assms(2,3,5-7) publish_request_members [OF assms(1), of c] post q
    by (simp add: on_publish_impl_def Let_def published_post_def)
  with body show ?thesis
    by (auto simp: http_on_read_def process_request_def post_handler_def make_req_def request.defs
        route_matches_def post_publish_handler_def new_response_def set_body_def finish_response_def Let_def)
qed

section \<open>Chat\<close>

definition ack_message :: "string \<Rightarrow> string \<Rightarrow> string \<Rightarrow> message" where
  "ack_message to user post_id =
     \<lparr> m_cmd = ''message'', m_to = user, m_from = to, m_message = '''', m_post_id = post_id,
       m_nick = '''', m_type = ''server_ack'', m_is_redirected = 0, m_refers_to = 0, m_id = 0 \<rparr>"

abbreviation chat_json_of :: "'j extern \<Rightarrow> string \<Rightarrow> string \<Rightarrow> string \<Rightarrow> 'j" where
  "chat_json_of L to post_id body \<equiv> message_to_json L (chat_message to post_id body)"

definition chat_text :: "'j extern \<Rightarrow> core \<Rightarrow> string \<Rightarrow> string \<Rightarrow> string \<Rightarrow> string \<Rightarrow> string option" where
  "chat_text L cfg user to post_id body =
     jdump L (forwarded L cfg user to (chat_json_of L to post_id body))"

definition chat_ack_text :: "'j extern \<Rightarrow> string \<Rightarrow> string \<Rightarrow> string \<Rightarrow> string option" where
  "chat_ack_text L user to post_id = jdump L (chat_ack L to user post_id (m_id new_message))"

lemma read_chat_ack:
  assumes "json_laws L" "chat_ack_text L user to post_id = Some ack"
  shows "read_message L ack = Some (ack_message to user post_id)"
  using assms parse_dump [OF assms(1), of _ ack]
  by (simp add: read_message_def chat_ack_text_def chat_ack_def message_from_json_def ack_message_def
      at_str_def get_optional_field_def json_simps)

lemma forwarded_at:
  assumes "json_laws L" "is_obj L j"
  shows "jat L (forwarded L cfg user to j) k =
    (if k = ''to'' \<and> to = chat_admin_id_key then Some (of_str L (c_chat_admin_id cfg))
     else if k = ''from'' then Some (of_str L user) else jat L j k)"
  using assms by (simp add: forwarded_def Let_def json_simps)

lemma read_chat_text:
  assumes "json_laws L" "chat_text L cfg user to post_id body = Some out"
  shows "read_message L out = Some ((chat_message to post_id body)\<lparr>m_from := user, m_to := addressee cfg to\<rparr>)"
proof -
  let ?j = "chat_json_of L to post_id body"
  have obj: "is_obj L ?j" by (rule at_str_SomeD [OF message_members(1) [OF assms(1)]])
  have "jat L (forwarded L cfg user to ?j) k = map_of
      [ (''cmd'', of_str L ''message''), (''to'', of_str L (addressee cfg to)),
        (''message'', of_str L body), (''post_id'', of_str L post_id), (''nick'', of_str L ''''),
        (''type'', of_str L ''chat''), (''from'', of_str L user), (''is_redirected'', of_int32 L 0),
        (''refers_to'', of_int32 L (-1)), (''id'', of_int32 L 23) ] k" for k
    unfolding forwarded_at [OF assms(1) obj]
    using assms(1) by (auto simp: message_to_json_def chat_message_def new_message_def addressee_def json_simps)
  then show ?thesis
    using assms parse_dump [OF assms(1), of _ out]
    by (simp add: read_message_def chat_text_def message_from_json_def at_str_def
        get_optional_field_def chat_message_def new_message_def json_simps)
qed

lemma make_message_members:
  assumes "json_laws L" "make_message L to post_id body = Some m"
  shows "jparse L m = Some (chat_json_of L to post_id body)"
    "at_str L (chat_json_of L to post_id body) ''cmd'' = Some ''message''"
    "at_str L (chat_json_of L to post_id body) ''to'' = Some to"
    "ack_of L to user (chat_json_of L to post_id body) = chat_ack_text L user to post_id"
  using assms message_members [OF assms(1), of "chat_message to post_id body"]
  by (auto simp: make_message_def parse_dump ack_of_def chat_ack_text_def chat_message_def new_message_def)

text \<open>The handler of the server on a message of the client, for a user on this node and for a user
  who is not.\<close>

lemma client_chat_online:
  assumes "json_laws L" "make_message L to post_id body = Some m" "heap w s = Some x" "is_logged_in x"
    "map_of (sessions w) (addressee cfg to) = Some t" "heap w t = Some y"
    "chat_text L cfg (pub_hash x) to post_id body = Some out"
    "chat_ack_text L (pub_hash x) to post_id = Some ack"
  shows "on_app L cfg now s m w = (Chat_msg_ok, send_msg s ack False (send_msg t out True w))"
proof -
  have fwd: "forward_chat_msg L cfg (forwarded L cfg (pub_hash x) to (chat_json_of L to post_id body))
      (addressee cfg to) w = (Some (), send_msg t out True w)"
    using assms(5-7) by (simp add: forward_chat_msg_def chat_text_def)
  have "session_hash (send_msg t out True w) s = pub_hash x"
    using assms(3) by (simp add: session_hash_sel) (simp add: session_hash_def get_pub_hash_def)
  from chat_msg_eq [OF assms(1) make_message_members(1-3) [OF assms(1,2)] assms(3,4) fwd this, of now]
  show ?thesis
    using make_message_members(4) [OF assms(1,2)] assms(8) by (simp add: acknowledge_def)
qed

lemma client_chat_offline:
  assumes "json_laws L" "make_message L to post_id body = Some m" "heap w s = Some x" "is_logged_in x"
    "map_of (sessions w) (addressee cfg to) = None"
    "chat_text L cfg (pub_hash x) to post_id body = Some out"
    "chat_ack_text L (pub_hash x) to post_id = Some ack"
  shows "on_app L cfg now s m w =
    (Chat_msg_ok, send_msg s ack False (store_chat_msg cfg [out] (addressee cfg to) w))"
  using offline_eq [OF assms(1) make_message_members(1-3) [OF assms(1,2)] assms(3-5), of out now]
    make_message_members(4) [OF assms(1,2)] assms(6,7)
  by (simp add: acknowledge_def chat_text_def)

text \<open>The unit tests of the repository hold of the posts in memory, whatever the uninitialised counter
  of a post is: all eight checks print a success. The last one expects the counter of post \<open>3\<close> to be
  0 although the loaded values give it 10: it passes because \<open>load_visualizations\<close> does not get past
  post \<open>2\<close>, which has no value.\<close>

lemma channel_tests_pass: "channel_tests v =
  [Success ''channel_tests'', Success ''channel_test'', Success ''channel_tests'', Success ''channel_tests'',
   Success ''channel_tests'', Success ''channel_tests'', Success ''channel_tests'', Success ''channel_tests'']"
  by code_simp

text \<open>The test of the time limit reports a success even if the host cannot be found.\<close>

lemma tcp_timeout_vacuous:
  "tcp_timeout host port = Await a k \<Longrightarrow> k Failed = print (Success ''tcp_timeout.'') (Return ())"
  by (auto simp: tcp_timeout_def perform_def)

lemma fd_limits_logged:
  "set_fd_limits fds (Some (cur, mx)) True e =
     ([(Info, limits_line cur cur), (Info, limits_line (scast fds) (scast fds))], Some (scast fds, scast fds))"
  by (simp add: set_fd_limits_def)

end
