(* ===== verification/Client_Run.thy ===== *)
theory Client_Run
  imports Clients_Facts
begin

text \<open>
  Test clients beside a cluster: what each awaited operation of a coroutine does to the node the
  clients are connected to, runs of several clients with output, and the two scenarios of the test
  program that exchange chat messages, played against the model of the server.
\<close>

section \<open>Operations\<close>

text \<open>The connection of a client: none, a stream on which an answer may be waiting, or a websocket
  that is a session of the node.\<close>

datatype link = No_link | Tcp_link "response option" | Ws_link sid

definition upgrade_request :: "string \<Rightarrow> string \<Rightarrow> request" where
  "upgrade_request host target =
     \<lparr> q_method = Verb_get, q_target = target, q_body = '''', q_upgrade = True \<rparr>"

text \<open>
  A request is answered by the node when it is read; a handshake makes a session, which is accepted
  at once; a text written is read by the session, and a text read is a write of the session that
  has completed; after a close the session finds the stream at its end. Any operation may fail.
\<close>

inductive op_step ::
  "'j extern \<Rightarrow> core \<Rightarrow> redis \<Rightarrow> nat \<Rightarrow> cluster \<Rightarrow> link \<Rightarrow> operation \<Rightarrow> resumption \<Rightarrow> cluster \<Rightarrow> link \<Rightarrow> bool"
  for L cfg R i X where
  o_fail: "op_step L cfg R i X l a Failed X No_link"
| o_resolve: "op_step L cfg R i X l (Resolve host port) Done X l"
| o_connect: "op_step L cfg R i X l (Connect ends) Done X (Tcp_link None)"
| o_request: "http_on_read L cfg now ret0 Read_ok (request.truncate req) (wk (member X i)) = (Respond resp, w) \<Longrightarrow>
     cl_step L cfg R X (Node_event i (E_http now ret0 Read_ok (request.truncate req))) X' \<Longrightarrow>
     op_step L cfg R i X (Tcp_link None) (Http_write req) Done X' (Tcp_link (Some resp))"
| o_response: "op_step L cfg R i X (Tcp_link (Some resp)) Http_read
     (Response_read (rs_status resp) (rs_body resp)) X (Tcp_link None)"
| o_shutdown: "op_step L cfg R i X (Tcp_link r) Shutdown_both Done X No_link"
| o_handshake: "sid = next_sid (member X i) \<Longrightarrow>
     cl_step L cfg R X (Node_event i (E_http now ret0 Read_ok (upgrade_request host target))) X' \<Longrightarrow>
     cl_step L cfg R X' (Node_event i (E_run False sid)) X'' \<Longrightarrow>
     op_step L cfg R i X (Tcp_link None) (Handshake host target) Done X'' (Ws_link sid)"
| o_write: "cl_step L cfg R X (Node_event i (E_read now False m sid)) X' \<Longrightarrow>
     op_step L cfg R i X (Ws_link sid) (Ws_write m) Done X' (Ws_link sid)"
| o_read: "cl_step L cfg R X (Node_event i (E_write False m sid)) X' \<Longrightarrow>
     op_step L cfg R i X (Ws_link sid) Ws_read (Text_read m) X' (Ws_link sid)"
| o_close: "cl_step L cfg R X (Node_event i (E_read now True '''' sid)) X' \<Longrightarrow>
     op_step L cfg R i X (Ws_link sid) Ws_close Done X' No_link"

section \<open>Runs\<close>

text \<open>The clients, each with its connection and the rest of its coroutine, and the lines they print;
  in between the cluster does what it likes.\<close>

type_synonym clients = "(link \<times> unit co) list"

inductive world_run ::
  "'j extern \<Rightarrow> core \<Rightarrow> redis \<Rightarrow> nat \<Rightarrow> cluster \<Rightarrow> clients \<Rightarrow> line list \<Rightarrow> cluster \<Rightarrow> clients \<Rightarrow> bool"
  for L cfg R i where
  w_done: "world_run L cfg R i X cs [] X cs"
| w_op: "world_run L cfg R i X cs ls Y ds \<Longrightarrow> n < length ds \<Longrightarrow> ds ! n = (l, Await a k) \<Longrightarrow>
     op_step L cfg R i Y l a r Z l' \<Longrightarrow> world_run L cfg R i X cs ls Z (ds[n := (l', k r)])"
| w_print: "world_run L cfg R i X cs ls Y ds \<Longrightarrow> n < length ds \<Longrightarrow> ds ! n = (l, Await (Print ln) k) \<Longrightarrow>
     world_run L cfg R i X cs (ls @ [ln]) Y (ds[n := (l, k Done)])"
| w_spawn: "world_run L cfg R i X cs ls Y ds \<Longrightarrow> n < length ds \<Longrightarrow>
     ds ! n = (l, Await (Spawn_replier ends host port post_id user_id m) k) \<Longrightarrow>
     world_run L cfg R i X cs ls Y
       (ds[n := (l, k Done)] @ [(No_link, launch_replier L ends host port post_id user_id m)])"
| w_net: "world_run L cfg R i X cs ls Y ds \<Longrightarrow> cl_step L cfg R Y e Z \<Longrightarrow> world_run L cfg R i X cs ls Z ds"

lemma world_run_trans:
  assumes "world_run L cfg R i X cs ls Y ds" "world_run L cfg R i Y ds ms Z es"
  shows "world_run L cfg R i X cs (ls @ ms) Z es"
  using assms(2,1)
proof (induction rule: world_run.induct)
  case (w_print X cs ls Y ds n l ln k)
  then show ?case using world_run.w_print [of L cfg R i _ _ _ Y ds n l ln k] by force
qed (auto intro: world_run.intros)

lemma op_step_cluster: "op_step L cfg R i X l a r X' l' \<Longrightarrow> \<exists>es. \<forall>fs. cl_run L cfg R fs X \<longrightarrow> cl_run L cfg R (fs @ es) X'"
proof (induction rule: op_step.induct)
  case (o_handshake sid now ret0 host target X' X'')
  have "cl_run L cfg R (fs @ [Node_event i (E_http now ret0 Read_ok (upgrade_request host target)),
      Node_event i (E_run False sid)]) X''" if "cl_run L cfg R fs X" for fs
    using cl_run.c_step [OF cl_run.c_step [OF that o_handshake(2)] o_handshake(3)] by simp
  then show ?case by blast
qed (force intro: exI [of _ "[]"] exI [of _ "[_]"] cl_run.c_step)+

lemma world_run_cluster:
  "world_run L cfg R i X cs ls Y ds \<Longrightarrow> cl_run L cfg R fs X \<Longrightarrow> \<exists>es. cl_run L cfg R (fs @ es) Y"
proof (induction rule: world_run.induct)
  case (w_op X cs ls Y ds n l a k r Z l')
  then show ?case using op_step_cluster [OF w_op.hyps(4)] by (metis append_assoc)
next
  case (w_net X cs ls Y ds e Z)
  then show ?case using cl_run.c_step [of L cfg R _ Y e Z] by (metis append_assoc)
qed (auto intro: exI [of _ "[]"])

section \<open>Pieces of a run\<close>

lemma w_perform:
  assumes "world_run L cfg R i X cs ls Y ds" "n < length ds" "ds ! n = (l, perform a k)"
    "op_step L cfg R i Y l a r Z l'" "r \<noteq> Failed"
  shows "world_run L cfg R i X cs ls Z (ds[n := (l', k)])"
  using w_op [OF assms(1,2) assms(3) [unfolded perform_def] assms(4)] assms(5) by simp

lemma w_text:
  assumes "world_run L cfg R i X cs ls Y ds" "n < length ds" "ds ! n = (Ws_link s, receive_text k)"
    "cl_step L cfg R Y (Node_event i (E_write False m s)) Z"
  shows "world_run L cfg R i X cs ls Z (ds[n := (Ws_link s, k m)])"
  using w_op [OF assms(1,2) assms(3) [unfolded receive_text_def] o_read [OF assms(4)]] by simp

lemma w_lines:
  assumes "world_run L cfg R i X cs ls Y ds" "n < length ds" "ds ! n = (l, foldr print lns k)"
  shows "world_run L cfg R i X cs (ls @ lns) Y (ds[n := (l, k)])"
  using assms
proof (induction lns arbitrary: ls ds)
  case Nil
  then show ?case by (metis append_Nil2 foldr_Nil id_apply list_update_id)
next
  case (Cons ln lns)
  have "ds ! n = (l, Await (Print ln) (\<lambda>_. foldr print lns k))"
    using Cons.prems(3) by (simp add: print_def [of ln])
  from w_print [OF Cons.prems(1,2) this]
  have "world_run L cfg R i X cs (ls @ [ln]) Y (ds[n := (l, foldr print lns k)])" .
  from Cons.IH [OF this] Cons.prems(2) show ?case by simp
qed

lemma w_expect:
  assumes "world_run L cfg R i X cs ls Y ds" "n < length ds"
    "ds ! n = (Ws_link s, expect_message L cred checks k)"
    "cl_step L cfg R Y (Node_event i (E_write False m s)) Z" "read_message L m = Some msg"
  shows "world_run L cfg R i X cs (ls @ log_message cred msg # checks msg) Z (ds[n := (Ws_link s, k msg)])"
proof -
  have "world_run L cfg R i X cs ls Z
      (ds[n := (Ws_link s, foldr print (log_message cred msg # checks msg) (k msg))])"
    using w_text [OF assms(1,2) assms(3) [unfolded expect_message_def] assms(4)] assms(5)
    by (simp add: get_or_throw_def)
  from w_lines [OF this, of n] assms(2) show ?thesis by simp
qed

text \<open>The same for two clients.\<close>

lemma w_send0:
  "world_run L cfg R i X cs ls Y [(Ws_link s, perform (Ws_write m) k), d] \<Longrightarrow>
     cl_step L cfg R Y (Node_event i (E_read now False m s)) Z \<Longrightarrow>
     world_run L cfg R i X cs ls Z [(Ws_link s, k), d]"
  using w_perform [of L cfg R i X cs ls Y "[(Ws_link s, perform (Ws_write m) k), d]" 0 "Ws_link s"
      "Ws_write m" k Done Z "Ws_link s"] by (simp add: o_write)

lemma w_send1:
  "world_run L cfg R i X cs ls Y [d, (Ws_link s, perform (Ws_write m) k)] \<Longrightarrow>
     cl_step L cfg R Y (Node_event i (E_read now False m s)) Z \<Longrightarrow>
     world_run L cfg R i X cs ls Z [d, (Ws_link s, k)]"
  using w_perform [of L cfg R i X cs ls Y "[d, (Ws_link s, perform (Ws_write m) k)]" 1 "Ws_link s"
      "Ws_write m" k Done Z "Ws_link s"] by (simp add: o_write)

lemma w_expect0:
  "world_run L cfg R i X cs ls Y [(Ws_link s, expect_message L cred checks k), d] \<Longrightarrow>
     cl_step L cfg R Y (Node_event i (E_write False m s)) Z \<Longrightarrow> read_message L m = Some msg \<Longrightarrow>
     world_run L cfg R i X cs (ls @ log_message cred msg # checks msg) Z [(Ws_link s, k msg), d]"
  using w_expect [of L cfg R i X cs ls Y "[(Ws_link s, expect_message L cred checks k), d]" 0 s cred checks k m Z msg]
  by simp

lemma w_expect1:
  "world_run L cfg R i X cs ls Y [d, (Ws_link s, expect_message L cred checks k)] \<Longrightarrow>
     cl_step L cfg R Y (Node_event i (E_write False m s)) Z \<Longrightarrow> read_message L m = Some msg \<Longrightarrow>
     world_run L cfg R i X cs (ls @ log_message cred msg # checks msg) Z [d, (Ws_link s, k msg)]"
  using w_expect [of L cfg R i X cs ls Y "[d, (Ws_link s, expect_message L cred checks k)]" 1 s cred checks k m Z msg]
  by simp

section \<open>Two clients on one node\<close>

definition idle_session :: "string \<Rightarrow> ws_session \<Rightarrow> bool" where
  "idle_session u x \<longleftrightarrow> u \<noteq> '''' \<and> pub_hash x = u \<and> msg_queue x = [] \<and> \<not> closing x \<and>
     pending_ops x = [Async_read]"

definition with_node :: "cluster \<Rightarrow> nat \<Rightarrow> worker \<Rightarrow> cluster" where
  "with_node X i w = X\<lparr>member := (member X)(i := (member X i)\<lparr>wk := w\<rparr>)\<rparr>"

lemma with_node_simps [simp]:
  "with_node (with_node X i w) i v = with_node X i v" "wk (member (with_node X i w) i) = w"
  "with_node X i (wk (member X i)) = X"
  by (simp_all add: with_node_def)

lemma node_read:
  "\<not> crashed (wk (member X i)) \<Longrightarrow> pending s Async_read (wk (member X i)) \<Longrightarrow>
     cl_step L cfg R X (Node_event i (E_read now ec m s)) (with_node X i (on_read L cfg now ec m s (wk (member X i))))"
  unfolding with_node_def by (rule c_node [OF s_read]) simp_all

lemma node_write:
  "\<not> crashed (wk (member X i)) \<Longrightarrow> pending s (Async_write m) (wk (member X i)) \<Longrightarrow>
     cl_step L cfg R X (Node_event i (E_write ec m s)) (with_node X i (on_written ec m s (wk (member X i))))"
  unfolding with_node_def by (rule c_node [OF s_write]) simp_all

text \<open>One message from one idle session to another: the message is read, its acknowledgement and
  the message are written, and the node is as it was before.\<close>

lemma exchange:
  assumes L: "json_laws L" and alive: "\<not> crashed (wk (member X i))"
    and s: "heap (wk (member X i)) s = Some x" "idle_session u x"
    and t: "heap (wk (member X i)) t = Some y" "idle_session v y" "s \<noteq> t"
    and to: "map_of (sessions (wk (member X i))) v = Some t" "v \<noteq> chat_admin_id_key"
    and msg: "make_message L v post_id body = Some m" "chat_text L cfg u v post_id body = Some out"
      "chat_ack_text L u v post_id = Some ack"
  shows "\<exists>Y Z. cl_step L cfg R X (Node_event i (E_read now False m s)) Y
    \<and> cl_step L cfg R Y (Node_event i (E_write False ack s)) Z
    \<and> cl_step L cfg R Z (Node_event i (E_write False out t)) X"
proof -
  let ?w = "wk (member X i)"
  let ?w1 = "upd_session s (complete_op Async_read) ?w" and ?x1 = "complete_op Async_read x"
  have out: "out \<noteq> ''''" "ack \<noteq> ''''" using L msg by (auto simp: chat_text_def chat_ack_text_def)
  have x1: "heap ?w1 s = Some ?x1" "is_logged_in ?x1" "pub_hash ?x1 = u"
    using s by (simp_all add: heap_upd_session idle_session_def is_logged_in_def)
  have app: "on_app L cfg now s m ?w1 = (Chat_msg_ok, send_msg s ack False (send_msg t out True ?w1))"
    by (rule client_chat_online [OF L msg(1) x1(1,2)])
      (use x1(3) to t msg in \<open>simp_all add: addressee_def heap_upd_session\<close>)
  let ?x2 = "x\<lparr>msg_queue := [\<lparr>e_msg = ack, e_persist = False\<rparr>], pending_ops := [Async_write ack, Async_read]\<rparr>"
  let ?y2 = "y\<lparr>msg_queue := [\<lparr>e_msg = out, e_persist = True\<rparr>], pending_ops := [Async_read, Async_write out]\<rparr>"
  let ?w2 = "?w\<lparr>heap := (heap ?w)(s \<mapsto> ?x2, t \<mapsto> ?y2)\<rparr>" and ?w3 = "?w\<lparr>heap := (heap ?w)(t \<mapsto> ?y2)\<rparr>"
  have r1: "on_read L cfg now False m s ?w = ?w2"
    unfolding on_read_def Let_def app prod.case if_False using s t out
    by (auto simp: Let_def send_msg_def upd_session_def handle_ev_def ws_defs idle_session_def
        fun_eq_iff)
  have r2: "on_written False ack s ?w2 = ?w3"
    using s t by (auto simp: on_written_def upd_session_def ws_defs idle_session_def fun_eq_iff Let_def)
  have r3: "on_written False out t ?w3 = ?w"
    using s t by (auto simp: on_written_def upd_session_def ws_defs idle_session_def fun_eq_iff Let_def)
  have "cl_step L cfg R X (Node_event i (E_read now False m s)) (with_node X i ?w2)"
    using node_read [OF alive, of s L cfg R now False m] s by (simp add: r1 pending_def idle_session_def)
  moreover have "cl_step L cfg R (with_node X i ?w2) (Node_event i (E_write False ack s)) (with_node X i ?w3)"
    using node_write [of "with_node X i ?w2" i s ack L cfg R False] alive t(3) by (simp add: r2 pending_def)
  moreover have "cl_step L cfg R (with_node X i ?w3) (Node_event i (E_write False out t)) X"
    using node_write [of "with_node X i ?w3" i t out L cfg R False] alive by (simp add: r3 pending_def)
  ultimately show ?thesis by blast
qed

fun is_success :: "line \<Rightarrow> bool" where
  "is_success (Success msg) = True"
| "is_success _ = False"

fun is_failure :: "line \<Rightarrow> bool" where
  "is_failure (Failure msg) = True"
| "is_failure Failure_what = True"
| "is_failure _ = False"

text \<open>What two clients that talk print in one round.\<close>

definition round_lines :: "user_cred \<Rightarrow> cred_pub_helper \<Rightarrow> line list" where
  "round_lines cred h =
     (let u = u_user_id cred; v = u_user_id (h_cred h); pid = a_id (h_pack h)
      in [log_message cred (ack_message v u pid)] @ replicate 2 (Success ''launch_replier'') @
         [log_message (h_cred h) ((chat_message v pid '''')\<lparr>m_from := u\<rparr>)] @ replicate 3 (Success ''publisher'') @
         [log_message (h_cred h) (ack_message u v pid)] @ replicate 3 (Success ''publisher'') @
         [log_message cred ((chat_message u pid '''')\<lparr>m_from := v\<rparr>)] @ replicate 2 (Success ''launch_replier''))"

lemma round_lines_good:
  "filter is_failure (concat (replicate n (round_lines cred h))) = []"
  "length (filter is_success (concat (replicate n (round_lines cred h)))) = 10 * n"
  by (induction n) (simp_all add: round_lines_def Let_def log_message_def numeral_2_eq_2 numeral_3_eq_3)

lemma message_record_eqs:
  "(chat_message to pid body)\<lparr>m_from := f, m_to := to\<rparr> = (chat_message to pid body)\<lparr>m_from := f\<rparr>"
  by (simp add: chat_message_def)

lemma one_round:
  assumes L: "json_laws L" and alive: "\<not> crashed (wk (member X i))"
    and s: "heap (wk (member X i)) s = Some x" "idle_session u x" "u \<noteq> chat_admin_id_key"
      "map_of (sessions (wk (member X i))) u = Some s"
    and t: "heap (wk (member X i)) t = Some y" "idle_session v y" "v \<noteq> chat_admin_id_key"
      "map_of (sessions (wk (member X i))) v = Some t" "s \<noteq> t"
    and who: "u_user_id cred = u" "u_user_id (h_cred h) = v" "a_id (h_pack h) = pid"
    and m1: "make_message L v pid '''' = Some m" "chat_text L cfg u v pid '''' \<noteq> None" "chat_ack_text L u v pid \<noteq> None"
    and m2: "make_message L u pid '''' \<noteq> None" "chat_text L cfg v u pid '''' \<noteq> None" "chat_ack_text L v u pid \<noteq> None"
  shows "world_run L cfg R i X
      [(Ws_link s, replier_rounds L cred m (Suc n) k), (Ws_link t, publisher_rounds L h (Suc n) k')]
      (round_lines cred h) X
      [(Ws_link s, replier_rounds L cred m n k), (Ws_link t, publisher_rounds L h n k')]"
proof -
  obtain out ack m' out' ack' where texts: "chat_text L cfg u v pid '''' = Some out"
    "chat_ack_text L u v pid = Some ack" "make_message L u pid '''' = Some m'"
    "chat_text L cfg v u pid '''' = Some out'" "chat_ack_text L v u pid = Some ack'"
    using m1 m2 by blast
  note ex = exchange [OF L alive s(1,2) t(1,2,5) t(4,3) m1(1) texts(1,2), of R 0]
  note ex' = exchange [OF L alive t(1,2) s(1,2) not_sym [OF t(5)] s(4,3) texts(3,4,5), of R 0]
  have rd: "read_message L ack = Some (ack_message v u pid)" "read_message L ack' = Some (ack_message u v pid)"
    "read_message L out = Some ((chat_message v pid '''')\<lparr>m_from := u\<rparr>)"
    "read_message L out' = Some ((chat_message u pid '''')\<lparr>m_from := v\<rparr>)"
    using read_chat_ack [OF L texts(2)] read_chat_ack [OF L texts(5)] read_chat_text [OF L texts(1)]
      read_chat_text [OF L texts(4)] s(3) t(3)
    by (simp_all add: addressee_def message_record_eqs)
  obtain Y Z where YZ: "cl_step L cfg R X (Node_event i (E_read 0 False m s)) Y"
    "cl_step L cfg R Y (Node_event i (E_write False ack s)) Z"
    "cl_step L cfg R Z (Node_event i (E_write False out t)) X" using ex by blast
  obtain Y' Z' where YZ': "cl_step L cfg R X (Node_event i (E_read 0 False m' t)) Y'"
    "cl_step L cfg R Y' (Node_event i (E_write False ack' t)) Z'"
    "cl_step L cfg R Z' (Node_event i (E_write False out' s)) X" using ex' by blast
  let ?cs = "[(Ws_link s, replier_rounds L cred m (Suc n) k), (Ws_link t, publisher_rounds L h (Suc n) k')]"
  note r0 = w_done [of L cfg R i X ?cs, unfolded replier_rounds.simps publisher_rounds.simps]
  note r1 = w_expect1 [OF w_expect0 [OF w_send0 [OF r0 YZ(1)] YZ(2) rd(1)] YZ(3) rd(3)]
  have reply: "make_message L (m_from ((chat_message v pid '''')\<lparr>m_from := u\<rparr>))
      (m_post_id ((chat_message v pid '''')\<lparr>m_from := u\<rparr>)) '''' = Some m'"
    using texts(3) by (simp add: chat_message_def)
  note r2 = w_send1 [OF r1 [unfolded ws_send_text_def get_or_throw_def reply option.case] YZ'(1)]
  note r3 = w_expect0 [OF w_expect1 [OF r2 YZ'(2) rd(2)] YZ'(3) rd(4)]
  have "replier_checks cred ''server_ack'' (ack_message v u pid) = replicate 2 (Success ''launch_replier'')"
    "replier_checks cred ''chat'' ((chat_message u pid '''')\<lparr>m_from := v\<rparr>) = replicate 2 (Success ''launch_replier'')"
    "publisher_checks h ''server_ack'' (ack_message u v pid) = replicate 3 (Success ''publisher'')"
    "publisher_checks h ''chat'' ((chat_message v pid '''')\<lparr>m_from := u\<rparr>) = replicate 3 (Success ''publisher'')"
    using who by (simp_all add: replier_checks_def publisher_checks_def assert_line_def ack_message_def
        chat_message_def new_message_def numeral_2_eq_2 numeral_3_eq_3)
  with r3 show ?thesis by (simp add: round_lines_def Let_def who ws_send_text_def get_or_throw_def)
qed

text \<open>C19: the conversation of the test program can succeed: for a replier and a publisher that are both
  logged in on one node, neither with messages waiting, and for any number of rounds there is a
  schedule of the node and the two coroutines in which both come to the end of their loops, each
  round a message of the replier, its acknowledgement, the reply of the publisher and its
  acknowledgement; all ten checks of every round print a success, and the node is then in the state
  it began with. Of other schedules it says nothing.\<close>

theorem conversation_succeeds:
  assumes L: "json_laws L" and alive: "\<not> crashed (wk (member X i))"
    and s: "heap (wk (member X i)) s = Some x" "idle_session u x" "u \<noteq> chat_admin_id_key"
      "map_of (sessions (wk (member X i))) u = Some s"
    and t: "heap (wk (member X i)) t = Some y" "idle_session v y" "v \<noteq> chat_admin_id_key"
      "map_of (sessions (wk (member X i))) v = Some t" "s \<noteq> t"
    and who: "u_user_id cred = u" "u_user_id (h_cred h) = v" "a_id (h_pack h) = pid"
    and m1: "make_message L v pid '''' = Some m" "chat_text L cfg u v pid '''' \<noteq> None" "chat_ack_text L u v pid \<noteq> None"
    and m2: "make_message L u pid '''' \<noteq> None" "chat_text L cfg v u pid '''' \<noteq> None" "chat_ack_text L v u pid \<noteq> None"
  shows "\<exists>ls. world_run L cfg R i X
      [(Ws_link s, replier_rounds L cred m n k), (Ws_link t, publisher_rounds L h n k')] ls X
      [(Ws_link s, k), (Ws_link t, k')]
    \<and> filter is_failure ls = [] \<and> length (filter is_success ls) = 10 * n"
proof -
  note round = one_round [OF L alive s t who m1 m2, of R _ k k']
  have "world_run L cfg R i X
      [(Ws_link s, replier_rounds L cred m n k), (Ws_link t, publisher_rounds L h n k')]
      (concat (replicate n (round_lines cred h))) X [(Ws_link s, k), (Ws_link t, k')]"
  proof (induction n)
    case 0
    show ?case using w_done by simp
  next
    case (Suc n)
    from world_run_trans [OF round [of n] Suc.IH] show ?case by simp
  qed
  then show ?thesis using round_lines_good by blast
qed

theorem conversation_succeeds_witness:
  "\<exists>X cred h m ls. world_run ref_lib sample_core ref_redis 0 X
      [(Ws_link 0, replier_rounds ref_lib cred m 3 (Return ())), (Ws_link 3, publisher_rounds ref_lib h 3 (Return ()))]
      ls X [(Ws_link 0, Return ()), (Ws_link 3, Return ())]
    \<and> length (filter is_success ls) = 30"
proof -
  let ?w = "sample_two\<lparr>heap := [0 \<mapsto> sample_session ''ann'', 3 \<mapsto> sample_session ''bob''],
     sessions := [(sample_id ''bob'', 3), (sample_id ''ann'', 0)]\<rparr>"
  let ?X = "with_node init_cluster 0 ?w"
  let ?cred = "\<lparr> u_user = ''ann'', u_key = '''', u_user_id = sample_id ''ann'' \<rparr>"
  let ?h = "\<lparr> h_cred = \<lparr> u_user = ''bob'', u_key = '''', u_user_id = sample_id ''bob'' \<rparr>,
     h_pack = \<lparr> a_admin_id = '''', a_id = ''p'', a_date = 0 \<rparr> \<rparr>"
  have ids: "sample_id ''ann'' \<noteq> chat_admin_id_key" "sample_id ''bob'' \<noteq> chat_admin_id_key"
    by code_simp+
  have st: "\<not> crashed ?w" "heap ?w 0 = Some (sample_session ''ann'')" "heap ?w 3 = Some (sample_session ''bob'')"
    "idle_session (sample_id ''ann'') (sample_session ''ann'')"
    "idle_session (sample_id ''bob'') (sample_session ''bob'')"
    "map_of (sessions ?w) (sample_id ''ann'') = Some 0" "map_of (sessions ?w) (sample_id ''bob'') = Some 3"
    using sample_ids by (auto simp: sample_two_def init_worker_def idle_session_def sample_session_def new_session_def)
  obtain m where m: "make_message ref_lib (sample_id ''bob'') ''p'' '''' = Some m"
    by (simp add: make_message_def)
  obtain ls where "world_run ref_lib sample_core ref_redis 0 ?X
      [(Ws_link 0, replier_rounds ref_lib ?cred m 3 (Return ())), (Ws_link 3, publisher_rounds ref_lib ?h 3 (Return ()))]
      ls ?X [(Ws_link 0, Return ()), (Ws_link 3, Return ())]" "length (filter is_success ls) = 10 * 3"
    using conversation_succeeds [OF ref_json_laws, of ?X 0 0 "sample_session ''ann''" "sample_id ''ann''" 3
        "sample_session ''bob''" "sample_id ''bob''" ?cred ?h "''p''" m sample_core ref_redis 3 "Return ()" "Return ()"]
      st ids m by (auto simp: make_message_def chat_text_def chat_ack_text_def)
  then show ?thesis by (intro exI conjI) auto
qed

end
