(* ===== verification/Offline_Run.thy ===== *)
theory Offline_Run
  imports Client_Run
begin

text \<open>
  The scenario \<open>offline\<close> of the test program, from the first request to the message that arrives:
  one client on one node of a cluster, step by step.
\<close>

section \<open>One client\<close>

text \<open>The context of a coroutine that is awaited by others.\<close>

definition ctx :: "('a co \<Rightarrow> 'b co) \<Rightarrow> bool" where
  "ctx C \<longleftrightarrow> (\<forall>a k. C (Await a k) = Await a (\<lambda>r. C (k r)))"

lemma ctxI [intro]:
  "ctx (\<lambda>c. c)" "ctx C \<Longrightarrow> ctx (\<lambda>c. co_catch (C c) h)" "ctx D \<Longrightarrow> ctx (\<lambda>c. co_bind (D c) f)"
  by (simp_all add: ctx_def)

abbreviation run1 ::
  "'j extern \<Rightarrow> core \<Rightarrow> redis \<Rightarrow> nat \<Rightarrow> cluster \<times> clients \<Rightarrow> line list \<Rightarrow> cluster \<Rightarrow> link \<Rightarrow> unit co \<Rightarrow> bool" where
  "run1 L cfg R i st ls X l c \<equiv> world_run L cfg R i (fst st) (snd st) ls X [(l, c)]"

lemma run1_op:
  assumes "run1 L cfg R i st ls X l (C (perform a k))" "ctx C" "op_step L cfg R i X l a r Y l'" "r \<noteq> Failed"
  shows "run1 L cfg R i st ls Y l' (C k)"
  using w_op [OF assms(1), of 0 l a _ r Y l'] assms(2-4) by (simp add: perform_def ctx_def)

lemma Done_ok: "Done \<noteq> Failed"
  by simp

lemma run1_text:
  assumes "run1 L cfg R i st ls X (Ws_link s) (C (receive_text k))" "ctx C"
    "cl_step L cfg R X (Node_event i (E_write False m s)) Y"
  shows "run1 L cfg R i st ls Y (Ws_link s) (C (k m))"
  using w_op [OF assms(1), of 0 _ _ _ "Text_read m" Y "Ws_link s"] assms(2) o_read [OF assms(3)]
  by (simp add: receive_text_def ctx_def)

lemma run1_print:
  assumes "run1 L cfg R i st ls X l (C (print ln k))" "ctx C"
  shows "run1 L cfg R i st (ls @ [ln]) X l (C k)"
  using w_print [OF assms(1), of 0 l ln] assms(2) by (simp add: print_def ctx_def)

lemma run1_net: "run1 L cfg R i st ls X l c \<Longrightarrow> cl_step L cfg R X e Y \<Longrightarrow> run1 L cfg R i st ls Y l c"
  by (rule w_net)

text \<open>Redis executes what the node has sent.\<close>

lemma run1_settle:
  assumes "run1 L cfg R i st ls X l c" "redis_out (wk (member X i)) = out @ cs @ rest"
    "length out = length (cmds_of i (rlog X))" "list_all (\<lambda>c. \<not> list_cmd c) cs"
  shows "run1 L cfg R i st ls (X\<lparr>rlog := rlog X @ map (Exec i) cs\<rparr>) l c"
  using assms
proof (induction cs arbitrary: X out)
  case Nil
  then show ?case by simp
next
  case (Cons c' cs)
  let ?Y = "X\<lparr>rlog := rlog X @ [Exec i c']\<rparr>"
  have "redis_executes R i c' X = ?Y"
    using Cons.prems(4) by (cases c') (simp_all add: redis_executes_def)
  moreover have "cl_step L cfg R X (Redis_executes i) (redis_executes R i c' X)"
    by (rule c_redis) (use Cons.prems(2,3) in \<open>simp_all flip: Cons.prems(3)\<close>)
  ultimately have "cl_step L cfg R X (Redis_executes i) ?Y" by simp
  have "run1 L cfg R i st ls (?Y\<lparr>rlog := rlog ?Y @ map (Exec i) cs\<rparr>) l c"
  proof (rule Cons.IH)
    show "run1 L cfg R i st ls ?Y l c"
      by (rule run1_net [OF Cons.prems(1) \<open>cl_step L cfg R X (Redis_executes i) ?Y\<close>])
    show "redis_out (wk (member ?Y i)) = (out @ [c']) @ cs @ rest" using Cons.prems(2) by simp
    show "length (out @ [c']) = length (cmds_of i (rlog ?Y))" using Cons.prems(3) by simp
    show "list_all (\<lambda>c. \<not> list_cmd c) cs" using Cons.prems(4) by simp
  qed
  then show ?case by simp
qed

text \<open>Redis executes a read and the deletion after it.\<close>

lemma run1_fetch:
  assumes "run1 L cfg R i st ls X l c"
    "redis_out (wk (member X i)) = out @ [R_lrange key 0 (-1), R_del key]"
    "length out = length (cmds_of i (rlog X))"
  shows "run1 L cfg R i st ls (X\<lparr>rlog := rlog X @ [Exec i (R_lrange key 0 (-1)), Exec i (R_del key)],
     answers := (answers X)(i := answers X i @ [R (rlog X) key])\<rparr>) l c"
proof -
  let ?Y = "redis_executes R i (R_lrange key 0 (-1)) X"
  have "cl_step L cfg R X (Redis_executes i) ?Y"
    by (rule c_redis) (use assms(2,3) in \<open>simp_all flip: assms(3)\<close>)
  note r1 = run1_net [OF assms(1) this]
  have len: "length (cmds_of i (rlog ?Y)) = Suc (length out)" using assms(3) by simp
  have "cl_step L cfg R ?Y (Redis_executes i) (redis_executes R i (R_del key) ?Y)"
    by (rule c_redis) (use assms(2) in \<open>simp_all add: len nth_append del: redis_executes_sel(2)\<close>)
  from run1_net [OF r1 this] show ?thesis by (simp add: redis_executes_def)
qed

section \<open>A node at rest\<close>

text \<open>A node that owes nothing to redis and redis nothing to it, with what the scenario needs to know
  of it: the generator, the table, and the lists under the keys \<open>K\<close>.\<close>

definition at_rest ::
  "redis \<Rightarrow> nat \<Rightarrow> string set \<Rightarrow> cluster \<Rightarrow> nat \<Rightarrow> (string \<rightharpoonup> sid) \<Rightarrow> (string \<Rightarrow> string list) \<Rightarrow> bool" where
  "at_rest R i K X g T M \<longleftrightarrow> \<not> crashed (wk (member X i)) \<and> chat_queue (wk (member X i)) = [] \<and>
     answers X i = [] \<and> length (cmds_of i (rlog X)) = length (redis_out (wk (member X i))) \<and>
     gen (wk (member X i)) = g \<and> map_of (sessions (wk (member X i))) = T \<and>
     (\<forall>k \<in> K. list_all (\<lambda>op. \<not> foreign k op) (rlog X) \<and> R (rlog X) k = M k)"

lemma rest_lists:
  assumes "redis_laws R" "at_rest R i K X g T M" "k \<in> K" "list_all (\<lambda>op. \<not> foreign k op) new"
  shows "R (rlog X @ new) k = fold (effect k) new (M k)"
  using redis_after [OF assms(1), of k "rlog X" new] assms(2-4) by (simp add: at_rest_def)

text \<open>Commands that leave the lists alone.\<close>

definition aside :: "string set \<Rightarrow> nat \<Rightarrow> redis_cmd list \<Rightarrow> bool" where
  "aside K i cs \<longleftrightarrow> list_all (\<lambda>c. \<not> list_cmd c) cs \<and>
     (\<forall>k \<in> K. list_all (\<lambda>op. \<not> foreign k op) (map (Exec i) cs) \<and> (\<forall>xs. fold (effect k) (map (Exec i) cs) xs = xs))"

text \<open>A handler that changes the generator, the sessions objects and the counters, and sends such
  commands.\<close>

lemma rest_moves:
  assumes "redis_laws R" "at_rest R i K X g T M"
    "\<And>k. k \<in> K \<Longrightarrow> list_all (\<lambda>op. \<not> foreign k op) (map (Exec i) cs) \<and> fold (effect k) (map (Exec i) cs) (M k) = M' k"
    "redis_out (wk S) = redis_out (wk (member X i)) @ cs" "chat_queue (wk S) = []" "\<not> crashed (wk S)"
    "gen (wk S) = g'" "map_of (sessions (wk S)) = T'"
  shows "at_rest R i K (X\<lparr>member := (member X)(i := S), rlog := rlog X @ map (Exec i) cs\<rparr>) g' T' M'"
proof -
  have "cmds_of i (map (Exec i) cs) = cs" by (induction cs) simp_all
  then show ?thesis
    using assms(2-8) rest_lists [OF assms(1,2)] by (simp add: at_rest_def)
qed

lemma rest_after:
  assumes "redis_laws R" "at_rest R i K X g T M" "aside K i cs"
    "redis_out (wk S) = redis_out (wk (member X i)) @ cs" "chat_queue (wk S) = []" "\<not> crashed (wk S)"
    "gen (wk S) = g'" "map_of (sessions (wk S)) = T'"
  shows "at_rest R i K (X\<lparr>member := (member X)(i := S), rlog := rlog X @ map (Exec i) cs\<rparr>) g' T' M"
  using assms(3) by (intro rest_moves [OF assms(1,2) _ assms(4-8)]) (auto simp: aside_def)

lemma run1_response:
  assumes "run1 L cfg R i st ls X (Tcp_link (Some resp)) (C (receive_response k))" "ctx C"
  shows "run1 L cfg R i st ls X (Tcp_link None) (C (k (rs_status resp, rs_body resp)))"
  using w_op [OF assms(1) _ _ o_response, of 0] assms(2)
  by (simp add: receive_response_def ctx_def)

lemma phase_request:
  assumes R: "redis_laws R" and run: "run1 L cfg R i st ls X l (C (make_request ends target host body))" "ctx C"
    and rest: "at_rest R i K X g T M"
    and http: "http_on_read L cfg now ret0 Read_ok (request.truncate (make_req host target body)) (wk (member X i)) =
        (Respond resp, w)"
    and w: "redis_out w = redis_out (wk (member X i)) @ cs" "chat_queue w = []" "\<not> crashed w"
      "sessions w = sessions (wk (member X i))" and cs: "aside K i cs"
  shows "\<exists>X'. run1 L cfg R i st ls X' No_link (C (Return (rs_status resp, rs_body resp)))
    \<and> at_rest R i K X' (gen w) T M"
proof -
  let ?S = "(member X i)\<lparr>wk := w\<rparr>" and ?req = "request.truncate (make_req host target body)"
  let ?Y = "X\<lparr>member := (member X)(i := ?S)\<rparr>"
  let ?Z = "?Y\<lparr>rlog := rlog ?Y @ map (Exec i) cs\<rparr>"
  have alive: "\<not> crashed (wk (member X i))" using rest by (simp add: at_rest_def)
  have "sys_step L cfg (member X i) (E_http now ret0 Read_ok ?req) ?S"
    using s_http [OF alive, of L cfg now ret0 Read_ok ?req] http by (simp add: http_request_def)
  then have step: "cl_step L cfg R X (Node_event i (E_http now ret0 Read_ok ?req)) ?Y"
    by (rule c_node) simp
  note r1 = run1_op [OF run(1) [unfolded make_request_def] run(2) o_connect Done_ok]
  note r2 = run1_op [OF r1 run(2) o_request [OF http step] Done_ok]
  note r3 = run1_op [OF run1_response [OF r2 run(2)] run(2) o_shutdown Done_ok]
  have "run1 L cfg R i st ls ?Z No_link (C (Return (rs_status resp, rs_body resp)))"
    by (rule run1_settle [OF r3, where out = "redis_out (wk (member X i))" and rest = "[]"])
      (use w rest cs in \<open>simp_all add: at_rest_def aside_def\<close>)
  moreover have "at_rest R i K ?Z (gen w) T M"
    using rest_after [OF R rest cs, of ?S "gen w" T] w rest by (simp add: at_rest_def)
  ultimately show ?thesis by blast
qed

section \<open>A connection\<close>

definition chat_session :: "string \<Rightarrow> string list \<Rightarrow> ws_session" where
  "chat_session u ms = new_session\<lparr>pub_hash := u, msg_queue := map (\<lambda>m. \<lparr>e_msg = m, e_persist = True\<rparr>) ms,
     pending_ops := Async_read # (case ms of [] \<Rightarrow> [] | m # _ \<Rightarrow> [Async_write m])\<rparr>"

lemma aside_Nil [simp]: "aside K i []"
  by (simp add: aside_def)

lemma phase_connect:
  assumes R: "redis_laws R" and run: "run1 L cfg R i st ls X l (C (ws_connect ends host port k))" "ctx C"
    and rest: "at_rest R i K X g T M"
  shows "\<exists>X' sid. run1 L cfg R i st ls X' (Ws_link sid) (C k) \<and> at_rest R i K X' g T M
    \<and> heap (wk (member X' i)) sid = Some (chat_session '''' [])"
proof -
  let ?S = "member X i" and ?sid = "next_sid (member X i)"
  let ?req = "upgrade_request (host @ '':'' @ port) ''/''"
  let ?w1 = "(wk ?S)\<lparr>heap := (heap (wk ?S))(?sid \<mapsto> ws_run new_session)\<rparr>"
  let ?S1 = "?S\<lparr>wk := ?w1, next_sid := ?sid + 1\<rparr>"
  let ?S2 = "?S1\<lparr>wk := on_run False ?sid ?w1\<rparr>"
  let ?Y = "X\<lparr>member := (member X)(i := ?S1)\<rparr>" and ?Z = "X\<lparr>member := (member X)(i := ?S2)\<rparr>"
  have alive: "\<not> crashed (wk ?S)" using rest by (simp add: at_rest_def)
  have "sys_step L cfg ?S (E_http 0 0 Read_ok ?req) ?S1"
    using s_http [OF alive, of L cfg 0 0 Read_ok ?req]
    by (simp add: http_request_def http_on_read_def upgrade_request_def make_session_def Let_def)
  then have s1: "cl_step L cfg R X (Node_event i (E_http 0 0 Read_ok ?req)) ?Y" by (rule c_node) simp
  have "sys_step L cfg ?S1 (E_run False ?sid) ?S2"
    using s_run [of ?S1 ?sid L cfg False] alive by (simp add: pending_def ws_run_def start_op_def new_session_def)
  then have s2: "cl_step L cfg R ?Y (Node_event i (E_run False ?sid)) ?Z"
    using c_node [of L cfg ?Y i "E_run False ?sid" ?S2 R] by simp
  note r1 = run1_op [OF run(1) [unfolded ws_connect_def] run(2) o_connect Done_ok]
  note r2 = run1_op [OF r1 run(2) o_handshake [OF refl s1 s2] Done_ok]
  have "heap (wk ?S2) ?sid = Some (chat_session '''' [])"
    by (simp add: on_run_def Let_def heap_upd_session chat_session_def ws_defs)
  moreover have "at_rest R i K ?Z g T M"
    using rest_after [OF R rest aside_Nil, of ?S2 g T] rest by (simp add: at_rest_def on_run_def Let_def)
  ultimately show ?thesis using r2 by (intro exI [of _ ?Z] exI [of _ ?sid]) simp
qed

lemma phase_text:
  assumes run: "run1 L cfg R i st ls X (Ws_link s) (C (receive_text k))" "ctx C"
    and R: "redis_laws R" and rest: "at_rest R i K X g T M"
    and s: "heap (wk (member X i)) s = Some (chat_session u (m # ms))"
  shows "\<exists>X'. run1 L cfg R i st ls X' (Ws_link s) (C (k m)) \<and> at_rest R i K X' g T M
    \<and> heap (wk (member X' i)) s = Some (chat_session u ms)"
proof -
  let ?w = "on_written False m s (wk (member X i))" and ?X = "with_node X i (on_written False m s (wk (member X i)))"
  have alive: "\<not> crashed (wk (member X i))" using rest by (simp add: at_rest_def)
  have "cl_step L cfg R X (Node_event i (E_write False m s)) ?X"
    by (rule node_write [OF alive]) (simp add: pending_def s chat_session_def)
  note r = run1_text [OF run this]
  have "heap ?w s = Some (chat_session u ms)"
    by (simp add: on_written_def heap_upd_session s chat_session_def ws_defs Let_def split: list.split)
  moreover have "at_rest R i K ?X g T M"
    using rest_after [OF R rest aside_Nil, of "(member X i)\<lparr>wk := ?w\<rparr>" g T] rest
    by (simp add: at_rest_def on_written_def with_node_def)
  ultimately show ?thesis using r by (intro exI [of _ ?X]) simp
qed

section \<open>Logging in\<close>

lemma fold_send_waiting:
  "msg_queue x \<noteq> [] \<Longrightarrow> fold (\<lambda>m. ws_send m True) ms x =
     x\<lparr>msg_queue := msg_queue x @ map (\<lambda>m. \<lparr>e_msg = m, e_persist = True\<rparr>) ms\<rparr>"
proof (induction ms arbitrary: x)
  case (Cons m ms)
  have "ws_send m True x = x\<lparr>msg_queue := msg_queue x @ [\<lparr>e_msg = m, e_persist = True\<rparr>]\<rparr>"
    using Cons.prems by (simp add: ws_send_def Let_def)
  with Cons.IH show ?case by simp
qed simp

lemma fold_send_msg:
  assumes "heap w s = Some x" "'''' \<notin> set ms"
  shows "fold (\<lambda>m. send_msg s m True) ms w = w\<lparr>heap := (heap w)(s \<mapsto> fold (\<lambda>m. ws_send m True) ms x)\<rparr>"
  using assms
proof (induction ms arbitrary: w x)
  case Nil
  then show ?case by (simp add: fun_upd_idem)
next
  case (Cons m ms)
  have "send_msg s m True w = w\<lparr>heap := (heap w)(s \<mapsto> ws_send m True x)\<rparr>"
    using Cons.prems by (auto simp: send_msg_def upd_session_def)
  with Cons.IH [of "w\<lparr>heap := (heap w)(s \<mapsto> ws_send m True x)\<rparr>"] Cons.prems show ?case
    by (simp cong: if_cong)
qed

lemma with_node_member [simp]:
  "member (with_node X i w) i = (member X i)\<lparr>wk := w\<rparr>" "rlog (with_node X i w) = rlog X"
  "answers (with_node X i w) = answers X"
  by (simp_all add: with_node_def)

text \<open>The session of a user who has logged in, before its acknowledgement is written.\<close>

definition greeting :: "string \<Rightarrow> string \<Rightarrow> string list \<Rightarrow> ws_session" where
  "greeting u ack ms = (chat_session u [])\<lparr>
     msg_queue := \<lparr>e_msg = ack, e_persist = False\<rparr> # map (\<lambda>m. \<lparr>e_msg = m, e_persist = True\<rparr>) ms,
     pending_ops := [Async_write ack, Async_read]\<rparr>"

lemma greeting_answer:
  assumes "'''' \<notin> set ms" "heap w s = Some (greeting u ack [])" "map_of (sessions w) u = Some s"
    "chat_queue w = [u]"
  shows "on_lrange cfg ms w = w\<lparr>chat_queue := [], heap := (heap w)(s \<mapsto> greeting u ack ms)\<rparr>"
proof -
  have "fold (\<lambda>m. ws_send m True) ms (greeting u ack []) = greeting u ack ms"
    by (subst fold_send_waiting) (simp_all add: greeting_def)
  with fold_send_msg [OF assms(2,1)] assms(3,4) show ?thesis
    using assms(2) by (simp add: on_lrange_def Let_def on_db_chat_msg_def)
qed

lemma greeting_written:
  "on_write False (complete_op (Async_write ack) (greeting u ack ms)) = chat_session u ms"
  by (cases ms) (simp_all add: greeting_def chat_session_def ws_defs Let_def)

text \<open>The login of a fresh connection for a user who is not on the node.\<close>

definition login_cmds :: "core \<Rightarrow> string \<Rightarrow> redis_cmd list" where
  "login_cmds cfg u = [ R_subscribe (r_user_notify_prefix (c_redis cfg) @ u),
     R_subscribe (r_presence_channel_prefix (c_redis cfg) @ u) ]"

lemma fresh_login:
  assumes L: "json_laws L" and c: "make_login L c = Some m" "u_user_id c = make_hex_digest L (u_user c) (u_key c)"
      "u_user_id c \<noteq> ''''"
    and ack: "jdump L (login_ack L ''ok'') = Some ack"
    and w: "heap w s = Some (chat_session '''' [])" "map_of (sessions w) (u_user_id c) = None"
      "chat_queue w = []"
  shows "on_read L cfg now False m s w = w\<lparr>
     heap := (heap w)(s \<mapsto> greeting (u_user_id c) ack []),
     sessions := (u_user_id c, s) # sessions w, chat_queue := [u_user_id c],
     redis_out := redis_out w @ login_cmds cfg (u_user_id c) @
       [ R_lrange (r_chat_msg_prefix (c_redis cfg) @ u_user_id c) 0 (-1),
         R_del (r_chat_msg_prefix (c_redis cfg) @ u_user_id c) ]\<rparr>"
proof -
  let ?w = "upd_session s (complete_op Async_read) w"
  have m: "jparse L m = Some (login_request L c)"
    using parse_dump [OF L] c(1) by (simp add: make_login_def)
  have nl: "\<not> logged_in ?w s"
    using w(1) by (simp add: logged_in_def heap_upd_session is_logged_in_def chat_session_def new_session_def)
  note app = on_app_login_plain [OF L m login_request_members(1-3) [OF L] c(2) [symmetric] c(3)
      login_request_members(4) [OF L] ack nl, of cfg now]
  have "ack \<noteq> ''''" using L ack by auto
  then show ?thesis
    unfolding on_read_def Let_def app prod.case if_False using w
    by (auto simp: upd_session_def subscribe_user_def register_session_def send_msg_def redis_send_def
        handle_ev_def ws_defs chat_session_def greeting_def login_cmds_def Let_def fun_eq_iff)
qed

lemma phase_login:
  assumes L: "json_laws L" "redis_laws R" and start: "cl_run L cfg R fs (fst st)"
    and run: "run1 L cfg R i st ls X (Ws_link s) (C (ws_send_text (make_login L c) (receive_text k)))" "ctx C"
    and rest: "at_rest R i K X g T M"
    and s: "heap (wk (member X i)) s = Some (chat_session '''' [])"
    and c: "make_login L c = Some m" "u_user_id c = make_hex_digest L (u_user c) (u_key c)" "u_user_id c = u"
      "u \<noteq> ''''" "T u = None"
    and key: "key = r_chat_msg_prefix (c_redis cfg) @ u" "key \<in> K" "M key = ms" "'''' \<notin> set ms"
    and ack: "jdump L (login_ack L ''ok'') = Some ack"
  shows "\<exists>X'. run1 L cfg R i st ls X' (Ws_link s) (C (k ack)) \<and> at_rest R i K X' g (T(u \<mapsto> s)) (M(key := []))
    \<and> heap (wk (member X' i)) s = Some (chat_session u ms)"
proof -
  let ?w = "wk (member X i)"
  let ?w1 = "on_read L cfg 0 False m s ?w"
  let ?y = "greeting u ack []"
  note D = rest [unfolded at_rest_def]
  have w1: "?w1 = ?w\<lparr>heap := (heap ?w)(s \<mapsto> ?y), sessions := (u, s) # sessions ?w, chat_queue := [u],
      redis_out := redis_out ?w @ login_cmds cfg u @ [R_lrange key 0 (-1), R_del key]\<rparr>"
    using fresh_login [OF L(1) c(1,2) _ ack s, of cfg 0] c D key(1) by auto
  let ?X1 = "with_node X i ?w1"
  have step1: "cl_step L cfg R X (Node_event i (E_read 0 False m s)) ?X1"
    by (rule node_read) (use D s in \<open>simp_all add: pending_def chat_session_def\<close>)
  note r1 = run1_op [OF run(1) [unfolded ws_send_text_def get_or_throw_def c(1) option.case] run(2) o_write [OF step1] Done_ok]
  let ?X2 = "?X1\<lparr>rlog := rlog ?X1 @ map (Exec i) (login_cmds cfg u)\<rparr>"
  have r2: "run1 L cfg R i st ls ?X2 (Ws_link s) (C (receive_text k))"
    by (rule run1_settle [OF r1, where out = "redis_out ?w" and rest = "[R_lrange key 0 (-1), R_del key]"])
      (use D in \<open>simp_all add: w1 login_cmds_def with_node_def\<close>)
  have ms: "R (rlog ?X2) key = ms"
    using rest_lists [OF L(2) rest key(2), of "map (Exec i) (login_cmds cfg u)"] key(3)
    by (simp add: login_cmds_def with_node_def)
  let ?X3 = "?X2\<lparr>rlog := rlog ?X2 @ [Exec i (R_lrange key 0 (-1)), Exec i (R_del key)],
     answers := (answers ?X2)(i := answers ?X2 i @ [R (rlog ?X2) key])\<rparr>"
  have r3: "run1 L cfg R i st ls ?X3 (Ws_link s) (C (receive_text k))"
    by (rule run1_fetch [OF r2, where out = "redis_out ?w @ login_cmds cfg u"])
      (use D in \<open>simp_all add: w1 login_cmds_def with_node_def\<close>)
  obtain es where es: "cl_run L cfg R (fs @ es) ?X3" using world_run_cluster [OF r3 start] by blast
  have S3: "member ?X3 i = (member X i)\<lparr>wk := ?w1\<rparr>" by simp
  have inv: "sinv cfg (member ?X3 i)" by (rule sinv_sys_run [OF L(1) member_run [OF es]])
  have lr: "replies (member ?X3 i) < length (lrange_keys (redis_out (wk (member ?X3 i))))"
    using sinvD(3) [OF inv] by (auto simp: queue_inv_def w1 dest!: list_all2_lengthD)
  let ?S4 = "(member X i)\<lparr>wk := ?w1\<lparr>chat_queue := [], heap := (heap ?w)(s \<mapsto> greeting u ack ms)\<rparr>,
     replies := replies (member X i) + 1\<rparr>"
  have "on_lrange cfg ms ?w1 = ?w1\<lparr>chat_queue := [], heap := (heap ?w1)(s \<mapsto> greeting u ack ms)\<rparr>"
    by (rule greeting_answer [OF key(4)]) (simp_all add: w1)
  also have "\<dots> = wk ?S4" by (simp add: w1)
  finally have w4: "on_lrange cfg ms ?w1 = wk ?S4" .
  have s4: "sys_step L cfg (member ?X3 i) (E_lrange ms) ?S4"
    using s_lrange [of "member ?X3 i" L cfg ms] member_lost [OF es, of i] lr D w4 by (simp add: w1)
  have an: "answers ?X3 i = [ms]" using D ms by simp
  let ?X4 = "?X3\<lparr>member := (member ?X3)(i := ?S4), answers := (answers ?X3)(i := [])\<rparr>"
  note r4 = run1_net [OF r3 c_answer [OF an s4]]
  have step5: "cl_step L cfg R ?X4 (Node_event i (E_write False ack s))
      (with_node ?X4 i (on_written False ack s (wk (member ?X4 i))))"
    by (rule node_write) (use D in \<open>simp_all add: w1 pending_def greeting_def\<close>)
  let ?X5 = "with_node ?X4 i (on_written False ack s (wk (member ?X4 i)))"
  note r5 = run1_text [OF r4 run(2) step5]
  have "heap (wk (member ?X5 i)) s = Some (chat_session u ms)"
    by (simp add: on_written_def heap_upd_session w1 greeting_written)
  moreover have "at_rest R i K ?X5 g (T(u \<mapsto> s)) (M(key := []))"
  proof -
    let ?new = "map (Exec i) (login_cmds cfg u @ [R_lrange key 0 (-1), R_del key])"
    have "R (rlog X @ ?new) k' = (M(key := [])) k'" if "k' \<in> K" for k'
      using rest_lists [OF L(2) rest that, of ?new] by (simp add: login_cmds_def)
    with D show ?thesis by (auto simp: at_rest_def on_written_def w1 login_cmds_def)
  qed
  ultimately show ?thesis using r5 by (intro exI [of _ ?X5]) simp
qed

section \<open>Writing to an absent user, and leaving\<close>

lemma phase_chat:
  assumes L: "json_laws L" "redis_laws R"
    and run: "run1 L cfg R i st ls X (Ws_link s)
        (C (ws_send_text (make_message L to pid body) (receive_text k)))" "ctx C"
    and rest: "at_rest R i K X g T M"
    and s: "heap (wk (member X i)) s = Some (chat_session u [])" "u \<noteq> ''''"
    and to: "T to = None" "to \<noteq> chat_admin_id_key"
    and key: "key = r_chat_msg_prefix (c_redis cfg) @ to" "r_chat_msgs_counter_key (c_redis cfg) \<notin> K"
      "0 < sint (r_chat_msg_exp_time (c_redis cfg))"
    and texts: "make_message L to pid body = Some m" "chat_text L cfg u to pid body = Some out"
      "chat_ack_text L u to pid = Some ack"
  shows "\<exists>X'. run1 L cfg R i st ls X' (Ws_link s) (C (k ack))
    \<and> at_rest R i K X' g T (M(key := M key @ [out]))
    \<and> heap (wk (member X' i)) s = Some (chat_session u [])"
proof -
  let ?w = "wk (member X i)" and ?v = "upd_session s (complete_op Async_read) (wk (member X i))"
  let ?cs = "[ R_incr (r_chat_msgs_counter_key (c_redis cfg)), R_rpush key [out],
      R_expire key (r_chat_msg_exp_time (c_redis cfg)), R_publish (r_notify_channel (c_redis cfg)) out ]"
  note D = rest [unfolded at_rest_def]
  have ack: "ack \<noteq> ''''" using L(1) texts(3) by (auto simp: chat_ack_text_def)
  have a: "addressee cfg to = to" using to(2) by (simp add: addressee_def)
  have app: "on_app L cfg 0 s m ?v = (Chat_msg_ok, send_msg s ack False (store_chat_msg cfg [out] to ?v))"
    using client_chat_offline [OF L(1) texts(1), of ?v s "complete_op Async_read (chat_session u [])" cfg out ack 0]
      s to D texts by (simp add: a heap_upd_session is_logged_in_def chat_session_def)
  let ?w1 = "?w\<lparr>heap := (heap ?w)(s \<mapsto> greeting u ack []), redis_out := redis_out ?w @ ?cs\<rparr>"
  have w1: "on_read L cfg 0 False m s ?w = ?w1"
    unfolding on_read_def Let_def app prod.case if_False using s ack
    by (auto simp: Let_def send_msg_def upd_session_def handle_ev_def store_chat_msg_def redis_send_def key(1)
        ws_defs chat_session_def greeting_def fun_eq_iff)
  let ?X1 = "with_node X i ?w1"
  have step1: "cl_step L cfg R X (Node_event i (E_read 0 False m s)) ?X1"
    using node_read [of X i s L cfg R 0 False m] D s by (simp add: w1 pending_def chat_session_def)
  note r1 = run1_op [OF run(1) [unfolded ws_send_text_def get_or_throw_def texts(1) option.case] run(2) o_write [OF step1] Done_ok]
  let ?X2 = "?X1\<lparr>rlog := rlog ?X1 @ map (Exec i) ?cs\<rparr>"
  have r2: "run1 L cfg R i st ls ?X2 (Ws_link s) (C (receive_text k))"
    by (rule run1_settle [OF r1, where out = "redis_out ?w" and rest = "[]"]) (use D in simp_all)
  let ?w3 = "on_written False ack s ?w1" and ?X3 = "with_node ?X2 i (on_written False ack s ?w1)"
  have step3: "cl_step L cfg R ?X2 (Node_event i (E_write False ack s)) ?X3"
    using node_write [of ?X2 i s ack L cfg R False] D by (simp add: pending_def greeting_def)
  have "heap (wk (member ?X3 i)) s = Some (chat_session u [])"
    by (simp add: on_written_def heap_upd_session greeting_written)
  moreover have "at_rest R i K (X\<lparr>member := (member X)(i := (member X i)\<lparr>wk := ?w3\<rparr>),
      rlog := rlog X @ map (Exec i) ?cs\<rparr>) g T (M(key := M key @ [out]))"
    by (rule rest_moves [OF L(2) rest]) (use D key in \<open>auto simp: on_written_def\<close>)
  moreover have "?X3 = X\<lparr>member := (member X)(i := (member X i)\<lparr>wk := ?w3\<rparr>), rlog := rlog X @ map (Exec i) ?cs\<rparr>"
    by (simp add: with_node_def)
  ultimately show ?thesis using run1_text [OF r2 run(2) step3] by (metis (no_types, lifting))
qed

lemma phase_close:
  assumes R: "redis_laws R" and run: "run1 L cfg R i st ls X (Ws_link s) (C (perform Ws_close k))" "ctx C"
    and rest: "at_rest R i K X g T M"
    and s: "heap (wk (member X i)) s = Some (chat_session u [])" "u \<noteq> ''''" "T u = Some s"
  shows "\<exists>X'. run1 L cfg R i st ls X' No_link (C k) \<and> at_rest R i K X' g (T(u := None)) M"
proof -
  let ?w = "wk (member X i)" and ?w1 = "on_read L cfg 0 True '''' s (wk (member X i))"
  let ?cs = "[ R_unsubscribe (r_user_notify_prefix (c_redis cfg) @ u),
      R_unsubscribe (r_presence_channel_prefix (c_redis cfg) @ u) ]"
  note D = rest [unfolded at_rest_def]
  have m: "map_of (sessions ?w) u = Some s" using D s(3) by simp
  have w1: "redis_out ?w1 = redis_out ?w @ ?cs" "sessions ?w1 = AList.delete u (sessions ?w)"
    "gen ?w1 = gen ?w" "chat_queue ?w1 = chat_queue ?w" "crashed ?w1 = crashed ?w"
    using s m by (simp_all add: on_read_def Let_def finish_def heap_upd_session is_logged_in_def
        take_undelivered_def chat_session_def on_session_dtor_def redis_send_def new_session_def)
  let ?X1 = "with_node X i ?w1"
  have step1: "cl_step L cfg R X (Node_event i (E_read 0 True '''' s)) ?X1"
    by (rule node_read) (use D s in \<open>simp_all add: pending_def chat_session_def\<close>)
  note r1 = run1_op [OF run o_close [OF step1] Done_ok]
  let ?X2 = "?X1\<lparr>rlog := rlog ?X1 @ map (Exec i) ?cs\<rparr>"
  have r2: "run1 L cfg R i st ls ?X2 No_link (C k)"
    by (rule run1_settle [OF r1, where out = "redis_out ?w" and rest = "[]"]) (use D w1 in simp_all)
  moreover have "at_rest R i K (X\<lparr>member := (member X)(i := (member X i)\<lparr>wk := ?w1\<rparr>),
      rlog := rlog X @ map (Exec i) ?cs\<rparr>) g (T(u := None)) M"
    by (rule rest_after [OF R rest]) (use D w1 in \<open>auto simp: aside_def delete_conv\<close>)
  moreover have "?X2 = X\<lparr>member := (member X)(i := (member X i)\<lparr>wk := ?w1\<rparr>), rlog := rlog X @ map (Exec i) ?cs\<rparr>"
    by (simp add: with_node_def)
  ultimately show ?thesis by (metis (no_types, lifting))
qed

section \<open>The scenario\<close>

lemma phase_user_id:
  assumes L: "json_laws L" "space_laws L" "redis_laws R"
    and run: "run1 L cfg R i st ls X l (C (make_request ends ''/get-user-id'' host ''''))" "ctx C"
    and rest: "at_rest R i K X g T M"
    and c: "new_cred L cfg g = (c, g')" "jdump L (cred_resp L c) = Some s"
  shows "\<exists>X'. run1 L cfg R i st ls X' No_link (C (Return (Status_ok, s @ crlf))) \<and> at_rest R i K X' g' T M"
proof -
  note D = rest [unfolded at_rest_def]
  have "new_cred L cfg (gen (wk (member X i))) = (c, g')" using c(1) D by simp
  from http_user_id [OF this c(2), of 0 0 host] obtain resp where resp:
    "http_on_read L cfg 0 0 Read_ok (request.truncate (make_req host ''/get-user-id'' '''')) (wk (member X i)) =
       (Respond resp, (wk (member X i))\<lparr>gen := g'\<rparr>)" "rs_status resp = Status_ok" "rs_body resp = s @ crlf"
    by blast
  from phase_request [OF L(3) run rest resp(1), of "[]"] D resp(2,3) show ?thesis by simp
qed

lemma phase_cred_pub:
  assumes L: "json_laws L" "space_laws L" "hash_laws L" "redis_laws R"
    and cfg: "0 < sint (c_pwd_size cfg)" "key_bytes L < 2 ^ 31" "r_posts_key (c_redis cfg) \<notin> K"
    and run: "run1 L cfg R i st ls X l (C (cred_pub L ends host))" "ctx C"
    and rest: "at_rest R i K X g T M"
    and c: "new_cred L cfg g = (c, g1)" "pwd_make L (c_pwd_size cfg) g1 = (pid, g2)"
    and texts: "jdump L (cred_resp L c) \<noteq> None" "make_publish_body L c \<noteq> None"
      "jdump L (publish_internal L (published_post c pid 0)) \<noteq> None"
      "jdump L (publish_ok_ack L (published_post c pid 0)) \<noteq> None"
    and h: "h = \<lparr> h_cred = c, h_pack = \<lparr> a_admin_id = chat_admin_id_key, a_id = pid, a_date = 0 \<rparr> \<rparr>"
  shows "\<exists>X'. run1 L cfg R i st (ls @ replicate 2 (Success ''get-user-id'')) X' No_link (C (Return h))
    \<and> at_rest R i K X' g2 T M"
proof -
  obtain s body msg ack where texts': "jdump L (cred_resp L c) = Some s" "make_publish_body L c = Some body"
    "jdump L (publish_internal L (published_post c pid 0)) = Some msg"
    "jdump L (publish_ok_ack L (published_post c pid 0)) = Some ack" using texts by blast
  note valid = new_cred_valid [OF L(3) cfg(1,2) c(1)]
  note cread = read_cred_resp [OF L(1,2) texts'(1)]
  let ?h = "print Failure_what (Return no_cred_pub)"
  let ?E = "\<lambda>c. C (co_catch c ?h)"
  have ctx: "ctx (\<lambda>c. ?E (co_bind c f))" "ctx ?E" for f :: "'x \<Rightarrow> cred_pub_helper co"
    using run(2) by (simp_all add: ctx_def)
  obtain X1 where r1: "run1 L cfg R i st ls X1 No_link (?E (assert_true True ''get-user-id''
       (co_bind (make_request ends ''/posts/publish'' host body) (\<lambda>(st2, body2).
        assert_true (st2 = Status_ok) ''get-user-id''
       (get_or_throw (read_pub_ack L body2) (\<lambda>pack.
          Return \<lparr> h_cred = c, h_pack = pack \<rparr>))))))" "at_rest R i K X1 g1 T M"
    using phase_user_id [OF L(1,2,4) run(1) [unfolded cred_pub_def] ctx(1) rest c(1) texts'(1)]
    by (auto simp: get_or_throw_def cread texts')
  note r2 = run1_print [OF r1(1) [unfolded assert_true_def] ctx(2)]
  note D = r1(2) [unfolded at_rest_def]
  have g1: "pwd_make L (c_pwd_size cfg) (gen (wk (member X1 i))) = (pid, g2)" using D c(2) by simp
  let ?cs = "[ R_hset (r_posts_key (c_redis cfg)) [(pid, msg)], R_publish (r_posts_channel_key (c_redis cfg)) msg ]"
  from http_publish [OF L(1) valid texts'(2) g1 texts'(3,4), of 0 host] obtain resp where resp:
    "http_on_read L cfg 0 0 Read_ok (request.truncate (make_req host ''/posts/publish'' body)) (wk (member X1 i)) =
       (Respond resp, redis_send ?cs ((wk (member X1 i))\<lparr>gen := g2\<rparr>))"
    "rs_status resp = Status_ok" "rs_body resp = ack @ crlf" by blast
  have aside: "aside K i ?cs" using cfg(3) by (auto simp: aside_def)
  obtain X2 where r3: "run1 L cfg R i st (ls @ [Success ''get-user-id'']) X2 No_link (?E (assert_true True ''get-user-id''
       (get_or_throw (read_pub_ack L (ack @ crlf)) (\<lambda>pack.
          Return \<lparr> h_cred = c, h_pack = pack \<rparr>))))" "at_rest R i K X2 g2 T M"
    using phase_request [OF L(4) r2 ctx(1) r1(2) resp(1) _ _ _ _ aside] D resp(2,3)
    by (auto simp: assert_line_def assert_true_def)
  note r4 = run1_print [OF r3(1) [unfolded assert_true_def] ctx(2)]
  show ?thesis
    using r4 r3(2) read_publish_ack [OF L(1,2) texts'(4)]
    by (auto simp: get_or_throw_def h published_post_def assert_line_def numeral_2_eq_2)
qed

lemma phase_peer:
  assumes L: "json_laws L" "space_laws L" "hash_laws L" "redis_laws R"
    and start: "cl_run L cfg R fs (fst st)"
    and cfg: "0 < sint (c_pwd_size cfg)" "key_bytes L < 2 ^ 31" "0 < sint (r_chat_msg_exp_time (c_redis cfg))"
      "r_chat_msgs_counter_key (c_redis cfg) \<notin> K"
    and run: "run1 L cfg R i st ls X l (C (offline_peer L ends host port h k))" "ctx C"
    and rest: "at_rest R i K X g T M"
    and c: "new_cred L cfg g = (c, g')" "u_user_id c = u" "T u = None"
    and to: "to = u_user_id (h_cred h)" "pid = a_id (h_pack h)" "T to = None" "to \<noteq> chat_admin_id_key" "to \<noteq> u"
    and keys: "r_chat_msg_prefix (c_redis cfg) @ u \<in> K" "M (r_chat_msg_prefix (c_redis cfg) @ u) = []"
      "key = r_chat_msg_prefix (c_redis cfg) @ to"
    and texts: "jdump L (cred_resp L c) \<noteq> None" "make_login L c \<noteq> None" "jdump L (login_ack L ''ok'') \<noteq> None"
      "make_message L to pid ''offline test'' \<noteq> None"
      "chat_text L cfg u to pid ''offline test'' = Some out" "chat_ack_text L u to pid \<noteq> None"
  shows "\<exists>X' ls'. run1 L cfg R i st (ls @ ls') X' No_link (C k) \<and> filter is_failure ls' = []
    \<and> at_rest R i K X' g' T (M(key := M key @ [out]))"
proof -
  obtain s m ack msg ack2 where texts': "jdump L (cred_resp L c) = Some s" "make_login L c = Some m"
    "jdump L (login_ack L ''ok'') = Some ack" "make_message L to pid ''offline test'' = Some msg"
    "chat_ack_text L u to pid = Some ack2" using texts by blast
  note valid = new_cred_valid [OF L(3) cfg(1,2) c(1)]
  have ctx: "ctx (\<lambda>c. C (co_bind c f))" for f :: "'x \<Rightarrow> _" using run(2) by (simp add: ctx_def)
  let ?F = "ws_connect ends host port (ws_send_text (make_login L c) (receive_text (\<lambda>_.
     ws_send_text (make_message L to pid ''offline test'') (receive_text (\<lambda>_.
     perform Ws_close (print (Line ''Peer finsihed.'') k))))))"
  obtain X1 where r1: "run1 L cfg R i st ls X1 No_link (C (assert_true True ''get-user-id''
      (print (Line (''Peer: '' @ show_cred c)) ?F)))" "at_rest R i K X1 g' T M"
    using phase_user_id [OF L(1,2,4) run(1) [unfolded offline_peer_def] ctx rest c(1) texts'(1)]
    by (auto simp: get_or_throw_def read_cred_resp [OF L(1,2) texts'(1)] to(1,2))
  note r2 = run1_print [OF run1_print [OF r1(1) [unfolded assert_true_def] run(2)] run(2)]
  obtain X2 sid where r3: "run1 L cfg R i st (ls @ [Success ''get-user-id'', Line (''Peer: '' @ show_cred c)]) X2 (Ws_link sid)
      (C (ws_send_text (make_login L c) (receive_text (\<lambda>_.
     ws_send_text (make_message L to pid ''offline test'') (receive_text (\<lambda>_.
     perform Ws_close (print (Line ''Peer finsihed.'') k)))))))" "at_rest R i K X2 g' T M"
     "heap (wk (member X2 i)) sid = Some (chat_session '''' [])"
    using phase_connect [OF L(4) r2 run(2) r1(2)] by (auto simp: assert_line_def)
  obtain X3 where r4: "run1 L cfg R i st (ls @ [Success ''get-user-id'', Line (''Peer: '' @ show_cred c)]) X3 (Ws_link sid)
      (C (ws_send_text (make_message L to pid ''offline test'') (receive_text (\<lambda>_.
     perform Ws_close (print (Line ''Peer finsihed.'') k)))))"
     "at_rest R i K X3 g' (T(u \<mapsto> sid)) M"
     "heap (wk (member X3 i)) sid = Some (chat_session u [])"
    using phase_login [OF L(1,4) start r3(1) run(2) r3(2,3) texts'(2) valid(1) c(2) _ c(3) refl keys(1) keys(2) _ texts'(3)]
      valid(2) c(2) keys(2) by (auto simp: fun_upd_idem)
  have to': "(T(u \<mapsto> sid)) to = None" using to(3,5) by simp
  have u: "u \<noteq> ''''" using valid(2) c(2) by simp
  obtain X4 where r5: "run1 L cfg R i st (ls @ [Success ''get-user-id'', Line (''Peer: '' @ show_cred c)]) X4 (Ws_link sid)
      (C (perform Ws_close (print (Line ''Peer finsihed.'') k)))"
     "at_rest R i K X4 g' (T(u \<mapsto> sid)) (M(key := M key @ [out]))"
     "heap (wk (member X4 i)) sid = Some (chat_session u [])"
    using phase_chat [OF L(1,4) r4(1) run(2) r4(2,3) u to' to(4) keys(3) cfg(4,3) texts'(4) texts(5) texts'(5)]
    by blast
  have same: "T(u \<mapsto> sid, u := None) = T" using c(3) by (simp add: fun_upd_idem)
  obtain X5 where r6: "run1 L cfg R i st (ls @ [Success ''get-user-id'', Line (''Peer: '' @ show_cred c)]) X5 No_link
      (C (print (Line ''Peer finsihed.'') k))" "at_rest R i K X5 g' T (M(key := M key @ [out]))"
    using phase_close [OF L(4) r5(1) run(2) r5(2,3) u] unfolding same by auto
  from run1_print [OF r6(1) run(2)]
  have "run1 L cfg R i st (ls @ [Success ''get-user-id'', Line (''Peer: '' @ show_cred c), Line ''Peer finsihed.''])
      X5 No_link (C k)" by simp
  with r6(2) show ?thesis
    by (intro exI [of _ X5] exI [of _ "[Success ''get-user-id'', Line (''Peer: '' @ show_cred c), Line ''Peer finsihed.'']"])
      simp
qed

text \<open>The first user logs in and reads what was stored.\<close>

lemma phase_first:
  assumes L: "json_laws L" "redis_laws R" and start: "cl_run L cfg R fs (fst st)"
    and run: "run1 L cfg R i st ls X l (C (offline_login L ends host port h))" "ctx C"
    and rest: "at_rest R i K X g T M"
    and c: "h_cred h = c" "u_user_id c = make_hex_digest L (u_user c) (u_key c)" "u_user_id c = u"
      "u \<noteq> ''''" "T u = None"
    and key: "key = r_chat_msg_prefix (c_redis cfg) @ u" "key \<in> K" "M key = [out]" "out \<noteq> ''''"
    and texts: "make_login L c \<noteq> None" "jdump L (login_ack L ''ok'') \<noteq> None"
  shows "\<exists>X' ls'. run1 L cfg R i st (ls @ ls' @ [Line (''Message received: '' @ out)]) X' No_link (C (Return ()))
    \<and> filter is_failure ls' = []"
proof -
  obtain m ack where texts': "make_login L c = Some m" "jdump L (login_ack L ''ok'') = Some ack"
    using texts by blast
  let ?l = "Line (''Loggin to retrieve message: '' @ show_cred c)"
  note r1 = run1_print [OF run(1) [unfolded offline_login_def c(1)] run(2)]
  obtain X2 sid where r2: "run1 L cfg R i st (ls @ [?l]) X2 (Ws_link sid)
      (C (ws_send_text (make_login L c) (receive_text (\<lambda>_. receive_text (\<lambda>foo.
         print (Line (''Message received: '' @ foo)) (perform Ws_close (Return ())))))))" "at_rest R i K X2 g T M"
     "heap (wk (member X2 i)) sid = Some (chat_session '''' [])"
    using phase_connect [OF L(2) r1 run(2) rest] by blast
  have ms: "'''' \<notin> set [out]" using key(4) by simp
  obtain X3 where r3: "run1 L cfg R i st (ls @ [?l]) X3 (Ws_link sid) (C (receive_text (\<lambda>foo.
         print (Line (''Message received: '' @ foo)) (perform Ws_close (Return ())))))"
     "at_rest R i K X3 g (T(u \<mapsto> sid)) (M(key := []))"
     "heap (wk (member X3 i)) sid = Some (chat_session u [out])"
    using phase_login [OF L start r2(1) run(2) r2(2,3) texts'(1) c(2-5) key(1-3) ms texts'(2)] by blast
  obtain X4 where r4: "run1 L cfg R i st (ls @ [?l]) X4 (Ws_link sid)
      (C (print (Line (''Message received: '' @ out)) (perform Ws_close (Return ()))))"
     "at_rest R i K X4 g (T(u \<mapsto> sid)) (M(key := []))"
     "heap (wk (member X4 i)) sid = Some (chat_session u [])"
    using phase_text [OF r3(1) run(2) L(2) r3(2,3)] by blast
  have "(T(u \<mapsto> sid)) u = Some sid" by simp
  from phase_close [OF L(2) run1_print [OF r4(1) run(2)] run(2) r4(2,3) c(4) this]
  obtain X5 where "run1 L cfg R i st ((ls @ [?l]) @ [Line (''Message received: '' @ out)]) X5 No_link (C (Return ()))"
    by blast
  then show ?thesis by (intro exI [of _ X5] exI [of _ "[?l]"]) simp
qed

text \<open>C3: the test of offline messages can always succeed, on whatever a node has done before: from any
  reachable state of a cluster in which the node the client uses owes nothing to redis, there is a
  run in which the client gets the credentials of a first user, publishes a post, gets those of a
  second user, logs in as that user, sends the first user, who is not connected, a message, leaves,
  logs in as the first user and receives exactly that message, marked with the id of its sender; no
  line of output reports an error. It is assumed that the two user ids drawn are different, new to
  the node and have empty lists, that the keys of redis are kept apart and that the texts can be
  printed.\<close>

theorem offline_test_succeeds:
  assumes L: "json_laws L" "space_laws L" "hash_laws L" "redis_laws R"
    and cfg: "0 < sint (c_pwd_size cfg)" "key_bytes L < 2 ^ 31" "0 < sint (r_chat_msg_exp_time (c_redis cfg))"
    and start: "cl_run L cfg R fs X" "at_rest R i {k1, k2} X g T (\<lambda>_. [])"
    and drawn: "new_cred L cfg g = (c1, g1)" "pwd_make L (c_pwd_size cfg) g1 = (pid, g2)"
      "new_cred L cfg g2 = (c2, g3)"
    and users: "u1 = u_user_id c1" "u2 = u_user_id c2" "u1 \<noteq> u2" "T u1 = None" "T u2 = None"
      "u1 \<noteq> chat_admin_id_key"
    and keys: "k1 = r_chat_msg_prefix (c_redis cfg) @ u1" "k2 = r_chat_msg_prefix (c_redis cfg) @ u2"
      "r_posts_key (c_redis cfg) \<notin> {k1, k2}" "r_chat_msgs_counter_key (c_redis cfg) \<notin> {k1, k2}"
    and texts: "jdump L (cred_resp L c1) \<noteq> None" "make_publish_body L c1 \<noteq> None"
      "jdump L (publish_internal L (published_post c1 pid 0)) \<noteq> None"
      "jdump L (publish_ok_ack L (published_post c1 pid 0)) \<noteq> None"
      "jdump L (cred_resp L c2) \<noteq> None" "make_login L c2 \<noteq> None" "jdump L (login_ack L ''ok'') \<noteq> None"
      "make_message L u1 pid ''offline test'' \<noteq> None"
      "chat_text L cfg u2 u1 pid ''offline test'' \<noteq> None" "chat_ack_text L u2 u1 pid \<noteq> None"
      "make_login L c1 \<noteq> None"
  shows "\<exists>Y ls out. world_run L cfg R i X [(No_link, offline L host port)]
        (ls @ [Line (''Message received: '' @ out)]) Y [(No_link, Return ())]
    \<and> filter is_failure ls = []
    \<and> read_message L out = Some ((chat_message u1 pid ''offline test'')\<lparr>m_from := u2\<rparr>)"
proof -
  let ?ends = "(host, port)" and ?st = "(X, [(No_link, offline L host port)])"
  let ?h = "\<lparr> h_cred = c1, h_pack = \<lparr> a_admin_id = chat_admin_id_key, a_id = pid, a_date = 0 \<rparr> \<rparr>"
  let ?C = "\<lambda>c. co_catch c (print Failure_what (Return ()))"
  let ?F = "\<lambda>h. print (Line (''Post publisher: '' @ show_cred (h_cred h)))
       (offline_peer L ?ends host port h (offline_login L ?ends host port h))"
  have ctx: "ctx ?C" "ctx (\<lambda>c. ?C (co_bind c ?F))" by (simp_all add: ctx_def)
  obtain out where out: "chat_text L cfg u2 u1 pid ''offline test'' = Some out" using texts by blast
  have msg: "read_message L out = Some ((chat_message u1 pid ''offline test'')\<lparr>m_from := u2\<rparr>)"
    using read_chat_text [OF L(1) out] users(6) by (simp add: addressee_def message_record_eqs)
  have st: "cl_run L cfg R fs (fst ?st)" using start(1) by simp
  have "run1 L cfg R i ?st [] X No_link (?C (perform (Resolve host port) (co_bind (cred_pub L ?ends host) ?F)))"
    by (simp add: offline_def Let_def w_done)
  note r1 = run1_op [OF this ctx(1) o_resolve Done_ok]
  obtain X1 where r2: "run1 L cfg R i ?st ([] @ replicate 2 (Success ''get-user-id'')) X1 No_link (?C (?F ?h))"
    "at_rest R i {k1, k2} X1 g2 T (\<lambda>_. [])"
    using phase_cred_pub [OF L cfg(1,2) keys(3) r1 ctx(2) start(2) drawn(1,2) texts(1-4) refl] by auto
  note r3 = run1_print [OF r2(1) ctx(1)]
  have k: "k1 \<in> {k1, k2}" "r_chat_msg_prefix (c_redis cfg) @ u2 \<in> {k1, k2}" using keys(2) by simp_all
  obtain X2 ls where r4: "run1 L cfg R i ?st
      (([] @ replicate 2 (Success ''get-user-id'')) @ [Line (''Post publisher: '' @ show_cred (h_cred ?h))] @ ls) X2 No_link
      (?C (offline_login L ?ends host port ?h))" "filter is_failure ls = []"
    "at_rest R i {k1, k2} X2 g3 T ((\<lambda>_. [])(k1 := [out]))"
    using phase_peer [OF L st cfg keys(4) r3 ctx(1) r2(2) drawn(3) users(2) [symmetric] users(5) _ _ users(4,6,3)
        k(2) refl keys(1) texts(5-8) out texts(10)] users(1) by auto
  note valid = new_cred_valid [OF L(3) cfg(1,2) drawn(1)]
  have "out \<noteq> ''''" using L(1) out by (auto simp: chat_text_def)
  from phase_first [OF L(1,4) st r4(1) ctx(1) r4(3) _ valid(1) users(1) [symmetric] _ users(4) keys(1) k(1) _ this texts(11,7)]
    valid(2) users(1)
  obtain X3 ls' where "run1 L cfg R i ?st ((([] @ replicate 2 (Success ''get-user-id'')) @
      [Line (''Post publisher: '' @ show_cred (h_cred ?h))] @ ls) @ ls' @ [Line (''Message received: '' @ out)])
      X3 No_link (?C (Return ()))" "filter is_failure ls' = []" by auto
  with r4(2) msg show ?thesis
    by (intro exI [of _ X3] exI [of _ "([] @ replicate 2 (Success ''get-user-id'')) @
      [Line (''Post publisher: '' @ show_cred (h_cred ?h))] @ ls @ ls'"] exI [of _ out]) simp
qed

definition first_user :: user_cred where
  "first_user = \<lparr> u_user = ''abcdefgh'', u_key = ''ijklmnopqrstuvwxyz0123456789abcd'',
     u_user_id = ''6162636465666768696a6b6c6d6e6f70'' \<rparr>"

definition second_user :: user_cred where
  "second_user = \<lparr> u_user = ''mnopqrst'', u_key = ''uvwxyz0123456789abcdefghijklmnop'',
     u_user_id = ''6d6e6f707172737475767778797a3031'' \<rparr>"

lemma drawn_users:
  "new_cred ref_lib sample_core 0 = (first_user, 40)"
  "pwd_make ref_lib (c_pwd_size sample_core) 40 = (''efghijkl'', 48)"
  "new_cred ref_lib sample_core 48 = (second_user, 88)"
  by code_simp+

theorem offline_test_succeeds_witness:
  "\<exists>Y ls out. world_run ref_lib sample_core ref_redis 0 init_cluster [(No_link, offline ref_lib ''db'' ''80'')]
       (ls @ [Line (''Message received: '' @ out)]) Y [(No_link, Return ())]
     \<and> read_message ref_lib out =
         Some ((chat_message (u_user_id first_user) ''efghijkl'' ''offline test'')\<lparr>m_from := u_user_id second_user\<rparr>)"
proof -
  let ?k1 = "r_chat_msg_prefix (c_redis sample_core) @ u_user_id first_user"
  let ?k2 = "r_chat_msg_prefix (c_redis sample_core) @ u_user_id second_user"
  have cfg: "0 < sint (c_pwd_size sample_core)" "key_bytes ref_lib < 2 ^ 31"
    "0 < sint (r_chat_msg_exp_time (c_redis sample_core))"
    by (simp_all add: sample_core_def default_redis_def)
  have rest: "at_rest ref_redis 0 {?k1, ?k2} init_cluster 0 (\<lambda>_. None) (\<lambda>_. [])"
    by (simp add: at_rest_def init_cluster_def init_sys_def init_worker_def ref_redis_def fun_eq_iff)
  have ids: "u_user_id first_user \<noteq> u_user_id second_user" "u_user_id first_user \<noteq> chat_admin_id_key"
    by (simp_all add: first_user_def second_user_def chat_admin_id_key_def)
  have keys: "r_posts_key (c_redis sample_core) \<notin> {?k1, ?k2}"
    "r_chat_msgs_counter_key (c_redis sample_core) \<notin> {?k1, ?k2}"
    by (simp_all add: sample_core_def default_redis_def)
  from offline_test_succeeds [OF ref_json_laws ref_space_laws ref_hash_laws ref_redis_laws cfg cl_run.c_start
      rest drawn_users refl refl ids(1) refl refl ids(2) refl refl keys, of "''db''" "''80''"]
  show ?thesis
    by (simp add: make_publish_body_def make_login_def make_message_def chat_text_def chat_ack_text_def Let_def) blast
qed

end
