(* ===== verification/Post_Writes.thy ===== *)
theory Post_Writes
  imports Cluster
begin

text \<open>
  The order in which a node changes the posts kept in redis: a post is stored or removed and the
  change is then announced on the posts channel, with nothing in between on the connection of the
  node; and a node that has asked for all posts subscribes to that channel next. Theory Replicas
  puts several nodes beside one redis and says when they hold the same posts.
\<close>

section \<open>Pairs of commands\<close>

abbreviation posts_key :: "core \<Rightarrow> string" where
  "posts_key cfg \<equiv> r_posts_key (c_redis cfg)"

abbreviation posts_channel :: "core \<Rightarrow> string" where
  "posts_channel cfg \<equiv> r_posts_channel_key (c_redis cfg)"

text \<open>Commands that open a pair, and what has to come next.\<close>

fun opens :: "core \<Rightarrow> redis_cmd \<Rightarrow> bool" where
  "opens cfg (R_hset key fs) = (key = posts_key cfg)"
| "opens cfg (R_hdel key fs) = (key = posts_key cfg)"
| "opens cfg (R_hvals key) = True"
| "opens cfg c = False"

fun mate :: "'j extern \<Rightarrow> core \<Rightarrow> redis_cmd \<Rightarrow> redis_cmd \<Rightarrow> bool" where
  "mate L cfg (R_hset key fs) d \<longleftrightarrow> key = posts_key cfg \<longrightarrow>
     (\<exists>f m p. fs = [(f, m)] \<and> d = R_publish (posts_channel cfg) m \<and> node_cmds L cfg m = [Add_cmd p]
        \<and> p_id p = f)"
| "mate L cfg (R_hdel key fs) d \<longleftrightarrow> key = posts_key cfg \<longrightarrow>
     (\<exists>f m a. fs = [f] \<and> d = R_publish (posts_channel cfg) m
        \<and> node_cmds L cfg m = [Remove_cmd f a (a = c_chat_admin_id cfg)])"
| "mate L cfg (R_hvals key) d \<longleftrightarrow> key = posts_key cfg \<and> d = R_subscribe (posts_channel cfg)"
| "mate L cfg c d = True"

lemma mate_free: "\<not> opens cfg c \<Longrightarrow> mate L cfg c d"
  by (cases c) auto

fun blocks :: "'j extern \<Rightarrow> core \<Rightarrow> redis_cmd list \<Rightarrow> bool" where
  "blocks L cfg [] = True"
| "blocks L cfg [c] = (\<not> opens cfg c)"
| "blocks L cfg (c # d # cs) = (mate L cfg c d \<and> blocks L cfg (d # cs))"

lemma blocks_append: "blocks L cfg cs \<Longrightarrow> blocks L cfg ds \<Longrightarrow> blocks L cfg (cs @ ds)"
proof (induction cs rule: blocks.induct [of _ L cfg])
  case (2 L cfg c)
  then show ?case by (cases ds) (simp_all add: mate_free)
qed simp_all

lemma blocks_free: "list_all (\<lambda>c. \<not> opens cfg c) cs \<Longrightarrow> blocks L cfg cs"
  by (induction cs rule: blocks.induct [of _ L cfg]) (auto intro: mate_free)

lemma blocks_nth:
  "blocks L cfg cs \<Longrightarrow> n < length cs \<Longrightarrow> opens cfg (cs ! n) \<Longrightarrow>
     Suc n < length cs \<and> mate L cfg (cs ! n) (cs ! Suc n)"
proof (induction cs arbitrary: n rule: blocks.induct [of _ L cfg])
  case (3 L cfg c d cs)
  then show ?case by (cases n) auto
qed auto

section \<open>Every node keeps to them\<close>

definition pairs_off :: "'j extern \<Rightarrow> core \<Rightarrow> worker \<Rightarrow> worker \<Rightarrow> bool" where
  "pairs_off L cfg w v \<longleftrightarrow> (\<exists>cs. redis_out v = redis_out w @ cs \<and> blocks L cfg cs)"

lemma po_refl [simp, intro]: "redis_out v = redis_out w \<Longrightarrow> pairs_off L cfg w v"
  by (simp add: pairs_off_def)

lemma po_trans [trans]: "pairs_off L cfg w v \<Longrightarrow> pairs_off L cfg v u \<Longrightarrow> pairs_off L cfg w u"
  by (auto simp: pairs_off_def intro: blocks_append)

lemma po_sel [simp]:
  "pairs_off L cfg w (send_msg s m p v) = pairs_off L cfg w v"
  "pairs_off L cfg w (upd_session s f v) = pairs_off L cfg w v"
  "pairs_off L cfg (upd_session s f w) v = pairs_off L cfg w v"
  "pairs_off L cfg w (crash v) = pairs_off L cfg w v"
  "pairs_off L cfg w (v\<lparr>gen := g\<rparr>) = pairs_off L cfg w v"
  "pairs_off L cfg (w\<lparr>gen := g\<rparr>) v = pairs_off L cfg w v"
  "pairs_off L cfg w (v\<lparr>chat_queue := q\<rparr>) = pairs_off L cfg w v"
  "pairs_off L cfg (w\<lparr>chat_queue := q\<rparr>) v = pairs_off L cfg w v"
  "pairs_off L cfg w (v\<lparr>accept_mgr := a\<rparr>) = pairs_off L cfg w v"
  "pairs_off L cfg (register_session u s w) v = pairs_off L cfg w v"
  by (simp_all add: pairs_off_def register_out)

lemma po_send [simp]: "pairs_off L cfg w (redis_send cs w) = blocks L cfg cs"
  by (simp add: pairs_off_def)

text \<open>The keys of a configuration that the code does not mean to be the key of the posts, and the
  channels of presence messages that are not the channel of the posts.\<close>

definition separate_keys :: "core \<Rightarrow> bool" where
  "separate_keys cfg \<longleftrightarrow> r_removed_posts_key (c_redis cfg) \<noteq> posts_key cfg
     \<and> r_tokens_key (c_redis cfg) \<noteq> posts_key cfg
     \<and> \<not> prefix (r_presence_channel_prefix (c_redis cfg)) (posts_channel cfg)"

lemma po_store [simp]: "pairs_off L cfg w (store_chat_msg cfg' ms u w)"
  by (simp add: store_chat_msg_def Let_def)

lemma po_presence: "on_app_presence L cfg j s w = (r, v) \<Longrightarrow> pairs_off L cfg w v"
  by (auto simp: on_app_presence_def Let_def split: option.splits)

lemma po_forward: "forward_chat_msg L cfg' j u w = (r, v) \<Longrightarrow> pairs_off L cfg w v"
  by (auto simp: forward_chat_msg_def split: option.splits)

lemma po_chat_msg: "on_app_chat_msg L cfg j s w = (r, v) \<Longrightarrow> pairs_off L cfg w v"
  by (auto simp: on_app_chat_msg_def Let_def dest!: po_forward split: option.splits prod.splits)

lemma po_publish_impl:
  assumes L: "json_laws L" and run: "on_publish_impl L cfg now j w = (r, v)"
  shows "pairs_off L cfg w v"
proof -
  have "blocks L cfg [R_hset (posts_key cfg) [(p_id q, m)], R_publish (posts_channel cfg) m]"
    if "jdump L (publish_internal L q) = Some m" for q m
    using node_cmds_publish [OF L that, of cfg] by simp
  then have pair: "pairs_off L cfg w (redis_send
      [R_hset (posts_key cfg) [(p_id q, m)], R_publish (posts_channel cfg) m] (w\<lparr>gen := g\<rparr>))"
    if "jdump L (publish_internal L q) = Some m" for q m g
    using that by (simp add: pairs_off_def)
  from run show ?thesis
    unfolding on_publish_impl_def Let_def
    by (auto split: option.splits if_splits prod.splits dest: pair)
qed

lemma po_publish: "json_laws L \<Longrightarrow> on_app_publish L cfg now j s w = (r, v) \<Longrightarrow> pairs_off L cfg w v"
  by (auto simp: on_app_publish_def dest!: po_publish_impl split: option.splits prod.splits)

lemma po_token:
  "separate_keys cfg \<Longrightarrow> publish_token L cfg j u w = (r, v) \<Longrightarrow> pairs_off L cfg w v"
  by (auto simp: publish_token_def separate_keys_def split: option.splits bind_splits if_splits)

lemma po_subscribe [simp]: "pairs_off L cfg w (subscribe_user cfg' u w)"
  by (simp add: subscribe_user_def Let_def)

lemma po_login:
  assumes sep: "separate_keys cfg" and run: "on_app_login L cfg j s w = (r, v)"
  shows "pairs_off L cfg w v"
  using run po_trans [OF _ po_subscribe]
  by (auto simp: on_app_login_def Let_def dest!: po_token [OF sep]
      split: option.splits bind_splits if_splits prod.splits)

lemma po_on_app:
  assumes L: "json_laws L" "separate_keys cfg" and run: "on_app L cfg now s msg w = (r, v)"
  shows "pairs_off L cfg w v"
proof (cases "do { j \<leftarrow> jparse L msg; cmd \<leftarrow> at_str L j ''cmd''; Some (j, cmd) }")
  case None
  with run show ?thesis by (simp add: on_app_def)
next
  case (Some jc)
  then obtain j c where j: "jc = (j, c)" by fastforce
  have "pairs_off L cfg w v'" if "catch_unknown (on_app_presence L cfg j s w) = (r', v')" for r' v'
    using catch_unknown_snd [OF that] by (auto dest: po_presence)
  moreover have "pairs_off L cfg w v'" if "catch_unknown (on_app_chat_msg L cfg j s w) = (r', v')" for r' v'
    using catch_unknown_snd [OF that] by (auto dest: po_chat_msg)
  moreover have "pairs_off L cfg w v'" if "catch_unknown (on_app_publish L cfg now j s w) = (r', v')" for r' v'
    using catch_unknown_snd [OF that] by (auto dest: po_publish [OF L(1)])
  moreover have "pairs_off L cfg w v'" if "catch_unknown (on_app_login L cfg j s w) = (r', v')" for r' v'
    using catch_unknown_snd [OF that] by (auto dest: po_login [OF L(2)])
  ultimately show ?thesis
    using run Some j unfolding on_app_def by (auto split: if_splits)
qed

lemma po_dtor: "pairs_off L cfg w (on_session_dtor cfg' u ms w)"
proof -
  let ?w = "redis_send
      [ R_unsubscribe (r_user_notify_prefix (c_redis cfg') @ u),
        R_unsubscribe (r_presence_channel_prefix (c_redis cfg') @ u) ]
      (w\<lparr>sessions := AList.delete u (sessions w)\<rparr>)"
  have "pairs_off L cfg w ?w" by (simp add: pairs_off_def)
  moreover from this have "pairs_off L cfg w (store_chat_msg cfg' ms u ?w)"
    by (rule po_trans) simp
  ultimately show ?thesis by (simp add: on_session_dtor_def Let_def split: option.split)
qed

lemma po_finish: "pairs_off L cfg w (finish cfg' s w)"
proof -
  have "pairs_off L cfg w (on_session_dtor cfg' u ms v)" if "redis_out v = redis_out w" for u ms v
    using po_dtor [of L cfg v cfg' u ms] that by (simp add: pairs_off_def)
  then show ?thesis by (simp add: finish_def Let_def split: option.split prod.split)
qed

lemma po_delete:
  assumes L: "json_laws L" "separate_keys cfg" and run: "delete_post L cfg user key i w = (r, v)"
  shows "pairs_off L cfg w v"
proof -
  have pair: "pairs_off L cfg w (redis_send [R_hset (r_removed_posts_key (c_redis cfg)) x,
      R_hdel (posts_key cfg) [i], R_publish (posts_channel cfg) m] w)"
    if "jdump L (delete_cmd L u i) = Some m" for u m x
    using node_cmds_delete [OF L(1) that, of cfg] L(2) by (simp add: separate_keys_def)
  from run show ?thesis
    unfolding delete_post_def Let_def
    by (auto split: option.splits if_splits dest: pair)
qed

lemma po_visualization: "on_visualization L cfg msg w = (r, v) \<Longrightarrow> pairs_off L cfg w v"
  by (auto simp: on_visualization_def split: option.splits)

lemma po_user_id: "on_get_user_id L cfg w = (r, v) \<Longrightarrow> pairs_off L cfg w v"
  by (auto simp: on_get_user_id_def Let_def split: prod.splits)

lemma credit_out: "redis_out (snd (credit_loop L cfg n w)) = redis_out w"
proof (induction n arbitrary: w)
  case (Suc n)
  have "redis_out (snd (upload_credit L cfg w)) = redis_out w"
    by (simp add: upload_credit_def Let_def split: prod.split sum.split)
  with Suc show ?case by (auto split: prod.split sum.split) (metis sndI)+
qed simp

lemma po_post_handler:
  assumes L: "json_laws L" "separate_keys cfg" and run: "post_handler L cfg now ret0 t body w resp = (r, v)"
  shows "pairs_off L cfg w v"
proof -
  have "pairs_off L cfg w v" if "post_delete_handler L cfg body w x = (r, v)" for x r v
    using that by (auto simp: post_delete_handler_def dest!: po_delete [OF L] split: option.splits prod.splits)
  moreover have "pairs_off L cfg w v" if "post_publish_handler L cfg now body w x = (r, v)" for x r v
    using that by (auto simp: post_publish_handler_def dest!: po_publish_impl [OF L(1)]
        split: option.splits prod.splits)
  moreover have "pairs_off L cfg w v" if "post_visualization_handler L cfg body w x = (r, v)" for x r v
    using that by (auto simp: post_visualization_handler_def dest!: po_visualization
        split: option.splits prod.splits)
  moreover have "pairs_off L cfg w v" if "get_user_id_handler L cfg w x = (r, v)" for x r v
    using that by (auto simp: get_user_id_handler_def dest!: po_user_id split: option.splits prod.splits)
  moreover have "pairs_off L cfg w v" if "post_upload_credit_handler L cfg w x = (r, v)" for x r v
    using that credit_out [of L cfg mms_filename_size w]
    by (auto simp: post_upload_credit_handler_def get_upload_credit_def Let_def pairs_off_def
        split: option.splits prod.splits sum.splits dir_error.splits)
  ultimately show ?thesis
    using run by (auto simp: post_handler_def Let_def split: prod.splits if_splits)
qed

lemma po_http:
  assumes "json_laws L" "separate_keys cfg" "http_on_read L cfg now ret0 ec req w = (a, v)"
  shows "pairs_off L cfg w v"
  using assms(3) po_post_handler [OF assms(1,2)]
  by (auto simp: http_on_read_def process_request_def Let_def
      split: read_result.splits if_splits prod.splits verb.splits)

lemma po_hgetall: "pairs_off L cfg w (on_hgetall t l v w)"
  by (auto simp: on_hgetall_def Let_def pairs_off_def split: option.split)

lemma po_db_chat: "pairs_off L cfg w (on_db_chat_msg cfg' u ms w)"
proof -
  have "redis_out (fold (\<lambda>m. send_msg s m True) ms v) = redis_out v" for s v
    by (induction ms arbitrary: v) simp_all
  then show ?thesis by (auto simp: on_db_chat_msg_def pairs_off_def [of _ _ _ "fold _ _ _"] split: option.split)
qed

lemma po_push: "pairs_off L cfg w (on_push L cfg now v w)"
  by (auto simp: on_push_def Let_def on_db_presence_def on_db_channel_post_def split: option.split)

lemma po_db_event:
  assumes "separate_keys cfg"
  shows "pairs_off L cfg w (on_db_event L cfg now d w)"
proof (cases d)
  case (Hvals ms)
  have "redis_out (fold (on_db_channel_post L cfg now) ms w) = redis_out w"
    by (induction ms arbitrary: w) (simp_all add: on_db_channel_post_def)
  then show ?thesis by (simp add: Hvals on_hvals_def Let_def pairs_off_def)
qed (simp_all add: po_push po_hgetall on_hello_def)

lemma po_signal: "pairs_off L cfg w (on_signal ec w)"
proof -
  have "redis_out (fold (\<lambda>(u, s). upd_session s ws_shutdown) xs v) = redis_out v"
    for xs :: "(string \<times> sid) list" and v
    by (induction xs arbitrary: v) auto
  then show ?thesis by (simp add: on_signal_def shutdown_impl_def Let_def pairs_off_def)
qed

lemma po_step:
  assumes L: "json_laws L" "separate_keys cfg" and step: "sys_step L cfg S e S'"
  shows "pairs_off L cfg (wk S) (wk S')"
  using step
proof cases
  case (s_http now ret0 ec req)
  obtain a w where aw: "http_on_read L cfg now ret0 ec req (wk S) = (a, w)" by fastforce
  from po_http [OF L aw] s_http aw show ?thesis
    by (auto simp: http_request_def make_session_def Let_def pairs_off_def split: http_action.splits)
next
  case (s_read t now ec msg)
  let ?w = "upd_session t (complete_op Async_read) (wk S)"
  obtain r v where app: "on_app L cfg now t msg ?w = (r, v)" by fastforce
  have "pairs_off L cfg (wk S) v" "pairs_off L cfg (wk S) (finish cfg t ?w)"
    using po_on_app [OF L app] po_finish [of L cfg ?w cfg t] by simp_all
  with s_read app show ?thesis by (simp add: on_read_def Let_def)
next
  case (s_lrange msgs)
  then show ?thesis by (simp add: on_lrange_def Let_def po_db_chat)
qed (simp_all add: po_db_event [OF L(2)] po_signal on_run_def on_written_def on_close_def Let_def)

lemma blocks_run:
  assumes "json_laws L" "separate_keys cfg" "sys_run L cfg es S"
  shows "blocks L cfg (redis_out (wk S))"
  using assms(3)
proof induction
  case start
  show ?case by (simp add: init_sys_def init_worker_def)
next
  case (step es S e S')
  from po_step [OF assms(1,2) step.hyps(2)] step.IH show ?case
    by (auto simp: pairs_off_def intro: blocks_append)
qed

end
