(* ===== verification/Stored_Posts.thy ===== *)
theory Stored_Posts
  imports Publishing
begin

text \<open>
  The posts in the memory of a node against the values of the hash that redis keeps: posts up to
  their counters, what the commands of the posts channel do to them, and when a node holds the
  posts of the hash. The locale \<open>viewed_store\<close> extends \<open>post_store\<close> by the view that replication
  compares.
\<close>

section \<open>Posts up to their counters\<close>

definition alike :: "channel \<Rightarrow> channel \<Rightarrow> bool" where
  "alike ps qs \<longleftrightarrow> map post_core ps = map post_core qs"

lemma alike_refl [simp, intro]: "alike ps ps"
  by (simp add: alike_def)

lemma alike_sym: "alike ps qs \<Longrightarrow> alike qs ps"
  by (simp add: alike_def)

lemma alike_trans [trans]: "alike ps qs \<Longrightarrow> alike qs rs \<Longrightarrow> alike ps rs"
  by (simp add: alike_def)

lemma alike_ids: "alike ps qs \<Longrightarrow> map p_id ps = map p_id qs"
  unfolding alike_def by (rule map_core_ids)

lemma alike_sorted: "alike ps qs \<Longrightarrow> sorted_posts ps \<Longrightarrow> sorted_posts qs"
  by (simp add: sorted_posts_def alike_ids)

lemma core_find: "std_find_if (\<lambda>p. p_id p = i) (map post_core ps) = std_find_if (\<lambda>p. p_id p = i) ps"
  by (induction ps) simp_all

lemma core_add:
  assumes "sorted_posts ps"
  shows "map post_core (add_post p ps) = add_post (post_core p) (map post_core ps)"
proof -
  have "sorted_posts (map post_core ps)" using assms by (simp add: sorted_posts_def comp_def)
  from add_post_eq [OF this] add_post_eq [OF assms] show ?thesis
    by (simp add: takeWhile_map dropWhile_map comp_def)
qed

lemma core_remove:
  "map post_core (snd (remove_post i a adm ps)) = snd (remove_post i a adm (map post_core ps))"
proof (cases "std_find_if (\<lambda>p. p_id p = i) ps")
  case (Some n)
  with std_find_if_Some [OF Some] show ?thesis
    by (simp add: remove_post_def core_find erase_at_def take_map drop_map)
qed (simp add: remove_post_def core_find)

section \<open>Stores seen up to their counters\<close>

text \<open>What the replication of the posts relies on beside \<open>post_store\<close>: a view of the store on which
  the effect of a command depends, and which the counters do not enter.\<close>

locale viewed_store = post_store +
  fixes view :: "'a \<Rightarrow> post list"
  assumes view_invar: "view s = view t \<Longrightarrow> invar s \<Longrightarrow> invar t"
    and view_add: "view s = view t \<Longrightarrow> invar s \<Longrightarrow> view (add p s) = view (add p t)"
    and view_remove: "view s = view t \<Longrightarrow> invar s \<Longrightarrow>
          view (snd (remove i a adm s)) = view (snd (remove i a adm t))"
    and view_visual: "view (visual i s) = view s"
    and view_load: "view (load v s) = view s"
begin

lemma exec_view: "view s = view t \<Longrightarrow> invar s \<Longrightarrow> view (exec_cmd c s) = view (exec_cmd c t)"
  using view_add view_remove by (cases c) (simp_all add: view_visual view_load)

lemma run_view: "view s = view t \<Longrightarrow> invar s \<Longrightarrow> view (fold exec_cmd cs s) = view (fold exec_cmd cs t)"
proof (induction cs arbitrary: s t)
  case (Cons c cs)
  from Cons.IH [OF exec_view [OF Cons.prems] exec_invar [OF Cons.prems(2)]] show ?case by simp
qed simp

text \<open>Commands on the counters do not show.\<close>

lemma run_unseen: "set cs \<subseteq> range Visual_cmd \<union> range Load_cmd \<Longrightarrow> view (fold exec_cmd cs s) = view s"
proof (induction cs arbitrary: s)
  case (Cons c cs)
  then have "view (exec_cmd c s) = view s" by (auto simp: view_visual view_load)
  with Cons show ?case by simp
qed simp

end

interpretation counted: viewed_store add_post channel_on_visualization remove_post load_visualizations
  post_cores sorted_posts "map post_core"
proof (unfold_locales, goal_cases)
  case (1 s t)
  then show ?case using alike_sorted [of s t] by (simp add: alike_def)
next
  case (2 s t p)
  with core_add [of s p] core_add [OF alike_sorted [of s t]] show ?case by (simp add: alike_def)
next
  case (3 s t i a adm)
  then show ?case by (simp add: core_remove)
qed (rule core_on_visualization core_load_visualizations)+

lemma exec_alike:
  "alike ps qs \<Longrightarrow> sorted_posts ps \<Longrightarrow> alike (channel_exec c ps) (channel_exec c qs)"
  using counted.exec_view [of ps qs c] by (simp add: channel_exec_eq alike_def)

lemma exec_sorted: "sorted_posts ps \<Longrightarrow> sorted_posts (channel_exec c ps)"
  using chan.exec_invar [of ps c] by (simp add: channel_exec_eq)

lemma run_alike:
  "alike ps qs \<Longrightarrow> sorted_posts ps \<Longrightarrow> alike (fold channel_exec cs ps) (fold channel_exec cs qs)"
  using counted.run_view [of ps qs cs] by (simp add: channel_exec_eq alike_def)

lemma run_sorted: "sorted_posts ps \<Longrightarrow> sorted_posts (fold channel_exec cs ps)"
  using chan.run_invar [of ps cs] by (simp add: channel_exec_eq)

lemma quiet_cmds: "set cs \<subseteq> range Visual_cmd \<union> range Load_cmd \<Longrightarrow> alike (fold channel_exec cs ps) ps"
  using counted.run_unseen [of cs ps] by (simp add: channel_exec_eq alike_def)

section \<open>The hash of the posts\<close>

text \<open>The posts that the values of a hash stand for, and a list of posts that holds them.\<close>

definition sound :: "'j extern \<Rightarrow> core \<Rightarrow> (string \<rightharpoonup> string) \<Rightarrow> bool" where
  "sound L cfg M \<longleftrightarrow> (\<forall>f m. M f = Some m \<longrightarrow> (\<exists>p. node_cmds L cfg m = [Add_cmd p] \<and> p_id p = f))"

definition stored :: "'j extern \<Rightarrow> core \<Rightarrow> (string \<rightharpoonup> string) \<Rightarrow> post set" where
  "stored L cfg M = {post_core p | p f m. M f = Some m \<and> node_cmds L cfg m = [Add_cmd p]}"

definition holds :: "'j extern \<Rightarrow> core \<Rightarrow> (string \<rightharpoonup> string) \<Rightarrow> channel \<Rightarrow> bool" where
  "holds L cfg M ps \<longleftrightarrow> sorted_posts ps \<and> distinct (map p_id ps) \<and> post_core ` set ps = stored L cfg M"

lemma soundD: "sound L cfg M \<Longrightarrow> M f = Some m \<Longrightarrow> \<exists>p. node_cmds L cfg m = [Add_cmd p] \<and> p_id p = f"
  by (simp add: sound_def)

lemma stored_id: "sound L cfg M \<Longrightarrow> q \<in> stored L cfg M \<Longrightarrow> M (p_id q) \<noteq> None"
  unfolding stored_def using soundD by fastforce

lemma holds_ids: "sound L cfg M \<Longrightarrow> holds L cfg M ps \<Longrightarrow> p \<in> set ps \<Longrightarrow> M (p_id p) \<noteq> None"
  using stored_id [of L cfg M "post_core p"] unfolding holds_def by fastforce

lemma holds_alike: "alike ps qs \<Longrightarrow> holds L cfg M ps \<Longrightarrow> holds L cfg M qs"
  using alike_ids [of ps qs] alike_sorted [of ps qs] unfolding holds_def alike_def
  by (metis list.set_map)

lemma holds_empty [simp]: "holds L cfg Map.empty []"
  by (simp add: holds_def stored_def)

lemma holds_dom:
  assumes "sound L cfg M" "holds L cfg M ps"
  shows "p_id ` set ps = dom M"
proof
  show "p_id ` set ps \<subseteq> dom M" using holds_ids [OF assms] by auto
  show "dom M \<subseteq> p_id ` set ps"
  proof
    fix f assume "f \<in> dom M"
    then obtain m p where "M f = Some m" "node_cmds L cfg m = [Add_cmd p]" "p_id p = f"
      using soundD [OF assms(1)] by blast
    then have "post_core p \<in> post_core ` set ps" "p_id p = f"
      using assms(2) by (auto simp: holds_def stored_def)
    then show "f \<in> p_id ` set ps" by (metis image_iff post_core_sel(1))
  qed
qed

text \<open>Two lists that hold the posts of the same hash differ in their counters only.\<close>

lemma holds_unique:
  assumes "holds L cfg M ps" "holds L cfg M qs"
  shows "alike ps qs"
proof -
  have "inj_on p_id (set ps)" using assms(1) by (simp add: holds_def distinct_map)
  then have "inj_on p_id (post_core ` set ps)" by (auto simp: inj_on_def)
  moreover have "set (map post_core ps) = set (map post_core qs)"
    using assms by (simp add: holds_def)
  moreover have "sorted (map p_id (map post_core xs)) \<and> distinct (map p_id (map post_core xs))"
    if "holds L cfg M xs" for xs
    using that by (simp add: holds_def sorted_posts_def comp_def)
  ultimately show ?thesis
    using assms map_sorted_distinct_set_unique [of p_id "map post_core ps" "map post_core qs"]
    by (simp add: alike_def)
qed

lemma stored_upd:
  assumes "M f = None" "node_cmds L cfg m = [Add_cmd p]"
  shows "stored L cfg (M(f \<mapsto> m)) = insert (post_core p) (stored L cfg M)"
proof (intro set_eqI iffI)
  fix q assume "q \<in> stored L cfg (M(f \<mapsto> m))"
  with assms(2) show "q \<in> insert (post_core p) (stored L cfg M)"
    by (auto simp: stored_def split: if_splits)
next
  fix q assume "q \<in> insert (post_core p) (stored L cfg M)"
  then show "q \<in> stored L cfg (M(f \<mapsto> m))"
  proof
    assume "q \<in> stored L cfg M"
    then obtain r g n where "q = post_core r" "M g = Some n" "node_cmds L cfg n = [Add_cmd r]"
      by (auto simp: stored_def)
    moreover from this assms(1) have "g \<noteq> f" by auto
    ultimately show ?thesis by (auto simp: stored_def)
  qed (use assms(2) in \<open>auto simp: stored_def\<close>)
qed

lemma holds_add:
  assumes "sound L cfg M" "holds L cfg M ps" "M f = None" "node_cmds L cfg m = [Add_cmd p]" "p_id p = f"
  shows "sound L cfg (M(f \<mapsto> m)) \<and> holds L cfg (M(f \<mapsto> m)) (add_post p ps)"
proof -
  have so: "sorted_posts ps" using assms(2) by (simp add: holds_def)
  have new: "f \<notin> p_id ` set ps" using holds_ids [OF assms(1,2)] assms(3) by force
  have m: "mset (add_post p ps) = add_mset p (mset ps)"
    using mset_append [of "takeWhile (\<lambda>q. p_id q \<le> p_id p) ps" "dropWhile (\<lambda>q. p_id q \<le> p_id p) ps"]
    by (simp add: add_post_eq [OF so])
  have "set (add_post p ps) = insert p (set ps)"
    using arg_cong [OF m, of set_mset] by simp
  moreover have "distinct (map p_id (add_post p ps))"
    using assms(2,5) new arg_cong [OF m, of "image_mset p_id"]
    by (metis distinct.simps(2) holds_def image_set list.simps(9) mset.simps(2) mset_eq_imp_distinct_iff mset_map)
  ultimately show ?thesis
    using assms sorted_add_post [OF so] stored_upd [where M = M and f = f, OF assms(3,4)]
    by (auto simp: holds_def sound_def)
qed

lemma stored_del:
  assumes "sound L cfg M"
  shows "stored L cfg (M(f := None)) = {q \<in> stored L cfg M. p_id q \<noteq> f}"
proof (intro set_eqI iffI)
  fix q assume "q \<in> stored L cfg (M(f := None))"
  then obtain p g m where "q = post_core p" "g \<noteq> f" "M g = Some m" "node_cmds L cfg m = [Add_cmd p]"
    by (auto simp: stored_def split: if_splits)
  with soundD [OF assms, of g m] show "q \<in> {q \<in> stored L cfg M. p_id q \<noteq> f}"
    by (auto simp: stored_def)
next
  fix q assume "q \<in> {q \<in> stored L cfg M. p_id q \<noteq> f}"
  then obtain p g m where "q = post_core p" "p_id p \<noteq> f" "M g = Some m" "node_cmds L cfg m = [Add_cmd p]"
    by (auto simp: stored_def)
  moreover from this soundD [OF assms, of g m] have "g \<noteq> f" by auto
  ultimately show "q \<in> stored L cfg (M(f := None))" by (auto simp: stored_def)
qed

text \<open>The author of the post stored in a field, or the administrator, may remove it.\<close>

definition entitled :: "'j extern \<Rightarrow> core \<Rightarrow> string option \<Rightarrow> string \<Rightarrow> bool" where
  "entitled L cfg v a \<longleftrightarrow>
     (\<forall>m p. v = Some m \<longrightarrow> node_cmds L cfg m = [Add_cmd p] \<longrightarrow> a = p_from p \<or> a = c_chat_admin_id cfg)"

lemma core_filter: "post_core ` {q \<in> X. p_id q \<noteq> f} = {q \<in> post_core ` X. p_id q \<noteq> f}"
  by auto

lemma holds_remove:
  assumes "sound L cfg M" "holds L cfg M ps" "entitled L cfg (M f) a"
  shows "sound L cfg (M(f := None)) \<and>
    holds L cfg (M(f := None)) (snd (remove_post f a (a = c_chat_admin_id cfg) ps))"
proof -
  let ?rest = "snd (remove_post f a (a = c_chat_admin_id cfg) ps)"
  have ps: "sorted_posts ps" "distinct (map p_id ps)" "post_core ` set ps = stored L cfg M"
    using assms(2) by (simp_all add: holds_def)
  have "sound L cfg (M(f := None))" using assms(1) by (simp add: sound_def)
  moreover have "sorted_posts ?rest" using exec_sorted [OF ps(1), of "Remove_cmd f a (a = c_chat_admin_id cfg)"]
    by simp
  moreover have "distinct (map p_id ?rest) \<and> post_core ` set ?rest = {q \<in> stored L cfg M. p_id q \<noteq> f}"
  proof (cases "List.find (\<lambda>p. p_id p = f) ps")
    case None
    then have "f \<notin> p_id ` set ps" by (auto simp: find_None_iff)
    then have "\<forall>q \<in> post_core ` set ps. p_id q \<noteq> f" by auto
    with None ps show ?thesis by (simp add: remove_post_find) blast
  next
    case (Some r)
    then have r: "r \<in> set ps" "p_id r = f" by (auto simp: find_Some_iff)
    then have "post_core r \<in> stored L cfg M" using ps(3) by blast
    then obtain p g m where "post_core r = post_core p" "M g = Some m" "node_cmds L cfg m = [Add_cmd p]"
      by (auto simp: stored_def)
    moreover from this have "p_from r = p_from p" "p_id r = p_id p"
      by (metis post_core_sel(2), metis post_core_sel(1))
    moreover from calculation soundD [OF assms(1), of g m] r(2) have "g = f" by auto
    ultimately have "a = p_from r \<or> a = c_chat_admin_id cfg" using assms(3) by (auto simp: entitled_def)
    with Some have rest: "?rest = remove1 r ps" by (auto simp: remove_post_find)
    have d: "distinct ps" "inj_on p_id (set ps)" using ps(2) by (simp_all add: distinct_map)
    then have "set ?rest = {q \<in> set ps. p_id q \<noteq> f}" using r rest by (auto dest: inj_onD)
    then have "post_core ` set ?rest = {q \<in> post_core ` set ps. p_id q \<noteq> f}"
      by (simp only: core_filter)
    moreover have "distinct (map p_id ?rest)"
      unfolding rest distinct_map
      by (intro conjI distinct_remove1 [OF d(1)] inj_on_subset [OF d(2) set_remove1_subset])
    ultimately show ?thesis using ps(3) by simp
  qed
  ultimately show ?thesis by (simp add: holds_def stored_del [OF assms(1)])
qed

text \<open>Loading the values of a hash, in any order.\<close>

definition load_cmds :: "'j extern \<Rightarrow> core \<Rightarrow> string list \<Rightarrow> store_cmd list" where
  "load_cmds L cfg ms = concat (map (node_cmds L cfg) ms)"

lemma holds_load:
  assumes "distinct (map fst xs)" "sound L cfg (map_of xs)"
  shows "holds L cfg (map_of xs) (fold channel_exec (load_cmds L cfg (map snd (rev xs))) [])"
  using assms
proof (induction xs)
  case (Cons x xs)
  obtain f m where x: "x = (f, m)" by fastforce
  have new: "map_of xs f = None" using Cons.prems(1) by (simp add: x map_of_eq_None_iff)
  have "sound L cfg (map_of xs)"
    unfolding sound_def
  proof (intro allI impI)
    fix g n assume "map_of xs g = Some n"
    with new have "map_of (x # xs) g = Some n" by (auto simp: x)
    with Cons.prems(2) show "\<exists>p. node_cmds L cfg n = [Add_cmd p] \<and> p_id p = g" by (rule soundD)
  qed
  moreover obtain p where "node_cmds L cfg m = [Add_cmd p]" "p_id p = f"
    using soundD [OF Cons.prems(2), of f m] by (auto simp: x)
  moreover have "distinct (map fst xs)" using Cons.prems(1) by simp
  ultimately show ?case
    using Cons.IH holds_add [of L cfg "map_of xs" _ f m p] new
    by (simp add: x load_cmds_def fun_upd_def)
qed (simp add: load_cmds_def)

lemma map_of_rev_distinct:
  assumes "distinct (map fst xs)"
  shows "distinct (map fst (rev xs)) \<and> map_of (rev xs) = map_of xs"
proof -
  have d: "distinct (map fst (rev xs))" using assms by (simp flip: rev_map)
  have "map_of (rev xs) k = Some v \<longleftrightarrow> map_of xs k = Some v" for k v
    using map_of_eq_Some_iff [OF d] map_of_eq_Some_iff [OF assms] by simp
  then have "map_of (rev xs) k = map_of xs k" for k by (metis option.exhaust)
  with d show ?thesis by blast
qed

lemma holds_load_any:
  assumes "distinct (map fst xs)" "sound L cfg (map_of xs)"
  shows "holds L cfg (map_of xs) (fold channel_exec (load_cmds L cfg (map snd xs)) [])"
  using holds_load [of "rev xs" L cfg] assms map_of_rev_distinct [OF assms(1)] by simp

end
