(* ===== verification/Post_Feed.thy ===== *)
theory Post_Feed
  imports Post_Writes Stored_Posts
begin

text \<open>
  How posts reach the nodes of a cluster: redis keeps them in a hash, answers a node that asks for
  its values, and sends every message of the posts channel to the nodes that are subscribed, all on
  one connection per node and in order. What a node holds is what all that was sent to it amounts
  to.
\<close>

section \<open>What a node makes of what redis sends\<close>

fun post_cmds :: "'j extern \<Rightarrow> core \<Rightarrow> db_event \<Rightarrow> store_cmd list" where
  "post_cmds L cfg (Hvals ms) = load_cmds L cfg ms"
| "post_cmds L cfg (Push v) =
     (if length v = 3 \<and> v ! 0 = ''message'' \<and> v ! 1 = posts_channel cfg
      then node_cmds L cfg (v ! 2) else [])"
| "post_cmds L cfg d = []"

text \<open>The events that carry posts.\<close>

fun carries :: "core \<Rightarrow> event \<Rightarrow> bool" where
  "carries cfg (E_db now (Hvals ms)) = True"
| "carries cfg (E_db now (Push v)) = (length v = 3 \<and> v ! 0 = ''message'' \<and> v ! 1 = posts_channel cfg)"
| "carries cfg e = False"

lemma fold_concat_map: "fold f (concat (map g xs)) a = fold (\<lambda>x. fold f (g x)) xs a"
  by (induction xs arbitrary: a) simp_all

lemma hvals_load: "posts (on_hvals L cfg now ms w) = fold channel_exec (load_cmds L cfg ms) (posts w)"
  by (simp add: hvals_posts load_cmds_def fold_concat_map)

lemma on_db_event_posts:
  assumes "separate_keys cfg" "jparse L ''rpush'' = None"
  shows "alike (posts (on_db_event L cfg now d w)) (fold channel_exec (post_cmds L cfg d) (posts w))"
proof (cases d)
  case (Hgetall t l v)
  then show ?thesis
    by (auto simp: on_hgetall_def Let_def alike_def core_load_visualizations split: option.split)
next
  case (Push v)
  have "node_cmds L cfg ''rpush'' = []" using assms(2) by (simp add: node_cmds_def)
  moreover have "take (length (r_presence_channel_prefix (c_redis cfg))) (posts_channel cfg) \<noteq>
      r_presence_channel_prefix (c_redis cfg)"
    using assms(1) unfolding separate_keys_def by (metis take_is_prefix)
  moreover have "posts (on_db_presence u m w) = posts w" for u m
    by (simp add: on_db_presence_def split: option.split)
  ultimately show ?thesis
    by (auto simp: Push on_push_def Let_def on_db_channel_post_def channel_post_cmds split: option.split)
qed (simp_all add: hvals_load on_hello_def)

section \<open>Nodes, redis and what is under way\<close>

text \<open>
  The contents of the hashes of redis, a function of what it has executed, as lists of fields and
  values; the documented behaviour of HSET, HDEL, DEL and EXPIRE on them.
\<close>

type_synonym hashes = "redis_op list \<Rightarrow> string \<Rightarrow> (string \<times> string) list"

fun hash_effect :: "string \<Rightarrow> redis_op \<Rightarrow> (string \<rightharpoonup> string) \<Rightarrow> (string \<rightharpoonup> string)" where
  "hash_effect k (Exec i (R_hset key fs)) M = (if key = k then M ++ map_of (rev fs) else M)"
| "hash_effect k (Exec i (R_hdel key fs)) M = (if key = k then M |` (- set fs) else M)"
| "hash_effect k (Exec i (R_del key)) M = (if key = k then Map.empty else M)"
| "hash_effect k (Exec i (R_expire key t)) M = (if key = k \<and> sint t \<le> 0 then Map.empty else M)"
| "hash_effect k (Expired key) M = (if key = k then Map.empty else M)"
| "hash_effect k _ M = M"

text \<open>Commands that use a key for another type, or read its values as numbers.\<close>

fun not_hash :: "string \<Rightarrow> redis_op \<Rightarrow> bool" where
  "not_hash k (Exec i (R_rpush key ms)) = (key = k)"
| "not_hash k (Exec i (R_incr key)) = (key = k)"
| "not_hash k (Exec i (R_hincrby key f n)) = (key = k)"
| "not_hash k _ = False"

definition hset_laws :: "hashes \<Rightarrow> bool" where
  "hset_laws H \<longleftrightarrow> (\<forall>k hist. list_all (\<lambda>op. \<not> not_hash k op) hist \<longrightarrow>
     distinct (map fst (H hist k)) \<and>
     (\<forall>log op. hist = log @ [op] \<longrightarrow> map_of (H hist k) = hash_effect k op (map_of (H log k))))"

lemma hash_snoc:
  assumes "hset_laws H" "list_all (\<lambda>op. \<not> not_hash k op) (log @ [op])"
  shows "map_of (H (log @ [op]) k) = hash_effect k op (map_of (H log k))"
  using assms unfolding hset_laws_def by blast

text \<open>Whether a node is subscribed to the posts channel, and what redis sends a node when it executes
  a command: the values of a hash to the node that asked, a message to all that are subscribed.\<close>

fun subscription :: "core \<Rightarrow> nat \<Rightarrow> redis_op \<Rightarrow> bool \<Rightarrow> bool" where
  "subscription cfg i (Exec j (R_subscribe c)) b = (b \<or> j = i \<and> c = posts_channel cfg)"
| "subscription cfg i (Exec j (R_unsubscribe c)) b = (b \<and> \<not> (j = i \<and> c = posts_channel cfg))"
| "subscription cfg i _ b = b"

definition listening :: "core \<Rightarrow> nat \<Rightarrow> redis_op list \<Rightarrow> bool" where
  "listening cfg i log = fold (subscription cfg i) log False"

fun sent :: "hashes \<Rightarrow> core \<Rightarrow> nat \<Rightarrow> redis_op list \<Rightarrow> redis_op \<Rightarrow> db_event list" where
  "sent H cfg i log (Exec j (R_hvals key)) = (if j = i then [Hvals (map snd (H log key))] else [])"
| "sent H cfg i log (Exec j (R_publish c m)) =
     (if c = posts_channel cfg \<and> listening cfg i log then [Push [''message'', c, m]] else [])"
| "sent H cfg i log _ = []"

text \<open>\<open>inbox Y i\<close>: what redis has sent to node \<open>i\<close> on the connection of the node and the node has not
  read, in order.\<close>

record feed =
  body :: cluster
  inbox :: "nat \<Rightarrow> db_event list"

inductive feed_step ::
  "'j extern \<Rightarrow> core \<Rightarrow> redis \<Rightarrow> hashes \<Rightarrow> feed \<Rightarrow> cl_event \<Rightarrow> feed \<Rightarrow> bool" for L cfg R H Y where
  f_redis: "cl_step L cfg R (body Y) e X \<Longrightarrow> rlog X = rlog (body Y) @ [op] \<Longrightarrow>
     feed_step L cfg R H Y e
       \<lparr> body = X, inbox = (\<lambda>i. inbox Y i @ sent H cfg i (rlog (body Y)) op) \<rparr>"
| f_feed: "inbox Y i = d # ds \<Longrightarrow> cl_step L cfg R (body Y) (Node_event i (E_db now d)) X \<Longrightarrow>
     feed_step L cfg R H Y (Node_event i (E_db now d)) \<lparr> body = X, inbox = (inbox Y)(i := ds) \<rparr>"
| f_node: "cl_step L cfg R (body Y) (Node_event i e) X \<Longrightarrow> \<not> carries cfg e \<Longrightarrow>
     feed_step L cfg R H Y (Node_event i e) \<lparr> body = X, inbox = inbox Y \<rparr>"

inductive feed_run ::
  "'j extern \<Rightarrow> core \<Rightarrow> redis \<Rightarrow> hashes \<Rightarrow> cl_event list \<Rightarrow> feed \<Rightarrow> bool" for L cfg R H where
  f_start: "feed_run L cfg R H [] \<lparr> body = init_cluster, inbox = (\<lambda>_. []) \<rparr>"
| f_step: "feed_run L cfg R H es Y \<Longrightarrow> feed_step L cfg R H Y e Y' \<Longrightarrow> feed_run L cfg R H (es @ [e]) Y'"

lemma feed_body: "feed_run L cfg R H es Y \<Longrightarrow> cl_run L cfg R es (body Y)"
proof (induction rule: feed_run.induct)
  case (f_step es Y e Y')
  then have "cl_step L cfg R (body Y) e (body Y')" by (auto elim: feed_step.cases)
  with f_step.IH show ?case by (rule cl_run.c_step)
qed (simp add: cl_run.c_start)

section \<open>A node replays what it is sent\<close>

lemma cl_node_step:
  assumes "cl_step L cfg R X (Node_event i e) X'"
  shows "sys_step L cfg (member X i) e (member X' i)" "rlog X' = rlog X"
    "j \<noteq> i \<Longrightarrow> member X' j = member X j"
  using assms by (auto elim: cl_step.cases)

lemma cl_redis_step: "cl_step L cfg R X e X' \<Longrightarrow> rlog X' = rlog X @ [op] \<Longrightarrow> member X' = member X"
  by (auto elim!: cl_step.cases simp: redis_executes_def)

abbreviation posts_of :: "feed \<Rightarrow> nat \<Rightarrow> channel" where
  "posts_of Y i \<equiv> posts (wk (member (body Y) i))"

definition replay :: "'j extern \<Rightarrow> core \<Rightarrow> db_event list \<Rightarrow> channel \<Rightarrow> channel" where
  "replay L cfg ds ps = fold channel_exec (concat (map (post_cmds L cfg) ds)) ps"

lemma replay_simps [simp]:
  "replay L cfg [] ps = ps"
  "replay L cfg (d # ds) ps = replay L cfg ds (fold channel_exec (post_cmds L cfg d) ps)"
  "replay L cfg (xs @ ys) ps = replay L cfg ys (replay L cfg xs ps)"
  by (simp_all add: replay_def)

lemma replay_alike: "alike ps qs \<Longrightarrow> sorted_posts ps \<Longrightarrow> alike (replay L cfg ds ps) (replay L cfg ds qs)"
  by (simp add: replay_def run_alike)

lemma replay_sorted: "sorted_posts ps \<Longrightarrow> sorted_posts (replay L cfg ds ps)"
  by (simp add: replay_def run_sorted)

lemma step_alike:
  assumes "json_laws L" "separate_keys cfg" "jparse L ''rpush'' = None" "sys_run L cfg es S"
    "sys_step L cfg S e S'"
  shows "e = E_db now d \<Longrightarrow> alike (posts (wk S')) (fold channel_exec (post_cmds L cfg d) (posts (wk S)))"
    "\<not> carries cfg e \<Longrightarrow> alike (posts (wk S')) (posts (wk S))"
proof -
  have db: "alike (posts (wk S')) (fold channel_exec (post_cmds L cfg d) (posts (wk S)))"
    if "e = E_db now d" for now d
  proof -
    from assms(5) that have "wk S' = on_db_event L cfg now d (wk S)" by cases auto
    with on_db_event_posts [OF assms(2,3)] show ?thesis by simp
  qed
  then show "e = E_db now d \<Longrightarrow> alike (posts (wk S')) (fold channel_exec (post_cmds L cfg d) (posts (wk S)))" .
  assume c: "\<not> carries cfg e"
  show "alike (posts (wk S')) (posts (wk S))"
  proof (cases "\<exists>now d. e = E_db now d")
    case True
    then obtain now d where e: "e = E_db now d" by blast
    with c have "post_cmds L cfg d = []" by (cases d) auto
    with db [OF e] show ?thesis by simp
  next
    case False
    then have "event_cmds L cfg e = {}" by (cases e) auto
    with step_posts [OF assms(1) sinv_sys_run [OF assms(1,4)] assms(5)] show ?thesis by auto
  qed
qed

text \<open>What a node holds, with what it has not read yet, is what all that was sent to it amounts to.\<close>

lemma feed_replay:
  assumes "json_laws L" "separate_keys cfg" "jparse L ''rpush'' = None" "feed_run L cfg R H es Y"
  shows "alike (replay L cfg (inbox Y i) (posts_of Y i)) (replay L cfg (scan (sent H cfg i) (rlog (body Y))) [])"
  using assms(4)
proof (induction arbitrary: i)
  case f_start
  show ?case by (simp add: init_cluster_def init_sys_def init_worker_def)
next
  case (f_step es Y e Y')
  have run: "sys_run L cfg (events_of i es) (member (body Y) i)" for i
    by (rule member_run [OF feed_body [OF f_step.hyps(1)]])
  note so = node_sorted [OF assms(1) run]
  note st = step_alike [OF assms(1-3) run]
  from f_step.hyps(2) show ?case
  proof cases
    case (f_redis X op)
    with cl_redis_step [OF f_redis(2,3)] replay_alike [OF f_step.IH replay_sorted [OF so]] show ?thesis
      by simp
  next
    case (f_feed j d ds now X)
    note c = cl_node_step [OF f_feed(4)]
    have "alike (replay L cfg ds (posts (wk (member X j)))) (replay L cfg (inbox Y j) (posts_of Y j))"
      using alike_sym [OF replay_alike [OF alike_sym [OF st(1) [OF c(1) refl]] run_sorted [OF so], of L cfg ds]]
      by (simp add: f_feed(3))
    with f_step.IH [of i] c f_feed(2) show ?thesis by (cases "i = j") (auto intro: alike_trans)
  next
    case (f_node j e X)
    note c = cl_node_step [OF f_node(3)]
    have "alike (replay L cfg (inbox Y j) (posts (wk (member X j)))) (replay L cfg (inbox Y j) (posts_of Y j))"
      using replay_alike [OF alike_sym [OF st(2) [OF c(1) f_node(4)]] so] by (rule alike_sym)
    with f_step.IH [of i] c f_node(2) show ?thesis by (cases "i = j") (auto intro: alike_trans)
  qed
qed

section \<open>An instance of the hashes\<close>

fun list_effect :: "string \<Rightarrow> redis_op \<Rightarrow> (string \<times> string) list \<Rightarrow> (string \<times> string) list" where
  "list_effect k (Exec i (R_hset key fs)) xs =
     (if key = k then fold (\<lambda>(f, v). AList.update f v) fs xs else xs)"
| "list_effect k (Exec i (R_hdel key fs)) xs = (if key = k then filter (\<lambda>(f, v). f \<notin> set fs) xs else xs)"
| "list_effect k (Exec i (R_del key)) xs = (if key = k then [] else xs)"
| "list_effect k (Exec i (R_expire key t)) xs = (if key = k \<and> sint t \<le> 0 then [] else xs)"
| "list_effect k (Expired key) xs = (if key = k then [] else xs)"
| "list_effect k _ xs = xs"

definition ref_hashes :: hashes where
  "ref_hashes = (\<lambda>hist k. fold (list_effect k) hist [])"

lemma map_of_updates:
  "map_of (fold (\<lambda>(f, v). AList.update f v) fs xs) = map_of xs ++ map_of (rev fs)"
proof (induction fs arbitrary: xs)
  case (Cons x fs)
  obtain f v where x: "x = (f, v)" by fastforce
  show ?case
    by (simp add: x Cons.IH update_conv' fun_eq_iff map_add_def split: option.split)
qed simp

lemma distinct_updates:
  "distinct (map fst xs) \<Longrightarrow> distinct (map fst (fold (\<lambda>(f, v). AList.update f v) fs xs))"
  by (induction fs arbitrary: xs) (auto simp: distinct_update)

lemma map_of_without: "map_of (filter (\<lambda>(f, v). f \<notin> F) xs) = map_of xs |` (- F)"
  by (induction xs) (auto simp: restrict_map_def)

lemma list_effect_correct:
  "map_of (list_effect k op xs) = hash_effect k op (map_of xs)"
  "distinct (map fst xs) \<Longrightarrow> distinct (map fst (list_effect k op xs))"
  by (cases "(k, op, xs)" rule: list_effect.cases;
      auto simp: map_of_updates distinct_updates map_of_without distinct_map_filter)+

lemma ref_hashes_laws: "hset_laws ref_hashes"
proof -
  have "distinct (map fst (ref_hashes hist k))" for hist k
    by (induction hist rule: rev_induct) (simp_all add: ref_hashes_def list_effect_correct)
  then show ?thesis by (simp add: hset_laws_def ref_hashes_def list_effect_correct)
qed

section \<open>Runs\<close>

text \<open>A state in which no answer to LRANGE is outstanding, and how runs reach such states.\<close>

definition at :: "(nat \<Rightarrow> sys) \<Rightarrow> redis_op list \<Rightarrow> (nat \<Rightarrow> db_event list) \<Rightarrow> feed" where
  "at m log ib = \<lparr> body = \<lparr> member = m, rlog = log, answers = (\<lambda>_. []) \<rparr>, inbox = ib \<rparr>"

lemma at_sel [simp]:
  "member (body (at m log ib)) = m" "rlog (body (at m log ib)) = log" "inbox (at m log ib) = ib"
  by (simp_all add: at_def)

definition reached :: "'j extern \<Rightarrow> core \<Rightarrow> redis \<Rightarrow> hashes \<Rightarrow> feed \<Rightarrow> bool" where
  "reached L cfg R H Y \<longleftrightarrow> (\<exists>es. feed_run L cfg R H es Y)"

lemma reached_start: "reached L cfg R H (at (\<lambda>_. init_sys) [] (\<lambda>_. []))"
  unfolding reached_def at_def using f_start [of L cfg R H] by (auto simp: init_cluster_def)

lemma reached_turn:
  assumes "reached L cfg R H (at m log ib)" "drop (length (cmds_of i log)) (redis_out (wk (m i))) = c # cs"
    "\<not> reads (Exec i c)"
  shows "reached L cfg R H (at m (log @ [Exec i c]) (\<lambda>j. ib j @ sent H cfg j log (Exec i c)))"
proof -
  let ?n = "length (cmds_of i log)" and ?out = "redis_out (wk (m i))"
  have n: "?n < length ?out" using arg_cong [OF assms(2), of length] by simp
  then have "c = ?out ! ?n" using assms(2) by (metis Cons_nth_drop_Suc list.inject)
  moreover have "redis_executes R i c (body (at m log ib)) = body (at m (log @ [Exec i c]) ib)"
    using assms(3) by (cases c) (simp_all add: redis_executes_def at_def)
  ultimately have "cl_step L cfg R (body (at m log ib)) (Redis_executes i) (body (at m (log @ [Exec i c]) ib))"
    using c_redis [of i "body (at m log ib)" c L cfg R] n by simp
  from f_redis [OF this, of "Exec i c" H] assms(1) show ?thesis
    unfolding reached_def by (auto simp: at_def intro: f_step)
qed

lemma reached_turnI:
  assumes "reached L cfg R H (at m log ib)" "drop (length (cmds_of i log)) (redis_out (wk (m i))) = c # cs"
    "\<not> reads (Exec i c)" "\<And>j. ib' j = ib j @ sent H cfg j log (Exec i c)"
  shows "reached L cfg R H (at m (log @ [Exec i c]) ib')"
proof -
  have "ib' = (\<lambda>j. ib j @ sent H cfg j log (Exec i c))" using assms(4) by blast
  with reached_turn [OF assms(1-3)] show ?thesis by simp
qed

lemma reached_node:
  assumes "reached L cfg R H (at m log ib)" "sys_step L cfg (m i) e S" "\<not> is_answer e" "\<not> carries cfg e"
  shows "reached L cfg R H (at (m(i := S)) log ib)"
proof -
  have "cl_step L cfg R (body (at m log ib)) (Node_event i e) (body (at (m(i := S)) log ib))"
    using c_node [of L cfg "body (at m log ib)" i e S R] assms(2,3) by (simp add: at_def)
  from f_node [OF this assms(4), of H] assms(1) show ?thesis
    unfolding reached_def by (auto simp: at_def intro: f_step)
qed

lemma reached_read:
  assumes "reached L cfg R H (at m log ib)" "ib i = d # ds" "\<not> crashed (wk (m i))"
  shows "reached L cfg R H (at (m(i := (m i)\<lparr>wk := on_db_event L cfg now d (wk (m i))\<rparr>)) log (ib(i := ds)))"
proof -
  let ?S = "(m i)\<lparr>wk := on_db_event L cfg now d (wk (m i))\<rparr>"
  have "cl_step L cfg R (body (at m log ib)) (Node_event i (E_db now d)) (body (at (m(i := ?S)) log ib))"
    using c_node [of L cfg "body (at m log ib)" i "E_db now d" ?S R] s_db [OF assms(3), of L cfg now d]
    by (simp add: at_def)
  from f_feed [OF _ this, of ds H] assms(1,2) show ?thesis
    unfolding reached_def by (auto simp: at_def intro: f_step)
qed

end
