(* ===== verification/Post_Runs.thy ===== *)
theory Post_Runs
  imports Post_Feed
begin

text \<open>
  Two nodes on the reference library: one has started and a client has published a post on it, the
  other is starting. The runs in which the four commands that are left are executed in different
  orders; theory Replicas says what the starting node holds after each.
\<close>

section \<open>A post is published while a node starts\<close>

definition starting :: sys where
  "starting = init_sys\<lparr>wk := on_hello sample_core init_worker\<rparr>"

definition publish_req :: request where
  "publish_req = \<lparr> q_method = Verb_post, q_target = ''/posts/publish'', q_body = enc publish_json, q_upgrade = False \<rparr>"

definition new_post :: post where
  "new_post = sample_post\<lparr>p_images := map strip_query (p_images sample_post), p_from := sample_id ''ann'',
     p_date := 7, p_id := fst (pwd_make ref_lib (c_pwd_size sample_core) 0), p_visualizations := 0\<rparr>"

definition new_msg :: string where
  "new_msg = enc (publish_internal ref_lib new_post)"

definition publishing :: sys where
  "publishing = http_request ref_lib sample_core 7 0 Read_ok publish_req
     (starting\<lparr>wk := on_hgetall False False [] (on_hvals ref_lib sample_core 0 [] (wk starting))\<rparr>)"

abbreviation (input) pk :: string where "pk \<equiv> posts_key sample_core"
abbreviation (input) ch :: string where "ch \<equiv> posts_channel sample_core"

lemma new_msg_cmds: "node_cmds ref_lib sample_core new_msg = [Add_cmd new_post]"
proof -
  have "from_json ref_lib (to_json ref_lib sample_post) =
      Some (sample_post\<lparr>p_images := map strip_query (p_images sample_post)\<rparr>)"
    by (rule from_to_json [OF ref_json_laws])
  from strip_from_json [OF this] have "new_post\<lparr>p_images := map strip_query (p_images new_post)\<rparr> = new_post"
    by (simp add: new_post_def)
  moreover have "jdump ref_lib (publish_internal ref_lib new_post) = Some new_msg"
    by (simp add: new_msg_def)
  ultimately show ?thesis using node_cmds_publish [OF ref_json_laws, of new_post new_msg sample_core] by simp
qed

lemma starting_out: "redis_out (wk starting) = [R_hvals pk, R_subscribe ch]" "\<not> crashed (wk starting)"
  "posts (wk starting) = []" "gen (wk starting) = 0"
  by (simp_all add: starting_def on_hello_def init_worker_def)

lemma hgetall_sel:
  "redis_out (on_hgetall t l v w) = redis_out w" "gen (on_hgetall t l v w) = gen w"
  by (simp_all add: on_hgetall_def Let_def split: option.split)

lemma publish_sends:
  assumes "at_str L j ''user'' = Some user" "at_str L j ''key'' = Some key" "make_hex_digest L user key = u"
    "u \<noteq> ''''" "Option.bind (jat L j ''post'') (from_json L) = Some p"
    "jdump L (publish_internal L (p\<lparr>p_from := u, p_date := now,
       p_id := fst (pwd_make L (c_pwd_size cfg) (gen w)), p_visualizations := 0\<rparr>)) = Some msg"
  shows "redis_out (snd (on_publish_impl L cfg now j w)) = redis_out w @
    [ R_hset (posts_key cfg) [(fst (pwd_make L (c_pwd_size cfg) (gen w)), msg)],
      R_publish (posts_channel cfg) msg ]"
  using assms by (auto simp: on_publish_impl_def Let_def split: prod.split)

lemma publish_body:
  assumes "q_method req = Verb_post" "q_target req = ''/posts/publish''" "\<not> q_upgrade req"
    "jparse L (q_body req) = Some j"
  shows "wk (http_request L cfg now ret0 Read_ok req S) = snd (on_publish_impl L cfg now j (wk S))"
  using assms
  by (simp add: http_request_def http_on_read_def process_request_def post_handler_def route_matches_def
      post_publish_handler_def Let_def split: prod.split option.split)

lemma publishing_out:
  "redis_out (wk publishing) = [R_hvals pk, R_subscribe ch,
     R_hgetall (r_post_visualizations_key (c_redis sample_core)), R_hset pk [(p_id new_post, new_msg)],
     R_publish ch new_msg]"
proof -
  let ?w = "on_hgetall False False [] (on_hvals ref_lib sample_core 0 [] (wk starting))"
  have w: "redis_out ?w = [R_hvals pk, R_subscribe ch, R_hgetall (r_post_visualizations_key (c_redis sample_core))]"
    "gen ?w = 0"
    by (simp_all add: hgetall_sel on_hvals_def starting_out)
  have at: "at_str ref_lib publish_json ''user'' = Some ''ann''"
    "at_str ref_lib publish_json ''key'' = Some (replicate 32 CHR ''k'')"
    "jat ref_lib publish_json ''post'' = Some (to_json ref_lib sample_post)"
    by (simp_all add: publish_json_def at_str_def)
  have post: "Option.bind (jat ref_lib publish_json ''post'') (from_json ref_lib) =
      Some (sample_post\<lparr>p_images := map strip_query (p_images sample_post)\<rparr>)"
    by (simp only: at bind.simps from_to_json [OF ref_json_laws])
  have "(sample_post\<lparr>p_images := map strip_query (p_images sample_post)\<rparr>)\<lparr>p_from := sample_id ''ann'',
      p_date := 7, p_id := fst (pwd_make ref_lib (c_pwd_size sample_core) (gen ?w)), p_visualizations := 0\<rparr>
      = new_post" "p_id new_post = fst (pwd_make ref_lib (c_pwd_size sample_core) (gen ?w))"
    unfolding w(2) new_post_def by simp_all
  moreover have "jdump ref_lib (publish_internal ref_lib new_post) = Some new_msg"
    by (simp only: new_msg_def ref_lib_sel)
  moreover have "sample_id ''ann'' \<noteq> ''''" by simp
  ultimately have "redis_out (snd (on_publish_impl ref_lib sample_core 7 publish_json ?w)) =
      redis_out ?w @ [R_hset pk [(p_id new_post, new_msg)], R_publish ch new_msg]"
    using publish_sends [OF at(1,2) sample_id_def [symmetric] _ post, where now = 7 and cfg = sample_core and w = ?w and msg = new_msg]
    by (simp only: not_False_eq_True)
  moreover have "wk publishing = snd (on_publish_impl ref_lib sample_core 7 publish_json ?w)"
    unfolding publishing_def by (subst publish_body [of _ _ publish_json]) (simp_all add: publish_req_def)
  ultimately show ?thesis using w(1) by simp
qed

text \<open>Node 1 has started and a client has published on it; node 0 is starting. Redis has executed
  what node 1 needed to start.\<close>

definition started_log :: "redis_op list" where
  "started_log = map (Exec 1) [R_hvals pk, R_subscribe ch, R_hgetall (r_post_visualizations_key (c_redis sample_core))]"

definition two_of :: "nat \<Rightarrow> sys" where
  "two_of = (\<lambda>_. init_sys)(1 := publishing, 0 := starting)"

lemma hello_step: "sys_step ref_lib sample_core init_sys (E_db 0 Hello) starting"
  using s_db [of init_sys ref_lib sample_core 0 Hello]
  by (simp add: starting_def init_sys_def init_worker_def)

lemma two_reached:
  assumes "hset_laws H" "H [] pk = []"
  shows "reached ref_lib sample_core R H (at two_of started_log (\<lambda>_. []))"
proof -
  let ?r = "reached ref_lib sample_core R H"
  let ?v = "on_hvals ref_lib sample_core 0 [] (wk starting)" and ?g = "R_hgetall (r_post_visualizations_key (c_redis sample_core))"
  let ?S = "starting\<lparr>wk := ?v\<rparr>" and ?T = "starting\<lparr>wk := on_hgetall False False [] ?v\<rparr>"
  have v: "redis_out ?v = [R_hvals pk, R_subscribe ch, ?g]" "\<not> crashed ?v"
    by (simp_all add: on_hvals_def starting_out)
  have T: "\<not> crashed (wk ?T)" using v(2) by (simp add: on_hgetall_def acceptor_run_def Let_def split: option.split)
  have "?r (at ((\<lambda>_. init_sys)(1 := starting)) [] (\<lambda>_. []))"
    by (rule reached_node [OF reached_start hello_step]) simp_all
  from reached_turnI [OF this, of 1 "R_hvals pk" _ "(\<lambda>_. [])(1 := [Hvals []])"]
  have "?r (at ((\<lambda>_. init_sys)(1 := starting)) [Exec 1 (R_hvals pk)] ((\<lambda>_. [])(1 := [Hvals []])))"
    using assms(2) by (simp add: starting_out)
  from reached_turnI [OF this, of 1 "R_subscribe ch" _ "(\<lambda>_. [])(1 := [Hvals []])"]
  have "?r (at ((\<lambda>_. init_sys)(1 := starting)) [Exec 1 (R_hvals pk), Exec 1 (R_subscribe ch)] ((\<lambda>_. [])(1 := [Hvals []])))"
    by (simp add: starting_out)
  from reached_read [OF this, of 1 "Hvals []" "[]" 0]
  have "?r (at ((\<lambda>_. init_sys)(1 := ?S)) [Exec 1 (R_hvals pk), Exec 1 (R_subscribe ch)] (\<lambda>_. []))"
    by (simp add: starting_out fun_upd_idem)
  from reached_turnI [OF this, of 1 ?g _ "\<lambda>_. []"]
  have "?r (at ((\<lambda>_. init_sys)(1 := ?S)) started_log (\<lambda>_. []))"
    by (simp add: v(1) started_log_def)
  from reached_node [OF this, of 1 "E_db 0 (Hgetall False False [])" ?T] s_db [of ?S ref_lib sample_core 0 "Hgetall False False []"] v(2)
  have "?r (at ((\<lambda>_. init_sys)(1 := ?T)) started_log (\<lambda>_. []))" by simp
  from reached_node [OF this, of 1 "E_http 7 0 Read_ok publish_req" publishing] s_http [of ?T ref_lib sample_core 7 0 Read_ok publish_req] T
  have "?r (at ((\<lambda>_. init_sys)(1 := publishing)) started_log (\<lambda>_. []))" by (simp add: publishing_def)
  from reached_node [OF this, of 0 "E_db 0 Hello" starting] hello_step
  show ?thesis by (simp add: two_of_def)
qed

lemma hash_fold:
  assumes "hset_laws H"
  shows "list_all (\<lambda>op. \<not> not_hash k op) log \<Longrightarrow>
    map_of (H log k) = fold (hash_effect k) log (map_of (H [] k)) \<and> distinct (map fst (H log k))"
proof (induction log rule: rev_induct)
  case (snoc op log)
  with hash_snoc [OF assms snoc.prems] assms show ?case unfolding hset_laws_def by simp
qed (use assms in \<open>simp add: hset_laws_def\<close>)

lemma single_field: "distinct (map fst xs) \<Longrightarrow> map_of xs = [f \<mapsto> m] \<Longrightarrow> xs = [(f, m)]"
proof (cases xs)
  case (Cons x ys)
  assume xs: "distinct (map fst xs)" "map_of xs = [f \<mapsto> m]"
  have "[f \<mapsto> m] (fst x) = Some (snd x)" unfolding xs(2) [symmetric] by (simp add: Cons)
  then have x: "x = (f, m)" by (cases x) (auto split: if_splits)
  have "ys = []"
  proof (cases ys)
    case (Cons y zs)
    with xs(1) \<open>xs = x # ys\<close> x have y: "map_of xs (fst y) = Some (snd y)" "fst y \<noteq> f" by auto
    then have "[f \<mapsto> m] (fst y) = Some (snd y)" unfolding xs(2) [symmetric] by simp
    with y(2) show ?thesis by simp
  qed
  with x Cons show ?thesis by simp
qed (auto dest: fun_cong [where x = f])

text \<open>The posts in redis before and after the new post is stored.\<close>

definition store_op :: redis_op where
  "store_op = Exec 1 (R_hset pk [(p_id new_post, new_msg)])"

lemma hash_started:
  assumes "hset_laws H" "H [] pk = []" "set xs \<subseteq> {Exec i (R_hvals pk), Exec i (R_subscribe ch)}"
  shows "H (started_log @ xs) pk = []"
proof -
  have "list_all (\<lambda>op. \<not> not_hash pk op) (started_log @ xs)"
    using assms(3) by (auto simp: started_log_def list_all_iff)
  moreover have "fold (hash_effect pk) xs M = M" for M
    using assms(3) by (induction xs) auto
  ultimately have "map_of (H (started_log @ xs) pk) = Map.empty"
    using hash_fold [OF assms(1)] assms(2) by (simp add: started_log_def)
  then show ?thesis by simp
qed

lemma hash_published:
  assumes "hset_laws H" "H [] pk = []"
    "set xs \<subseteq> {Exec i (R_hvals pk), Exec i (R_subscribe ch)}"
    "set ys \<subseteq> {Exec i (R_hvals pk), Exec i (R_subscribe ch), Exec j (R_publish ch m)}"
  shows "H (started_log @ xs @ store_op # ys) pk = [(p_id new_post, new_msg)]"
proof -
  have "list_all (\<lambda>op. \<not> not_hash pk op) (started_log @ xs @ store_op # ys)"
    using assms(3,4) by (auto simp: started_log_def store_op_def list_all_iff)
  note H = hash_fold [OF assms(1) this]
  have "fold (hash_effect pk) xs M = M" "fold (hash_effect pk) ys M = M" for M
    using assms(3,4) by (induction xs, auto) (induction ys, auto)
  then have "map_of (H (started_log @ xs @ store_op # ys) pk) = [p_id new_post \<mapsto> new_msg]"
    using H assms(2) by (simp add: started_log_def store_op_def)
  with H show ?thesis by (intro single_field) simp_all
qed

lemma not_rpush: "jparse ref_lib ''rpush'' = None" "new_msg \<noteq> ''rpush''"
proof -
  show r: "jparse ref_lib ''rpush'' = None" by code_simp
  show "new_msg \<noteq> ''rpush''"
  proof
    assume "new_msg = ''rpush''"
    with new_msg_cmds r show False by (simp add: node_cmds_def)
  qed
qed

lemma sample_separate: "separate_keys sample_core"
  by code_simp

lemma read_values:
  "posts (on_db_event ref_lib sample_core now (Hvals [new_msg]) w) = add_post new_post (posts w)"
  "posts (on_db_event ref_lib sample_core now (Hvals []) w) = posts w"
  by (simp_all add: hvals_load load_cmds_def new_msg_cmds)

lemma read_message:
  "posts (on_db_event ref_lib sample_core now (Push [''message'', ch, new_msg]) w) = add_post new_post (posts w)"
proof -
  have "take (length (r_presence_channel_prefix (c_redis sample_core))) ch \<noteq> r_presence_channel_prefix (c_redis sample_core)"
    using sample_separate unfolding separate_keys_def by (metis take_is_prefix)
  then show ?thesis
    by (simp add: on_push_def not_rpush Let_def on_db_channel_post_def channel_post_cmds new_msg_cmds)
qed

lemma read_alive:
  "\<not> crashed w \<Longrightarrow> \<not> crashed (on_db_event ref_lib sample_core now (Hvals ms) w)"
  by (simp add: quiet_not_crashed [OF quiet_hvals [where C = UNIV]])

lemma add_twice: "add_post p [] = [p]" "add_post p [p] = [p, p]"
  by (simp_all add: add_post_eq sorted_posts_def)

text \<open>The four commands that are left, in an order in which the pairs overlap or do not: what redis
  sends node 0.\<close>

abbreviation (input) at_two :: "redis_op list \<Rightarrow> db_event list \<Rightarrow> db_event list \<Rightarrow> feed" where
  "at_two log d0 d1 \<equiv> at two_of (started_log @ log) ((\<lambda>_. [])(0 := d0, 1 := d1))"

lemma two_of_sel: "two_of 0 = starting" "two_of 1 = publishing" "two_of (Suc 0) = publishing"
  by (simp_all add: two_of_def)

lemma two_turn0:
  assumes "reached ref_lib sample_core R H (at_two log d0 d1)" "drop (length (cmds_of 0 log)) [R_hvals pk, R_subscribe ch] = c # cs"
    "d0' = d0 @ sent H sample_core 0 (started_log @ log) (Exec 0 c)"
  shows "reached ref_lib sample_core R H (at_two (log @ [Exec 0 c]) d0' d1)"
proof -
  have c: "c \<in> {R_hvals pk, R_subscribe ch}"
    using assms(2) in_set_dropD [of c] by (metis list.set_intros(1) list.set(1,2))
  have "reached ref_lib sample_core R H (at two_of ((started_log @ log) @ [Exec 0 c]) ((\<lambda>_. [])(0 := d0', 1 := d1)))"
    using c assms(3) by (intro reached_turnI [OF assms(1)])
      (auto simp: two_of_sel starting_out started_log_def assms(2))
  then show ?thesis by simp
qed

lemma two_turn1:
  assumes "reached ref_lib sample_core R H (at_two log d0 d1)"
    "drop (length (cmds_of 1 log)) [R_hset pk [(p_id new_post, new_msg)], R_publish ch new_msg] = c # cs"
    "d0' = d0 @ sent H sample_core 0 (started_log @ log) (Exec 1 c)"
    "d1' = d1 @ sent H sample_core 1 (started_log @ log) (Exec 1 c)"
    "\<And>j. 1 < j \<Longrightarrow> \<not> listening sample_core j (started_log @ log)"
  shows "reached ref_lib sample_core R H (at_two (log @ [Exec 1 c]) d0' d1')"
proof -
  have c: "c \<in> {R_hset pk [(p_id new_post, new_msg)], R_publish ch new_msg}"
    using assms(2) in_set_dropD [of c] by (metis list.set_intros(1) list.set(1,2))
  have "sent H sample_core j (started_log @ log) (Exec 1 c) = []" if "1 < j" for j
    using c assms(5) [OF that] by auto
  then have "reached ref_lib sample_core R H (at two_of ((started_log @ log) @ [Exec 1 c]) ((\<lambda>_. [])(0 := d0', 1 := d1')))"
    using c assms(2-4) by (intro reached_turnI [OF assms(1)])
      (auto simp: two_of_sel publishing_out started_log_def)
  then show ?thesis by simp
qed

abbreviation (input) new_push :: db_event where "new_push \<equiv> Push [''message'', ch, new_msg]"

abbreviation (input) announce_op :: redis_op where "announce_op \<equiv> Exec 1 (R_publish ch new_msg)"

abbreviation (input) ask_op :: redis_op where "ask_op \<equiv> Exec 0 (R_hvals pk)"

abbreviation (input) join_op :: redis_op where "join_op \<equiv> Exec 0 (R_subscribe ch)"

lemmas two_eval = started_log_def store_op_def listening_def

lemma two_start:
  "hset_laws H \<Longrightarrow> H [] pk = [] \<Longrightarrow> reached ref_lib sample_core R H (at_two [] [] [])"
  using two_reached [of H R] by (simp add: fun_upd_idem)

text \<open>The node asks for the posts, the post is stored and announced, the node subscribes.\<close>

lemma reached_between:
  assumes "hset_laws H" "H [] pk = []"
  shows "reached ref_lib sample_core R H (at_two [ask_op, store_op, announce_op, join_op] [Hvals []] [new_push])"
proof -
  note r = two_start [OF assms, of R]
  have "H started_log pk = []" using hash_started [OF assms, of "[]"] by simp
  with two_turn0 [OF r, of "R_hvals pk" "[R_subscribe ch]" "[Hvals []]"]
  have "reached ref_lib sample_core R H (at_two [ask_op] [Hvals []] [])" by simp
  from two_turn1 [OF this, of "R_hset pk [(p_id new_post, new_msg)]"]
  have "reached ref_lib sample_core R H (at_two [ask_op, store_op] [Hvals []] [])"
    by (simp add: two_eval)
  from two_turn1 [OF this, of "R_publish ch new_msg" "[]" "[Hvals []]" "[new_push]"]
  have "reached ref_lib sample_core R H (at_two [ask_op, store_op, announce_op] [Hvals []] [new_push])"
    by (simp add: two_eval)
  from two_turn0 [OF this, of "R_subscribe ch" "[]" "[Hvals []]"]
  show ?thesis by (simp add: two_eval)
qed

text \<open>The post is stored, the node asks for the posts and subscribes, the post is announced.\<close>

lemma reached_around:
  assumes "hset_laws H" "H [] pk = []"
  shows "reached ref_lib sample_core R H
    (at_two [store_op, ask_op, join_op, announce_op] [Hvals [new_msg], new_push] [new_push])"
proof -
  note r = two_start [OF assms, of R]
  from two_turn1 [OF r, of "R_hset pk [(p_id new_post, new_msg)]"]
  have "reached ref_lib sample_core R H (at_two [store_op] [] [])" by (simp add: two_eval)
  moreover have "H (started_log @ [store_op]) pk = [(p_id new_post, new_msg)]"
    using hash_published [OF assms, of "[]" 0 "[]"] by simp
  ultimately have "reached ref_lib sample_core R H (at_two [store_op, ask_op] [Hvals [new_msg]] [])"
    using two_turn0 [of R H "[store_op]" "[]" "[]" "R_hvals pk" "[R_subscribe ch]" "[Hvals [new_msg]]"]
    by (simp add: store_op_def)
  from two_turn0 [OF this, of "R_subscribe ch" "[]" "[Hvals [new_msg]]"]
  have "reached ref_lib sample_core R H (at_two [store_op, ask_op, join_op] [Hvals [new_msg]] [])"
    by (simp add: two_eval)
  then have "reached ref_lib sample_core R H
    (at_two ([store_op, ask_op, join_op] @ [announce_op]) [Hvals [new_msg], new_push] [new_push])"
    by (rule two_turn1) (simp_all add: two_eval)
  then show ?thesis by simp
qed

text \<open>The post is stored and announced, then the node asks for the posts and subscribes.\<close>

lemma reached_after:
  assumes "hset_laws H" "H [] pk = []"
  shows "reached ref_lib sample_core R H
    (at_two [store_op, announce_op, ask_op, join_op] [Hvals [new_msg]] [new_push])"
proof -
  note r = two_start [OF assms, of R]
  from two_turn1 [OF r, of "R_hset pk [(p_id new_post, new_msg)]"]
  have "reached ref_lib sample_core R H (at_two [store_op] [] [])" by (simp add: two_eval)
  from two_turn1 [OF this, of "R_publish ch new_msg" "[]" "[]" "[new_push]"]
  have "reached ref_lib sample_core R H (at_two [store_op, announce_op] [] [new_push])" by (simp add: two_eval)
  moreover have "H (started_log @ [store_op, announce_op]) pk = [(p_id new_post, new_msg)]"
    using hash_published [OF assms, of "[]" 0 "[announce_op]" 1 new_msg] by simp
  ultimately have "reached ref_lib sample_core R H (at_two [store_op, announce_op, ask_op] [Hvals [new_msg]] [new_push])"
    using two_turn0 [of R H "[store_op, announce_op]" "[]" "[new_push]" "R_hvals pk" "[R_subscribe ch]" "[Hvals [new_msg]]"]
    by (simp add: store_op_def)
  from two_turn0 [OF this, of "R_subscribe ch" "[]" "[Hvals [new_msg]]"]
  show ?thesis by (simp add: two_eval)
qed

end
