(* ===== verification/Replicas.thy ===== *)
theory Replicas
  imports Post_Runs
begin

text \<open>
  The posts that several nodes hold in memory. Redis keeps the posts in a hash and sends every
  change on the posts channel; a node loads the hash when it starts and applies the changes it is
  sent. When the pairs of commands on the posts do not overlap, all nodes that have read what they
  were sent hold the posts of the hash; when they do, a node misses a post or has it twice.
\<close>

section \<open>Orderly histories\<close>

text \<open>The commands that concern the posts: their key and their channel, and the loading of a hash.\<close>

fun touches :: "core \<Rightarrow> redis_op \<Rightarrow> bool" where
  "touches cfg (Exec i (R_hset key fs)) = (key = posts_key cfg)"
| "touches cfg (Exec i (R_hdel key fs)) = (key = posts_key cfg)"
| "touches cfg (Exec i (R_hincrby key f n)) = (key = posts_key cfg)"
| "touches cfg (Exec i (R_rpush key ms)) = (key = posts_key cfg)"
| "touches cfg (Exec i (R_del key)) = (key = posts_key cfg)"
| "touches cfg (Exec i (R_incr key)) = (key = posts_key cfg)"
| "touches cfg (Exec i (R_expire key t)) = (key = posts_key cfg)"
| "touches cfg (Exec i (R_hvals key)) = True"
| "touches cfg (Exec i (R_publish c m)) = (c = posts_channel cfg)"
| "touches cfg (Exec i (R_subscribe c)) = (c = posts_channel cfg)"
| "touches cfg (Exec i (R_unsubscribe c)) = (c = posts_channel cfg)"
| "touches cfg (Expired key) = (key = posts_key cfg)"
| "touches cfg _ = False"

text \<open>A node is between the two commands of a pair, or none is.\<close>

datatype stage = Settled | Storing nat string | Removing nat string "string option" | Loading nat

text \<open>
  A history in which the pairs do not overlap: between the two commands of one node no other node
  touches the posts. Further, a post is stored under an id that is not in use, removed by its author
  or the administrator, every node loads the posts once, and no client has commands broadcast that
  add or remove posts.
\<close>

inductive orderly :: "'j extern \<Rightarrow> core \<Rightarrow> hashes \<Rightarrow> redis_op list \<Rightarrow> stage \<Rightarrow> bool" for L cfg H where
  o_start: "orderly L cfg H [] Settled"
| o_other: "orderly L cfg H log st \<Longrightarrow> \<not> touches cfg op \<Longrightarrow> orderly L cfg H (log @ [op]) st"
| o_store: "orderly L cfg H log Settled \<Longrightarrow> map_of (H log (posts_key cfg)) f = None \<Longrightarrow>
     orderly L cfg H (log @ [Exec i (R_hset (posts_key cfg) [(f, m)])]) (Storing i f)"
| o_stored: "orderly L cfg H log (Storing i f) \<Longrightarrow>
     orderly L cfg H (log @ [Exec i (R_publish (posts_channel cfg) m)]) Settled"
| o_remove: "orderly L cfg H log Settled \<Longrightarrow>
     orderly L cfg H (log @ [Exec i (R_hdel (posts_key cfg) [f])])
       (Removing i f (map_of (H log (posts_key cfg)) f))"
| o_removed: "orderly L cfg H log (Removing i f v) \<Longrightarrow>
     (\<forall>a adm. node_cmds L cfg m = [Remove_cmd f a adm] \<longrightarrow> entitled L cfg v a) \<Longrightarrow>
     orderly L cfg H (log @ [Exec i (R_publish (posts_channel cfg) m)]) Settled"
| o_visual: "orderly L cfg H log Settled \<Longrightarrow> set (node_cmds L cfg m) \<subseteq> range Visual_cmd \<Longrightarrow>
     orderly L cfg H (log @ [Exec i (R_publish (posts_channel cfg) m)]) Settled"
| o_load: "orderly L cfg H log Settled \<Longrightarrow> R_hvals (posts_key cfg) \<notin> set (cmds_of i log) \<Longrightarrow>
     orderly L cfg H (log @ [Exec i (R_hvals (posts_key cfg))]) (Loading i)"
| o_loaded: "orderly L cfg H log (Loading i) \<Longrightarrow>
     orderly L cfg H (log @ [Exec i (R_subscribe (posts_channel cfg))]) Settled"

text \<open>The hash as the nodes know it: without the change that has not been announced.\<close>

fun announced :: "core \<Rightarrow> hashes \<Rightarrow> redis_op list \<Rightarrow> stage \<Rightarrow> string \<rightharpoonup> string" where
  "announced cfg H log (Storing i f) = (map_of (H log (posts_key cfg)))(f := None)"
| "announced cfg H log (Removing i f v) = (map_of (H log (posts_key cfg)))(f := v)"
| "announced cfg H log st = map_of (H log (posts_key cfg))"

lemma orderly_hash:
  assumes "orderly L cfg H log st"
  shows "list_all (\<lambda>op. \<not> not_hash (posts_key cfg) op) log"
  using assms
proof induction
  case (o_other log st op)
  then have "\<not> not_hash (posts_key cfg) op" by (cases "(posts_key cfg, op)" rule: not_hash.cases) auto
  with o_other.IH show ?case by simp
qed simp_all

lemma untouched_effect: "\<not> touches cfg op \<Longrightarrow> hash_effect (posts_key cfg) op M = M"
  by (cases "(posts_key cfg, op, M)" rule: hash_effect.cases) auto

lemma untouched_sent: "\<not> touches cfg op \<Longrightarrow> sent H cfg i log op = []"
  by (cases "(H, cfg, i, log, op)" rule: sent.cases) auto

lemma untouched_listening: "\<not> touches cfg op \<Longrightarrow> listening cfg i (log @ [op]) = listening cfg i log"
  by (cases "(cfg, i, op, listening cfg i log)" rule: subscription.cases) (auto simp: listening_def)

definition keeps :: "'j extern \<Rightarrow> core \<Rightarrow> redis_op list \<Rightarrow> bool" where
  "keeps L cfg log \<longleftrightarrow> (\<forall>i. \<exists>cs n. blocks L cfg cs \<and> cmds_of i log = take n cs)"

lemma keeps_prefix: "keeps L cfg (log @ xs) \<Longrightarrow> keeps L cfg log"
  unfolding keeps_def by (metis append_eq_conv_conj cmds_of_append take_take)

lemma keeps_next:
  assumes "keeps L cfg (log @ [Exec i c])" "cmds_of i log \<noteq> []" "opens cfg (last (cmds_of i log))"
  shows "mate L cfg (last (cmds_of i log)) c"
proof -
  let ?xs = "cmds_of i log" and ?m = "length (cmds_of i log) - 1"
  from assms(1) obtain cs n where cs: "blocks L cfg cs" "?xs @ [c] = take n cs"
    unfolding keeps_def by (metis append_Nil2 append_assoc cmds_of.simps(1,2) cmds_of_append)
  have len: "Suc ?m = length ?xs" using assms(2) by simp
  have "length (?xs @ [c]) \<le> length cs" unfolding cs(2) by simp
  then have l: "Suc ?m < length cs" "?m < length cs" using len by simp_all
  have "cs ! k = (?xs @ [c]) ! k" if "k < Suc (length ?xs)" for k
  proof -
    have "k < n" using that arg_cong [OF cs(2), of length] by simp
    then show ?thesis by (simp add: cs(2))
  qed
  then have "cs ! ?m = last ?xs" "cs ! Suc ?m = c"
    using len assms(2) by (simp_all add: nth_append last_conv_nth)
  with blocks_nth [OF cs(1) l(2)] assms(3) show ?thesis by simp
qed

fun midway :: "core \<Rightarrow> hashes \<Rightarrow> redis_op list \<Rightarrow> stage \<Rightarrow> bool" where
  "midway cfg H log Settled = True"
| "midway cfg H log (Storing i f) \<longleftrightarrow> cmds_of i log \<noteq> [] \<and> (\<exists>m.
     last (cmds_of i log) = R_hset (posts_key cfg) [(f, m)] \<and> map_of (H log (posts_key cfg)) f = Some m)"
| "midway cfg H log (Removing i f v) \<longleftrightarrow> cmds_of i log \<noteq> [] \<and>
     last (cmds_of i log) = R_hdel (posts_key cfg) [f] \<and> map_of (H log (posts_key cfg)) f = None"
| "midway cfg H log (Loading i) \<longleftrightarrow> cmds_of i log \<noteq> [] \<and> last (cmds_of i log) = R_hvals (posts_key cfg)"

lemma midway_opens:
  "midway cfg H log st \<Longrightarrow> st = Storing i f \<or> st = Removing i f v \<or> st = Loading i \<Longrightarrow>
     cmds_of i log \<noteq> [] \<and> opens cfg (last (cmds_of i log))"
  by auto

text \<open>While a node is between the commands of a pair it executes nothing else.\<close>

lemma orderly_midway:
  assumes "orderly L cfg H log st" "keeps L cfg log" "hset_laws H"
  shows "midway cfg H log st"
  using assms(1,2)
proof induction
  case (o_other log st op)
  note IH = o_other.IH [OF keeps_prefix [OF o_other.prems]]
  have h: "map_of (H (log @ [op]) (posts_key cfg)) = map_of (H log (posts_key cfg))"
    using hash_snoc [OF assms(3) orderly_hash [OF orderly.o_other [OF o_other.hyps]]]
    by (simp add: untouched_effect [OF o_other.hyps(2)])
  have same: "cmds_of i (log @ [op]) = cmds_of i log"
    if st: "st = Storing i f \<or> st = Removing i f v \<or> st = Loading i" for i f v
  proof (rule ccontr)
    assume "cmds_of i (log @ [op]) \<noteq> cmds_of i log"
    then obtain c where op: "op = Exec i c" by (cases op) (auto split: if_splits)
    have "mate L cfg (last (cmds_of i log)) c"
      using keeps_next [OF o_other.prems [unfolded op]] midway_opens [OF IH st] by blast
    with IH st o_other.hyps(2) op show False by auto
  qed
  show ?case
  proof (cases st)
    case (Storing i f)
    with IH h same [of i f] show ?thesis by simp
  next
    case (Removing i f v)
    with IH h same [of i f v] show ?thesis by simp
  next
    case (Loading i)
    with IH same [of i] show ?thesis by simp
  qed simp
next
  case (o_store log f i m)
  from hash_snoc [OF assms(3) orderly_hash [OF orderly.o_store [OF o_store.hyps]]] show ?case by simp
next
  case (o_remove log i f)
  from hash_snoc [OF assms(3) orderly_hash [OF orderly.o_remove [OF o_remove.hyps]]] show ?case by simp
qed simp_all

text \<open>The nodes that have asked for the posts, and what all nodes hold in an orderly history.\<close>

definition loading :: "core \<Rightarrow> nat \<Rightarrow> redis_op list \<Rightarrow> bool" where
  "loading cfg i log \<longleftrightarrow> R_hvals (posts_key cfg) \<in> set (cmds_of i log)"

definition in_step :: "'j extern \<Rightarrow> core \<Rightarrow> hashes \<Rightarrow> redis_op list \<Rightarrow> stage \<Rightarrow> nat \<Rightarrow> bool" where
  "in_step L cfg H log st i \<longleftrightarrow>
     (if loading cfg i log
      then holds L cfg (announced cfg H log st) (replay L cfg (scan (sent H cfg i) log) [])
        \<and> (listening cfg i log \<or> st = Loading i)
      else scan (sent H cfg i) log = [] \<and> \<not> listening cfg i log)"

lemma listening_snoc: "listening cfg i (log @ [op]) = subscription cfg i op (listening cfg i log)"
  by (simp add: listening_def)

lemma loading_snoc:
  "loading cfg i (log @ [op]) \<longleftrightarrow> loading cfg i log \<or> op = Exec i (R_hvals (posts_key cfg))"
  by (cases op) (auto simp: loading_def)

definition consistent :: "'j extern \<Rightarrow> core \<Rightarrow> hashes \<Rightarrow> redis_op list \<Rightarrow> stage \<Rightarrow> bool" where
  "consistent L cfg H log st \<longleftrightarrow>
     sound L cfg (announced cfg H log st) \<and> (\<forall>i. in_step L cfg H log st i)"

text \<open>Nothing is announced: the hash as the nodes know it stays what it was.\<close>

lemma consistent_same:
  assumes "consistent L cfg H log st" "announced cfg H (log @ [op]) st' = announced cfg H log st"
    "\<And>i. sent H cfg i log op = [] \<and> (\<forall>b. subscription cfg i op b = b) \<and> op \<noteq> Exec i (R_hvals (posts_key cfg))"
    "\<And>i. st = Loading i \<Longrightarrow> st' = Loading i"
  shows "consistent L cfg H (log @ [op]) st'"
proof -
  have "in_step L cfg H (log @ [op]) st' i" for i
  proof -
    have "in_step L cfg H log st i" using assms(1) by (simp add: consistent_def)
    moreover have "sent H cfg i log op = []" "subscription cfg i op b = b"
      "loading cfg i (log @ [op]) = loading cfg i log" for b
      using assms(3) [of i] by (simp_all add: loading_snoc)
    ultimately show ?thesis using assms(4) [of i]
      unfolding in_step_def assms(2) by (auto simp: listening_snoc split: if_splits)
  qed
  with assms(1) show ?thesis unfolding consistent_def assms(2) by blast
qed

text \<open>A message on the posts channel is executed by every node that has loaded.\<close>

lemma consistent_publish:
  assumes "consistent L cfg H log st" "\<And>i. st \<noteq> Loading i"
    "announced cfg H (log @ [Exec j (R_publish (posts_channel cfg) m)]) Settled = M" "sound L cfg M"
    "\<And>ps. holds L cfg (announced cfg H log st) ps \<Longrightarrow> holds L cfg M (fold channel_exec (node_cmds L cfg m) ps)"
  shows "consistent L cfg H (log @ [Exec j (R_publish (posts_channel cfg) m)]) Settled"
proof -
  have "in_step L cfg H (log @ [Exec j (R_publish (posts_channel cfg) m)]) Settled i" for i
  proof -
    have "in_step L cfg H log st i" using assms(1) by (simp add: consistent_def)
    with assms(2,5) show ?thesis unfolding in_step_def assms(3)
      by (auto simp: loading_snoc listening_snoc replay_def split: if_splits)
  qed
  with assms(4) show ?thesis by (simp add: consistent_def assms(3) del: announced.simps)
qed

lemma consistent_stored:
  assumes "consistent L cfg H log (Storing i f)" "map_of (H log (posts_key cfg)) f = Some m"
    "map_of (H (log @ [Exec i (R_publish (posts_channel cfg) m)]) (posts_key cfg)) = map_of (H log (posts_key cfg))"
    "node_cmds L cfg m = [Add_cmd p]" "p_id p = f"
  shows "consistent L cfg H (log @ [Exec i (R_publish (posts_channel cfg) m)]) Settled"
proof (rule consistent_publish [OF assms(1)])
  let ?A = "announced cfg H log (Storing i f)"
  show "announced cfg H (log @ [Exec i (R_publish (posts_channel cfg) m)]) Settled = ?A(f \<mapsto> m)"
    using assms(2,3) by (auto simp: fun_eq_iff)
  have A: "sound L cfg ?A" using assms(1) by (simp add: consistent_def)
  then show "sound L cfg (?A(f \<mapsto> m))" using assms(4,5) by (auto simp: sound_def)
  fix ps assume "holds L cfg ?A ps"
  from holds_add [OF A this _ assms(4,5)]
  show "holds L cfg (?A(f \<mapsto> m)) (fold channel_exec (node_cmds L cfg m) ps)"
    by (simp add: assms(4))
qed simp

lemma consistent_removed:
  assumes "consistent L cfg H log (Removing i f v)" "map_of (H log (posts_key cfg)) f = None"
    "map_of (H (log @ [Exec i (R_publish (posts_channel cfg) m)]) (posts_key cfg)) = map_of (H log (posts_key cfg))"
    "node_cmds L cfg m = [Remove_cmd f a (a = c_chat_admin_id cfg)]" "entitled L cfg v a"
  shows "consistent L cfg H (log @ [Exec i (R_publish (posts_channel cfg) m)]) Settled"
proof (rule consistent_publish [OF assms(1)])
  let ?A = "announced cfg H log (Removing i f v)"
  show "announced cfg H (log @ [Exec i (R_publish (posts_channel cfg) m)]) Settled = ?A(f := None)"
    using assms(2,3) by (auto simp: fun_eq_iff)
  have A: "sound L cfg ?A" using assms(1) by (simp add: consistent_def)
  then show "sound L cfg (?A(f := None))" by (simp add: sound_def)
  fix ps assume "holds L cfg ?A ps"
  from holds_remove [OF A this, of f a] assms(5)
  show "holds L cfg (?A(f := None)) (fold channel_exec (node_cmds L cfg m) ps)"
    by (simp add: assms(4))
qed simp

lemma consistent_load:
  assumes "consistent L cfg H log Settled" "\<not> loading cfg i log" "distinct (map fst (H log (posts_key cfg)))"
    "map_of (H (log @ [Exec i (R_hvals (posts_key cfg))]) (posts_key cfg)) = map_of (H log (posts_key cfg))"
  shows "consistent L cfg H (log @ [Exec i (R_hvals (posts_key cfg))]) (Loading i)"
proof -
  let ?M = "map_of (H log (posts_key cfg))" and ?log = "log @ [Exec i (R_hvals (posts_key cfg))]"
  have M: "sound L cfg ?M" using assms(1) by (simp add: consistent_def)
  have "in_step L cfg H ?log (Loading i) j" for j
  proof -
    have "in_step L cfg H log Settled j" using assms(1) by (simp add: consistent_def)
    with holds_load_any [OF assms(3) M] assms(2,4) show ?thesis
      by (auto simp: in_step_def loading_snoc listening_snoc split: if_splits)
  qed
  with M assms(4) show ?thesis by (simp add: consistent_def)
qed

lemma consistent_loaded:
  assumes "consistent L cfg H log (Loading i)" "loading cfg i log"
    "map_of (H (log @ [Exec i (R_subscribe (posts_channel cfg))]) (posts_key cfg)) = map_of (H log (posts_key cfg))"
  shows "consistent L cfg H (log @ [Exec i (R_subscribe (posts_channel cfg))]) Settled"
proof -
  have "in_step L cfg H (log @ [Exec i (R_subscribe (posts_channel cfg))]) Settled j" for j
  proof -
    have "in_step L cfg H log (Loading i) j" using assms(1) by (simp add: consistent_def)
    with assms(2,3) show ?thesis by (auto simp: in_step_def loading_snoc listening_snoc split: if_splits)
  qed
  with assms(1,3) show ?thesis by (simp add: consistent_def)
qed

lemma orderly_consistent:
  assumes "orderly L cfg H log st" "keeps L cfg log" "hset_laws H" "sound L cfg (map_of (H [] (posts_key cfg)))"
  shows "consistent L cfg H log st"
  using assms(1,2)
proof induction
  case o_start
  with assms(4) show ?case by (simp add: consistent_def in_step_def loading_def listening_def)
next
  case (o_other log st op)
  from hash_snoc [OF assms(3) orderly_hash [OF orderly.o_other [OF o_other.hyps]]]
  have "announced cfg H (log @ [op]) st = announced cfg H log st"
    by (cases st) (simp_all add: untouched_effect [OF o_other.hyps(2)])
  moreover have "subscription cfg i op b = b \<and> op \<noteq> Exec i (R_hvals (posts_key cfg))" for i b
    using o_other.hyps(2) by (cases "(cfg, i, op, b)" rule: subscription.cases) auto
  ultimately show ?case
    using o_other.IH [OF keeps_prefix [OF o_other.prems]] untouched_sent [OF o_other.hyps(2)]
    by (intro consistent_same) simp_all
next
  case (o_store log f i m)
  from hash_snoc [OF assms(3) orderly_hash [OF orderly.o_store [OF o_store.hyps]]] o_store.hyps(2)
  have "announced cfg H (log @ [Exec i (R_hset (posts_key cfg) [(f, m)])]) (Storing i f) =
      announced cfg H log Settled" by (auto simp: fun_eq_iff map_add_def)
  with o_store.IH [OF keeps_prefix [OF o_store.prems]] show ?case by (rule consistent_same) simp_all
next
  case (o_stored log i f m)
  from orderly_midway [OF o_stored.hyps keeps_prefix [OF o_stored.prems] assms(3)] obtain m' where
    mid: "cmds_of i log \<noteq> []" "last (cmds_of i log) = R_hset (posts_key cfg) [(f, m')]"
    "map_of (H log (posts_key cfg)) f = Some m'" by auto
  have "mate L cfg (R_hset (posts_key cfg) [(f, m')]) (R_publish (posts_channel cfg) m)"
    using keeps_next [OF o_stored.prems mid(1)] mid(2) by simp
  with mid(3) obtain p where "node_cmds L cfg m = [Add_cmd p]" "p_id p = f"
    "map_of (H log (posts_key cfg)) f = Some m" by fastforce
  with consistent_stored [OF o_stored.IH [OF keeps_prefix [OF o_stored.prems]]]
    hash_snoc [OF assms(3) orderly_hash [OF orderly.o_stored [OF o_stored.hyps]]]
  show ?case by simp
next
  case (o_remove log i f)
  from hash_snoc [OF assms(3) orderly_hash [OF orderly.o_remove [OF o_remove.hyps]]]
  have "announced cfg H (log @ [Exec i (R_hdel (posts_key cfg) [f])])
      (Removing i f (map_of (H log (posts_key cfg)) f)) = announced cfg H log Settled"
    by (auto simp: fun_eq_iff restrict_map_def)
  with o_remove.IH [OF keeps_prefix [OF o_remove.prems]] show ?case by (rule consistent_same) simp_all
next
  case (o_removed log i f v m)
  from orderly_midway [OF o_removed.hyps(1) keeps_prefix [OF o_removed.prems] assms(3)] have
    mid: "cmds_of i log \<noteq> []" "last (cmds_of i log) = R_hdel (posts_key cfg) [f]"
    "map_of (H log (posts_key cfg)) f = None" by auto
  have "mate L cfg (R_hdel (posts_key cfg) [f]) (R_publish (posts_channel cfg) m)"
    using keeps_next [OF o_removed.prems mid(1)] mid(2) by simp
  then obtain a where "node_cmds L cfg m = [Remove_cmd f a (a = c_chat_admin_id cfg)]" by auto
  with consistent_removed [OF o_removed.IH [OF keeps_prefix [OF o_removed.prems]]] o_removed.hyps(2) mid(3)
    hash_snoc [OF assms(3) orderly_hash [OF orderly.o_removed [OF o_removed.hyps]]]
  show ?case by simp
next
  case (o_visual log m i)
  have IH: "consistent L cfg H log Settled" by (rule o_visual.IH [OF keeps_prefix [OF o_visual.prems]])
  have "alike (fold channel_exec (node_cmds L cfg m) ps) ps" for ps
    using o_visual.hyps(2) by (intro quiet_cmds) blast
  then have "holds L cfg M ps \<Longrightarrow> holds L cfg M (fold channel_exec (node_cmds L cfg m) ps)" for M ps
    using holds_alike [OF alike_sym] by blast
  moreover have "sound L cfg (map_of (H log (posts_key cfg)))" using IH by (simp add: consistent_def)
  ultimately show ?case
    using hash_snoc [OF assms(3) orderly_hash [OF orderly.o_visual [OF o_visual.hyps]]]
    by (intro consistent_publish [OF IH]) simp_all
next
  case (o_load log i)
  have "distinct (map fst (H log (posts_key cfg)))"
    using assms(3) orderly_hash [OF o_load.hyps(1)] unfolding hset_laws_def by blast
  with consistent_load [OF o_load.IH [OF keeps_prefix [OF o_load.prems]]] o_load.hyps(2)
    hash_snoc [OF assms(3) orderly_hash [OF orderly.o_load [OF o_load.hyps]]]
  show ?case by (simp add: loading_def)
next
  case (o_loaded log i)
  note mid = orderly_midway [OF o_loaded.hyps keeps_prefix [OF o_loaded.prems] assms(3)]
  then have "loading cfg i log" by (auto simp: loading_def dest: last_in_set)
  with consistent_loaded [OF o_loaded.IH [OF keeps_prefix [OF o_loaded.prems]]]
    hash_snoc [OF assms(3) orderly_hash [OF orderly.o_loaded [OF o_loaded.hyps]]]
  show ?case by simp
qed

lemma feed_keeps:
  assumes "json_laws L" "separate_keys cfg" "feed_run L cfg R H es Y"
  shows "keeps L cfg (rlog (body Y))"
  unfolding keeps_def
proof
  fix i
  note run = feed_body [OF assms(3)]
  from executed_prefix [OF assms(1) run, of i] blocks_run [OF assms(1,2) member_run [OF run, of i]]
  show "\<exists>cs n. blocks L cfg cs \<and> cmds_of i (rlog (body Y)) = take n cs" by blast
qed

section \<open>Properties\<close>

text \<open>C4: the nodes are replicas as long as the history of redis is orderly: the two commands of a
  publication, of a removal and of the loading of a node do not overlap with other commands on the
  posts; a post is stored under an id that is not in use; a removal is announced for the author of
  the post or the administrator; every node loads the posts once, so it does not reconnect; clients
  have no commands broadcast that add or remove posts; and the keys and channels of the
  configuration are distinct. Then, whatever the nodes do otherwise, every node that has loaded the
  posts and has read what redis sent it holds exactly the posts of the hash in redis, each once and
  in the same order as a node that would load them now, the counters of visualisations apart, and it
  answers every search as that node would, again up to the counters.\<close>

theorem replicas_agree:
  assumes "json_laws L" "hset_laws H" "separate_keys cfg" "jparse L ''rpush'' = None"
    "feed_run L cfg R H es Y" "orderly L cfg H (rlog (body Y)) Settled"
    "sound L cfg (map_of (H [] (posts_key cfg)))"
    "R_hvals (posts_key cfg) \<in> set (cmds_of i (rlog (body Y)))" "inbox Y i = []"
  shows "map post_core (posts_of Y i) = map post_core
      (posts (on_hvals L cfg now (map snd (H (rlog (body Y)) (posts_key cfg))) init_worker))
    \<and> distinct (map p_id (posts_of Y i))
    \<and> p_id ` set (posts_of Y i) = dom (map_of (H (rlog (body Y)) (posts_key cfg)))
    \<and> (\<forall>q. map post_core (search_posts cfg q (wk (member (body Y) i))) = map post_core
        (search_posts cfg q (on_hvals L cfg now (map snd (H (rlog (body Y)) (posts_key cfg))) init_worker)))"
proof -
  let ?H = "H (rlog (body Y)) (posts_key cfg)"
  have con: "consistent L cfg H (rlog (body Y)) Settled"
    by (rule orderly_consistent [OF assms(6) feed_keeps [OF assms(1,3,5)] assms(2,7)])
  then have so: "sound L cfg (map_of ?H)" by (simp add: consistent_def)
  have "in_step L cfg H (rlog (body Y)) Settled i" using con by (simp add: consistent_def)
  then have "holds L cfg (map_of ?H) (replay L cfg (scan (sent H cfg i) (rlog (body Y))) [])"
    using assms(8) by (simp add: in_step_def loading_def)
  then have node: "holds L cfg (map_of ?H) (posts_of Y i)"
    using holds_alike [OF alike_sym [OF feed_replay [OF assms(1,3,4,5), of i]]] assms(9) by simp
  have "distinct (map fst ?H)"
    using assms(2) orderly_hash [OF assms(6)] unfolding hset_laws_def by blast
  from holds_load_any [OF this so] have
    "holds L cfg (map_of ?H) (posts (on_hvals L cfg now (map snd ?H) init_worker))"
    by (simp add: hvals_load init_worker_def)
  from holds_unique [OF node this] holds_dom [OF so node] node show ?thesis
    by (simp add: alike_def holds_def search_posts_def core_query)
qed

lemma after_orderly:
  "orderly ref_lib sample_core ref_hashes (started_log @ [store_op, announce_op, ask_op, join_op]) Settled"
proof -
  let ?o = "orderly ref_lib sample_core ref_hashes"
  have none: "ref_hashes [] pk = []" by (simp add: ref_hashes_def)
  have "?o ([] @ [Exec 1 (R_hvals pk)]) (Loading 1)" by (rule o_load [OF o_start]) simp
  note o_other [OF o_loaded [OF this], of "Exec 1 (R_hgetall (r_post_visualizations_key (c_redis sample_core)))"]
  then have "?o started_log Settled" by (simp add: started_log_def)
  from o_store [OF this, of "p_id new_post" 1 new_msg] hash_started [OF ref_hashes_laws none, of "[]"]
  have "?o (started_log @ [store_op]) (Storing 1 (p_id new_post))" by (simp add: store_op_def)
  from o_load [OF o_stored [OF this, of new_msg], of 0]
  have "?o (((started_log @ [store_op]) @ [announce_op]) @ [ask_op]) (Loading 0)"
    by (simp add: started_log_def store_op_def)
  from o_loaded [OF this] show ?thesis by simp
qed

theorem replicas_agree_witness:
  "\<exists>es Y. feed_run ref_lib sample_core ref_redis ref_hashes es Y \<and> p_id ` set (posts_of Y 0) = {p_id new_post}
     \<and> distinct (map p_id (posts_of Y 0))"
proof -
  let ?log = "started_log @ [store_op, announce_op, ask_op, join_op]"
  let ?S = "starting\<lparr>wk := on_db_event ref_lib sample_core 0 (Hvals [new_msg]) (wk starting)\<rparr>"
  let ?Y = "at (two_of(0 := ?S)) ?log ((\<lambda>_. [])(0 := [], 1 := [new_push]))"
  have none: "ref_hashes [] pk = []" by (simp add: ref_hashes_def)
  have "reached ref_lib sample_core ref_redis ref_hashes ?Y"
    using reached_read [OF reached_after [OF ref_hashes_laws none, of ref_redis], of 0 "Hvals [new_msg]" "[]" 0]
    by (simp add: two_of_sel starting_out fun_upd_twist)
  then obtain es where run: "feed_run ref_lib sample_core ref_redis ref_hashes es ?Y"
    by (auto simp: reached_def)
  have "orderly ref_lib sample_core ref_hashes (rlog (body ?Y)) Settled" using after_orderly by simp
  moreover have "sound ref_lib sample_core (map_of (ref_hashes [] pk))" by (simp add: none sound_def)
  moreover have "R_hvals pk \<in> set (cmds_of 0 (rlog (body ?Y)))" by (simp add: started_log_def store_op_def)
  moreover have "inbox ?Y 0 = []" by simp
  ultimately have "distinct (map p_id (posts_of ?Y 0)) \<and>
      p_id ` set (posts_of ?Y 0) = dom (map_of (ref_hashes (rlog (body ?Y)) pk))"
    using replicas_agree [OF ref_json_laws ref_hashes_laws sample_separate not_rpush(1) run] by blast
  moreover have "ref_hashes (rlog (body ?Y)) pk = [(p_id new_post, new_msg)]"
    using hash_published [OF ref_hashes_laws none, of "[]" 0 "[announce_op, ask_op, join_op]" 1 new_msg]
    by simp
  ultimately show ?thesis using run by (intro exI [of _ es] exI [of _ ?Y]) simp
qed

text \<open>C13: when another node publishes while a node starts, there are interleavings that leave the posts
  of the starting node wrong, because it asks for the posts before it subscribes and a post is
  stored before it is announced: in one run, in which the post is stored and announced between the
  two commands, the node does not hold it, and in another, in which the post is stored before the
  first and announced after the second, it holds it twice, although in both redis holds the post
  once, the node is subscribed and has read everything it was sent.\<close>

theorem starting_node_races:
  assumes "hset_laws H" "H [] (posts_key sample_core) = []"
  shows "\<exists>Y Y'. reached ref_lib sample_core R H Y \<and> reached ref_lib sample_core R H Y'
    \<and> inbox Y 0 = [] \<and> listening sample_core 0 (rlog (body Y))
    \<and> H (rlog (body Y)) (posts_key sample_core) = [(p_id new_post, new_msg)] \<and> posts_of Y 0 = []
    \<and> inbox Y' 0 = [] \<and> listening sample_core 0 (rlog (body Y'))
    \<and> H (rlog (body Y')) (posts_key sample_core) = [(p_id new_post, new_msg)]
    \<and> posts_of Y' 0 = [new_post, new_post]"
proof -
  let ?S = "\<lambda>ms. starting\<lparr>wk := on_db_event ref_lib sample_core 0 (Hvals ms) (wk starting)\<rparr>"
  let ?T = "starting\<lparr>wk := on_db_event ref_lib sample_core 0 new_push (wk (?S [new_msg]))\<rparr>"
  let ?log = "started_log @ [ask_op, store_op, announce_op, join_op]"
    and ?log' = "started_log @ [store_op, ask_op, join_op, announce_op]"
  let ?Y = "at (two_of(0 := ?S [])) ?log ((\<lambda>_. [])(1 := [new_push]))"
    and ?Y' = "at (two_of(0 := ?T)) ?log' ((\<lambda>_. [])(1 := [new_push]))"
  have "reached ref_lib sample_core R H ?Y"
    using reached_read [OF reached_between [OF assms, of R], of 0 "Hvals []" "[]" 0]
    by (simp add: two_of_sel starting_out fun_upd_twist fun_upd_idem)
  moreover have "reached ref_lib sample_core R H (at (two_of(0 := ?S [new_msg])) ?log' ((\<lambda>_. [])(0 := [new_push], 1 := [new_push])))"
    using reached_read [OF reached_around [OF assms, of R], of 0 "Hvals [new_msg]" "[new_push]" 0]
    by (simp add: two_of_sel starting_out fun_upd_twist)
  from reached_read [OF this, of 0 new_push "[]" 0] read_alive [OF starting_out(2), of 0 "[new_msg]"]
  have "reached ref_lib sample_core R H ?Y'"
    by (simp add: fun_upd_twist fun_upd_idem)
  moreover have "H ?log pk = [(p_id new_post, new_msg)]" "H ?log' pk = [(p_id new_post, new_msg)]"
    using hash_published [OF assms, of "[ask_op]" 0 "[announce_op, join_op]" 1 new_msg]
      hash_published [OF assms, of "[]" 0 "[ask_op, join_op, announce_op]" 1 new_msg] by simp_all
  moreover have "listening sample_core 0 ?log" "listening sample_core 0 ?log'"
    by (simp_all add: two_eval)
  moreover have "posts_of ?Y 0 = []" "posts_of ?Y' 0 = [new_post, new_post]"
    using read_values read_message starting_out(3) by (simp_all add: add_twice del: on_db_event.simps)
  ultimately show ?thesis by (intro exI [of _ ?Y] exI [of _ ?Y']) simp
qed

theorem starting_node_races_witness:
  "\<exists>Y. reached ref_lib sample_core ref_redis ref_hashes Y \<and> inbox Y 0 = []
     \<and> ref_hashes (rlog (body Y)) (posts_key sample_core) = [(p_id new_post, new_msg)]
     \<and> posts_of Y 0 = []"
proof -
  have "ref_hashes [] (posts_key sample_core) = []" by (simp add: ref_hashes_def)
  from starting_node_races [OF ref_hashes_laws this, of ref_redis] show ?thesis by blast
qed

end
