(* ===== verification/Notifier_Iterators.thy ===== *)
theory Notifier_Iterators
  imports Notifications
begin

text \<open>
  The iterator that the notifier's timer handler captures (\<open>src/notifier.cpp\<close>, \<open>on_ntf_message\<close>): when
  it stays valid until the handler runs, and how it can become invalid before, because the entry is
  erased or because the map is rehashed for a new user.
\<close>

section \<open>Valid iterators\<close>

definition valid_iter :: "wait \<Rightarrow> 'j notifier \<Rightarrow> bool" where
  "valid_iter wt n \<longleftrightarrow> wt_node wt \<in> nodes n \<and> wt_epoch wt = n_epoch n"

definition waits_valid :: "'j notifier \<Rightarrow> bool" where
  "waits_valid n \<longleftrightarrow> (\<forall>wt \<in> set (waits n). valid_iter wt n)"

lemma find_node_None: "find_node k n = None \<longleftrightarrow> k \<notin> nodes n"
proof -
  have "find_node k n = map_option snd (List.find (\<lambda>(u, e). u_node e = k) (tokens n))"
    by (auto simp: find_node_def split: option.splits)
  then show ?thesis by (auto simp: find_None_iff nodes_def)
qed

lemma dangling_timeout:
  "dangling (on_timeout L cfg wt n) \<longleftrightarrow> dangling n \<or> wt_state wt \<noteq> Aborted \<and> \<not> valid_iter wt n"
  using find_node_None [of "wt_node wt" n]
  by (auto simp: on_timeout_def valid_iter_def split: option.splits)

lemma nodes_waits [simp]: "nodes (n\<lparr>waits := ws\<rparr>) = nodes n"
  by (simp add: nodes_def)

lemma valid_cancel [simp]:
  "valid_iter wt (cancel_timer k n) = valid_iter wt n" "valid_iter wt (n\<lparr>waits := ws\<rparr>) = valid_iter wt n"
  by (simp_all add: valid_iter_def)

lemma valid_cong: "wt_node v = wt_node wt \<Longrightarrow> wt_epoch v = wt_epoch wt \<Longrightarrow> valid_iter v n = valid_iter wt n"
  by (simp add: valid_iter_def)

lemma waits_cancel_iter:
  "wt \<in> set (waits (cancel_timer k n)) \<Longrightarrow>
     \<exists>v \<in> set (waits n). wt_node wt = wt_node v \<and> wt_epoch wt = wt_epoch v"
  by (auto simp: cancel_timer_def)

lemma waits_valid_cancel: "waits_valid n \<Longrightarrow> waits_valid (cancel_timer k n)"
  unfolding waits_valid_def by (metis valid_cancel(1) valid_cong waits_cancel_iter)

section \<open>Every operation that does not erase keeps the iterators\<close>

lemma message_valid:
  assumes "ninv n" "waits_valid n"
  shows "waits_valid (snd (on_ntf_message L cfg j n)) \<and>
    dangling (snd (on_ntf_message L cfg j n)) = dangling n \<and>
    n_buckets (snd (on_ntf_message L cfg j n)) = n_buckets n"
proof (cases "snd (on_ntf_message L cfg j n) = n")
  case True
  with assms(2) show ?thesis by simp
next
  case False
  then obtain to e where e: "map_of (tokens n) to = Some e"
    and n': "snd (on_ntf_message L cfg j n) =
      (let m = cancel_timer (u_node e) (n\<lparr>tokens := AList.update to (e\<lparr>u_msg := j\<rparr>) (tokens n)\<rparr>)
       in m\<lparr>waits := waits m @ [\<lparr> wt_node = u_node e, wt_epoch = n_epoch m, wt_state = Armed \<rparr>]\<rparr>)"
    by (auto simp: on_ntf_message_def Let_def split: option.splits if_splits)
  let ?v = "n\<lparr>tokens := AList.update to (e\<lparr>u_msg := j\<rparr>) (tokens n)\<rparr>"
  have "nodes ?v = nodes n" using nodes_update [OF assms(1) e] by simp
  with assms(2) map_of_nodes [OF e] have "waits_valid (cancel_timer (u_node e) ?v)"
    by (intro waits_valid_cancel) (simp add: waits_valid_def valid_iter_def)
  moreover have "u_node e \<in> nodes (cancel_timer (u_node e) ?v)"
    using \<open>nodes ?v = nodes n\<close> map_of_nodes [OF e] by simp
  ultimately show ?thesis by (auto simp: n' Let_def waits_valid_def valid_iter_def)
qed

lemma retoken_nodes:
  "nodes (n\<lparr>tokens := map (\<lambda>(u, e). (u, if u = v then e\<lparr>u_token := t\<rparr> else e)) (tokens n)\<rparr>) = nodes n"
  using arg_cong [OF retoken_map(1) [of v t "tokens n"], of set]
  by (simp only: nodes_def set_map) simp

text \<open>
  \<open>fits L n\<close>: the map has the buckets it got at its first insertion; it keeps them while it holds
  users of a set that is no larger.
\<close>

definition fits :: "'j extern \<Rightarrow> 'j notifier \<Rightarrow> bool" where
  "fits L n \<longleftrightarrow> n_buckets n = (if tokens n = [] then 0 else hash_grow L 0 1)"

definition room :: "'j extern \<Rightarrow> string set \<Rightarrow> bool" where
  "room L U \<longleftrightarrow> table_laws L \<and> finite U \<and> card U \<le> hash_grow L 0 1"

lemma length_tokens_le: "ninv n \<Longrightarrow> names n \<subseteq> U \<Longrightarrow> finite U \<Longrightarrow> length (tokens n) \<le> card U"
  by (metis card_mono distinct_card length_map names_def ninv_def set_map)

lemma insert_valid:
  assumes "ninv n" "waits_valid n" "fits L n" "room L U" "insert u (names n) \<subseteq> U"
    "insert_token L u t n = (b, n')"
  shows "waits_valid n' \<and> fits L n' \<and> dangling n' = dangling n"
proof (cases "map_of (tokens n) u")
  case None
  let ?b = "hash_grow L (n_buckets n) (Suc (length (tokens n)))"
  have n': "n' = n\<lparr>tokens := (u, \<lparr> u_token = t, u_msg = jnull L, u_node = next_node n \<rparr>) # tokens n,
      next_node := Suc (next_node n), n_buckets := ?b,
      n_epoch := (if ?b = n_buckets n then n_epoch n else Suc (n_epoch n))\<rparr>"
    using assms(6) None by (simp add: insert_token_def Let_def)
  show ?thesis
  proof (cases "tokens n = []")
    case True
    then have "waits n = []" using assms(2) by (cases "waits n") (auto simp: waits_valid_def valid_iter_def nodes_def)
    with True assms(3) show ?thesis by (simp add: n' fits_def waits_valid_def)
  next
    case False
    have "length (tokens n') \<le> card U"
      using ninv_insert [OF assms(1,6)] assms(4,5) names_insert [OF assms(6)]
      by (intro length_tokens_le) (auto simp: room_def)
    with assms(3,4) False have "?b = n_buckets n" by (auto simp: n' fits_def room_def table_laws_def)
    with assms(2,3) False show ?thesis
      by (auto simp: n' fits_def waits_valid_def valid_iter_def nodes_def)
  qed
qed (use assms in \<open>auto simp: insert_token_def\<close>)

lemma hgetall_valid:
  assumes "room L U"
  shows "ninv n \<Longrightarrow> waits_valid n \<Longrightarrow> fits L n \<Longrightarrow> hash_fields v \<union> names n \<subseteq> U \<Longrightarrow>
    waits_valid (ntf_on_hgetall L v n) \<and> fits L (ntf_on_hgetall L v n) \<and>
    dangling (ntf_on_hgetall L v n) = dangling n"
  using assms
proof (induction L v n rule: ntf_on_hgetall.induct)
  case (1 L u t v n)
  obtain b m where m: "insert_token L u t n = (b, m)" by fastforce
  have "waits_valid m \<and> fits L m \<and> dangling m = dangling n"
    using 1 by (intro insert_valid [OF _ _ _ _ _ m]) auto
  moreover have "names m \<subseteq> U" using names_insert [OF m] 1 by auto
  ultimately show ?case using 1 ninv_insert [OF "1.prems"(1) m] m by simp
qed simp_all

text \<open>The event that removes an entry: a token message with an empty token.\<close>

definition erasing :: "'j extern \<Rightarrow> notifier_cfg \<Rightarrow> ntf_event \<Rightarrow> bool" where
  "erasing L cfg e \<longleftrightarrow>
     (\<exists>v j. e = N_push v \<and> is_message v (n_redis_notify_channel cfg) \<and> jparse L (last v) = Some j \<and>
        at_str L j ''cmd'' = Some ''token'' \<and> at_str L j ''token'' = Some '''')"

definition keeps_valid :: "'j extern \<Rightarrow> 'j notifier \<Rightarrow> 'j notifier \<Rightarrow> bool" where
  "keeps_valid L n n' \<longleftrightarrow> waits_valid n' \<and> fits L n' \<and> dangling n' = dangling n"

lemma retoken_valid:
  assumes "waits_valid n" "fits L n"
  shows "keeps_valid L n
    (n\<lparr>tokens := map (\<lambda>(u, e). (u, if u = v then e\<lparr>u_token := t\<rparr> else e)) (tokens n)\<rparr>)"
  using assms by (simp add: keeps_valid_def waits_valid_def valid_iter_def retoken_nodes fits_def)

lemma tokens_message: "tokens (snd (on_ntf_message L cfg j n)) = [] \<longleftrightarrow> tokens n = []"
  using names_message [of L cfg j n] by (simp add: names_def) (metis image_is_empty set_empty)

lemma publish_valid:
  assumes "ninv n" "waits_valid n" "fits L n" "room L U" "names n \<subseteq> U"
    "{u. \<exists>j. jparse L s = Some j \<and> at_str L j ''user_id'' = Some u} \<subseteq> U"
    "\<And>j. jparse L s = Some j \<Longrightarrow> at_str L j ''cmd'' = Some ''token'' \<Longrightarrow> at_str L j ''token'' \<noteq> Some ''''"
  shows "keeps_valid L n (snd (on_ntf_publish L cfg s n))"
proof -
  have same: "keeps_valid L n n" using assms(2,3) by (simp add: keeps_valid_def)
  have msg: "keeps_valid L n (snd (on_ntf_message L cfg j n))" for j
    using message_valid [OF assms(1,2), of L cfg j] assms(3) tokens_message [of L cfg j n]
    by (simp add: keeps_valid_def fits_def)
  have tok: "keeps_valid L n (if fst (insert_token L u t n) then snd (insert_token L u t n)
      else n\<lparr>tokens := map (\<lambda>(v, e). (v, if v = u then e\<lparr>u_token := t\<rparr> else e)) (tokens n)\<rparr>)"
    if "jparse L s = Some j" "at_str L j ''user_id'' = Some u" for j u t
  proof -
    obtain b m where m: "insert_token L u t n = (b, m)" by fastforce
    from that assms(5,6) have "insert u (names n) \<subseteq> U" by auto
    from insert_valid [OF assms(1-4) this m] m retoken_valid [OF assms(2,3)] show ?thesis
      by (simp add: keeps_valid_def)
  qed
  have eq: "snd (on_ntf_publish L cfg s n) =
      (if fst (insert_token L u t n) then snd (insert_token L u t n)
       else n\<lparr>tokens := map (\<lambda>(v, e). (v, if v = u then e\<lparr>u_token := t\<rparr> else e)) (tokens n)\<rparr>)"
    if "jparse L s = Some j" "at_str L j ''cmd'' = Some ''token''" "at_str L j ''user_id'' = Some u"
      "at_str L j ''token'' = Some t" for j u t
  proof -
    have "m = n" if "insert_token L u t n = (False, m)" for m
      using that by (auto simp: insert_token_def Let_def split: option.splits)
    then show ?thesis using assms(7) [OF that(1,2)] that(3,4)
      by (auto simp: on_ntf_publish_def that(1,2) split: prod.split)
  qed
  consider j where "jparse L s = Some j" "at_str L j ''cmd'' = Some ''message''"
    | j u t where "jparse L s = Some j" "at_str L j ''cmd'' = Some ''token''"
        "at_str L j ''user_id'' = Some u" "at_str L j ''token'' = Some t"
    | "snd (on_ntf_publish L cfg s n) = n"
    unfolding on_ntf_publish_def by (fastforce split: option.splits bind_splits)
  then show ?thesis
  proof cases
    case 1
    with msg show ?thesis by (simp add: on_ntf_publish_def)
  next
    case 2
    with tok show ?thesis by (simp only: eq)
  next
    case 3
    with same show ?thesis by simp
  qed
qed

lemma finite_users: "finite (token_users L e)"
proof (cases e)
  case (N_push v)
  show ?thesis
  proof (cases "jparse L (last v)")
    case (Some j)
    then have "token_users L e \<subseteq> {the (at_str L j ''user_id'')}" by (auto simp: N_push)
    then show ?thesis using finite_subset by auto
  qed (simp add: N_push)
next
  case (N_hgetall v)
  have "finite (hash_fields v)" by (induction v rule: hash_fields.induct) simp_all
  with N_hgetall show ?thesis by simp
qed simp_all

lemma step_valid:
  assumes inv: "ninv n" and valid: "waits_valid n" and fits: "fits L n" and room: "room L U"
    and names: "names n \<subseteq> U" and step: "ntf_step L cfg n e n'" and ne: "\<not> erasing L cfg e"
    and users: "token_users L e \<subseteq> U"
  shows "keeps_valid L n n'"
  using step
proof cases
  case (n_push v)
  have "keeps_valid L n (snd (on_ntf_publish L cfg (last v) n))"
    if "is_message v (n_redis_notify_channel cfg)"
    using n_push ne users that
    by (intro publish_valid [OF inv valid fits room names]) (auto simp: erasing_def)
  moreover have "keeps_valid L n (cancel_timer k n)" for k
    using waits_valid_cancel [OF valid] fits by (simp add: keeps_valid_def fits_def)
  moreover have "keeps_valid L n n" using valid fits by (simp add: keeps_valid_def)
  ultimately show ?thesis using n_push by (auto simp: ntf_on_push_def on_ntf_del_def split: option.splits)
next
  case (n_hgetall v)
  with hgetall_valid [OF room inv valid fits, of v] names users show ?thesis
    by (auto simp: keeps_valid_def)
next
  case (n_expire i)
  have "valid_iter wt n'" if w: "wt \<in> set (waits n')" for wt
  proof -
    from w n_expire have "wt \<in> insert ((waits n ! i)\<lparr>wt_state := Expired\<rparr>) (set (waits n))"
      by (auto simp: expire_wait_def dest: set_update_subset_insert [THEN subsetD])
    then obtain v where "v \<in> set (waits n)" "wt_node wt = wt_node v" "wt_epoch wt = wt_epoch v"
      using n_expire nth_mem by fastforce
    with valid show ?thesis
      using n_expire by (auto simp: waits_valid_def valid_iter_def expire_wait_def nodes_def)
  qed
  with fits n_expire show ?thesis
    by (simp add: keeps_valid_def waits_valid_def fits_def expire_wait_def)
next
  case (n_handler i)
  have "waits n ! i \<in> set (waits n)" using n_handler by simp
  with valid have "valid_iter (waits n ! i) n" by (simp add: waits_valid_def)
  then have "dangling n' = dangling n" using n_handler by (simp add: dangling_timeout)
  moreover have "waits_valid n'"
    using n_handler valid set_erase_at_subset [of i "waits n"]
    by (auto simp: waits_valid_def valid_iter_def nodes_def)
  ultimately show ?thesis using fits n_handler by (simp add: keeps_valid_def fits_def)
qed

section \<open>Properties\<close>

text \<open>C33: the iterator that a timer's handler has captured is valid when the handler follows it, in every
  run in which nobody disables notifications (no empty token arrives) and the users named in the run
  are no more than the buckets the map gets with its first entry. Both conditions are needed: an
  empty token erases an entry, and a user too many makes the map rehash.\<close>

theorem no_dangling_iterator:
  assumes "table_laws L" "ntf_reach L cfg es n" "\<forall>e \<in> set es. \<not> erasing L cfg e"
    "card (\<Union>e \<in> set es. token_users L e) \<le> hash_grow L 0 1"
  shows "\<not> dangling n"
proof -
  let ?U = "\<Union>e \<in> set es. token_users L e"
  have room: "room L ?U" using assms(1,4) by (simp add: room_def finite_users)
  have "waits_valid n \<and> fits L n \<and> \<not> dangling n"
    if "ntf_reach L cfg fs n" "set fs \<subseteq> set es" for fs n
    using that
  proof (induction rule: ntf_reach.induct)
    case n_start
    show ?case by (simp add: new_notifier_def ntf_init_def waits_valid_def fits_def)
  next
    case (n_step fs n e n')
    have "names n \<subseteq> ?U" using names_reach [OF n_step.hyps(1)] n_step.prems by fastforce
    moreover have "token_users L e \<subseteq> ?U" using n_step.prems by auto
    ultimately have "keeps_valid L n n'"
      using n_step assms(3) by (intro step_valid [OF ninv_reach [OF n_step.hyps(1)] _ _ room]) auto
    with n_step show ?case by (simp add: keeps_valid_def)
  qed
  with assms(2) show ?thesis by blast
qed

theorem no_dangling_iterator_witness: "\<not> dangling with_message"
proof -
  have "token_users ref_lib (N_push (token_push ''ann'' ''t1'')) = {''ann''}"
    "token_users ref_lib (N_push (note_push ''ann'' ''hello'')) = {}"
    by (auto simp: token_push_def note_push_def) (simp_all add: note_json_def at_str_def)
  then show ?thesis
    by (intro no_dangling_iterator [OF ref_table_laws with_message_run])
      (auto simp: erasing_def token_push_def note_push_def)
qed

section \<open>How an iterator becomes invalid\<close>

lemma epoch_insert: "n_epoch n \<le> n_epoch (snd (insert_token L u t n)) \<and> waits (snd (insert_token L u t n)) = waits n"
  by (auto simp: insert_token_def Let_def split: option.split)

lemma epoch_hgetall: "n_epoch n \<le> n_epoch (ntf_on_hgetall L v n) \<and> waits (ntf_on_hgetall L v n) = waits n"
proof (induction L v n rule: ntf_on_hgetall.induct)
  case (1 L u t v n)
  with epoch_insert [of n L u t] show ?case by auto
qed simp_all

text \<open>No wait is newer than the map.\<close>

definition epochs_ok :: "'j notifier \<Rightarrow> bool" where
  "epochs_ok n \<longleftrightarrow> (\<forall>wt \<in> set (waits n). wt_epoch wt \<le> n_epoch n)"

lemma epochs_grow: "epochs_ok n \<Longrightarrow> n_epoch n \<le> n_epoch n' \<Longrightarrow> waits n' = waits n \<Longrightarrow> epochs_ok n'"
  by (auto simp: epochs_ok_def intro: le_trans)

lemma epochs_cancel: "epochs_ok n \<Longrightarrow> epochs_ok (cancel_timer k n)"
  by (fastforce simp: epochs_ok_def dest: waits_cancel_iter)

lemma epochs_message: "epochs_ok n \<Longrightarrow> epochs_ok (snd (on_ntf_message L cfg j n))"
  by (auto simp: on_ntf_message_def Let_def split: option.split)
    (auto simp: epochs_ok_def dest!: waits_cancel_iter)

lemma epochs_publish: "epochs_ok n \<Longrightarrow> epochs_ok (snd (on_ntf_publish L cfg s n))"
proof -
  assume ok: "epochs_ok n"
  have "epochs_ok m" if "insert_token L u t n = (b, m)" for u t b m
    using that epochs_grow [OF ok, of m] epoch_insert [of n L u t] by simp
  moreover have "epochs_ok (v\<lparr>tokens := ts\<rparr>)" if "epochs_ok v" for v :: "'a notifier" and ts
    using that by (simp add: epochs_ok_def)
  moreover have "epochs_ok (erase_token u n)" for u
    using ok epochs_cancel calculation(2) by (auto simp: erase_token_def split: option.split)
  ultimately show ?thesis using epochs_message [OF ok, of L cfg] ok
    by (auto simp: on_ntf_publish_def split: option.splits prod.splits)
qed

lemma epochs_step: "ntf_step L cfg n e n' \<Longrightarrow> epochs_ok n \<Longrightarrow> epochs_ok n'"
proof (erule ntf_step.cases)
  fix v assume "n' = ntf_on_push L cfg v n" "epochs_ok n"
  then show "epochs_ok n'"
    by (auto simp: ntf_on_push_def on_ntf_del_def intro: epochs_publish epochs_cancel split: option.split)
next
  fix v assume "n' = ntf_on_hgetall L v n" "epochs_ok n"
  then show "epochs_ok n'" using epochs_grow epoch_hgetall [of n L v] by blast
next
  fix i assume i: "n' = expire_wait i n" "i < length (waits n)" "epochs_ok n"
  then show "epochs_ok n'" using nth_mem [OF i(2)]
    by (auto simp: epochs_ok_def expire_wait_def dest!: set_update_subset_insert [THEN subsetD])
next
  fix i assume "n' = on_timeout L cfg (waits n ! i) (n\<lparr>waits := erase_at i (waits n)\<rparr>)" "epochs_ok n"
  then show "epochs_ok n'" using set_erase_at_subset [of i "waits n"] by (auto simp: epochs_ok_def)
qed

lemma epochs_reach: "ntf_reach L cfg es n \<Longrightarrow> epochs_ok n"
proof (induction rule: ntf_reach.induct)
  case n_start
  show ?case by (simp add: epochs_ok_def new_notifier_def ntf_init_def)
qed (auto intro: epochs_step)

text \<open>A handler that is queued for an iterator that is not valid.\<close>

lemma handler_dangles:
  assumes "i < length (waits n)" "wt_state (waits n ! i) = Expired" "\<not> valid_iter (waits n ! i) n"
  shows "\<exists>n'. ntf_step L cfg n (N_handler i) n' \<and> dangling n'"
proof -
  let ?n = "on_timeout L cfg (waits n ! i) (n\<lparr>waits := erase_at i (waits n)\<rparr>)"
  have "ntf_step L cfg n (N_handler i) ?n" using assms(1,2) by (intro n_handler) simp_all
  moreover have "dangling ?n" using assms by (simp add: dangling_timeout)
  ultimately show ?thesis by blast
qed

lemma push_token:
  assumes "is_message v (n_redis_notify_channel cfg)" "jparse L (last v) = Some j"
    "at_str L j ''cmd'' = Some ''token''" "at_str L j ''user_id'' = Some u" "at_str L j ''token'' = Some t"
  shows "ntf_on_push L cfg v n =
    (if t = '''' then erase_token u n
     else if map_of (tokens n) u = None then snd (insert_token L u t n)
     else n\<lparr>tokens := map (\<lambda>(v, e). (v, if v = u then e\<lparr>u_token := t\<rparr> else e)) (tokens n)\<rparr>)"
proof -
  have "\<not> is_pmessage v redis_del_ntf"
    using assms(1) by (auto simp: is_message_def is_pmessage_def split: if_splits)
  with assms show ?thesis
    by (simp add: ntf_on_push_def on_ntf_publish_def insert_token_def Let_def split: option.split)
qed

lemma erased_invalid:
  assumes "ninv n" "map_of (tokens n) u = Some e" "i < length (waits n)"
    "wt_state (waits n ! i) = Expired" "wt_node (waits n ! i) = u_node e"
  shows "waits (erase_token u n) ! i = waits n ! i \<and> length (waits (erase_token u n)) = length (waits n)
    \<and> \<not> valid_iter (waits n ! i) (erase_token u n)"
proof -
  have "distinct (map fst (tokens n))" "distinct (map (\<lambda>(u, e). u_node e) (tokens n))"
    using assms(1) by (simp_all add: ninv_def)
  from delete_nodes [OF this assms(2)] have "u_node e \<notin> nodes (erase_token u n)"
    by (simp add: erase_token_def assms(2)) (simp add: nodes_def)
  with assms show ?thesis by (simp add: erase_token_def cancel_timer_def valid_iter_def)
qed

lemma rehash_invalid:
  assumes "table_laws L" "epochs_ok n" "map_of (tokens n) u = None" "n_buckets n \<le> length (tokens n)"
    "wt \<in> set (waits n)"
  shows "waits (snd (insert_token L u t n)) = waits n \<and> wt_epoch wt < n_epoch (snd (insert_token L u t n))"
proof -
  let ?b = "hash_grow L (n_buckets n) (Suc (length (tokens n)))"
  have "Suc (length (tokens n)) \<le> ?b" using assms(1) by (simp add: table_laws_def)
  then have "?b \<noteq> n_buckets n" using assms(4) by simp
  moreover have "wt_epoch wt \<le> n_epoch n" using assms(2,5) by (simp add: epochs_ok_def)
  ultimately show ?thesis using assms(3) by (simp add: insert_token_def Let_def)
qed

text \<open>C34: a token message makes the timer handler of a pending notification follow an invalid iterator, in
  two ways. If the timer has run out and its handler has not run, an empty token for that user is
  enough: it erases the entry. And while the timer still runs, or has run out, the token of any new
  user is enough when the map has as many entries as buckets: the insertion rehashes it.\<close>

theorem dangling_iterator_reached:
  assumes "table_laws L" "ntf_reach L cfg es n" "i < length (waits n)"
    "is_message v (n_redis_notify_channel cfg)" "jparse L (last v) = Some j"
    "at_str L j ''cmd'' = Some ''token''" "at_str L j ''user_id'' = Some u" "at_str L j ''token'' = Some t"
    "wt_state (waits n ! i) = Expired \<and> t = '''' \<and>
       (\<exists>e. map_of (tokens n) u = Some e \<and> wt_node (waits n ! i) = u_node e)
     \<or> wt_state (waits n ! i) \<noteq> Aborted \<and> t \<noteq> '''' \<and> map_of (tokens n) u = None \<and>
       n_buckets n \<le> length (tokens n)"
  shows "\<exists>n\<^sub>1 n\<^sub>2 n\<^sub>3. ntf_step L cfg n (N_push v) n\<^sub>1
    \<and> (if wt_state (waits n ! i) = Armed then ntf_step L cfg n\<^sub>1 (N_expire i) n\<^sub>2 else n\<^sub>2 = n\<^sub>1)
    \<and> ntf_step L cfg n\<^sub>2 (N_handler i) n\<^sub>3 \<and> dangling n\<^sub>3"
  using assms(9)
proof
  assume e: "wt_state (waits n ! i) = Expired \<and> t = '''' \<and>
    (\<exists>e. map_of (tokens n) u = Some e \<and> wt_node (waits n ! i) = u_node e)"
  then have n1: "ntf_on_push L cfg v n = erase_token u n" by (simp add: push_token [OF assms(4-8)])
  obtain n\<^sub>3 where "ntf_step L cfg (erase_token u n) (N_handler i) n\<^sub>3 \<and> dangling n\<^sub>3"
    using e erased_invalid [OF ninv_reach [OF assms(2)] _ assms(3)]
      handler_dangles [of i "erase_token u n" L cfg] assms(3) by force
  with e n_push [of L cfg n v] show ?thesis by (auto simp: n1)
next
  let ?m = "snd (insert_token L u t n)"
  assume e: "wt_state (waits n ! i) \<noteq> Aborted \<and> t \<noteq> '''' \<and> map_of (tokens n) u = None \<and>
    n_buckets n \<le> length (tokens n)"
  then have n1: "ntf_on_push L cfg v n = ?m" by (simp add: push_token [OF assms(4-8)])
  have m: "waits ?m = waits n" "\<not> valid_iter (waits n ! i) ?m"
    using rehash_invalid [OF assms(1) epochs_reach [OF assms(2)], of u "waits n ! i" t] e assms(3)
    by (auto simp: valid_iter_def)
  show ?thesis
  proof (cases "wt_state (waits n ! i)")
    case Armed
    let ?x = "expire_wait i ?m"
    have "waits ?x ! i = (waits n ! i)\<lparr>wt_state := Expired\<rparr>" "length (waits ?x) = length (waits n)"
      "n_epoch ?x = n_epoch ?m" "nodes ?x = nodes ?m"
      using m(1) assms(3) by (simp_all add: expire_wait_def)
    with m(2) obtain n\<^sub>3 where "ntf_step L cfg ?x (N_handler i) n\<^sub>3 \<and> dangling n\<^sub>3"
      using handler_dangles [of i ?x L cfg] assms(3) by (auto simp: valid_iter_def)
    moreover have "ntf_step L cfg ?m (N_expire i) ?x"
      using m(1) assms(3) Armed by (intro n_expire) simp_all
    ultimately show ?thesis using Armed n_push [of L cfg n v] by (auto simp: n1)
  next
    case Expired
    then obtain n\<^sub>3 where "ntf_step L cfg ?m (N_handler i) n\<^sub>3 \<and> dangling n\<^sub>3"
      using handler_dangles [of i ?m L cfg] m assms(3) by auto
    with Expired n_push [of L cfg n v] show ?thesis by (auto simp: n1)
  qed (use e in simp)
qed

theorem dangling_iterator_reached_witness:
  "\<exists>n\<^sub>1 n\<^sub>2 n\<^sub>3. ntf_step ref_lib sample_ntf with_message (N_push (token_push ''bob'' ''t2'')) n\<^sub>1
     \<and> ntf_step ref_lib sample_ntf n\<^sub>1 (N_expire 0) n\<^sub>2 \<and> ntf_step ref_lib sample_ntf n\<^sub>2 (N_handler 0) n\<^sub>3
     \<and> dangling n\<^sub>3"
proof -
  have w: "0 < length (waits with_message)" "wt_state (waits with_message ! 0) = Armed"
    "map_of (tokens with_message) ''bob'' = None" "n_buckets with_message \<le> length (tokens with_message)"
    by (simp_all add: with_message_eq with_token_eq)
  have v: "is_message (token_push ''bob'' ''t2'') (n_redis_notify_channel sample_ntf)"
    "jparse ref_lib (last (token_push ''bob'' ''t2'')) = Some (token_msg ref_lib ''bob'' ''t2'')"
    by (simp_all add: token_push_def is_message_def)
  from dangling_iterator_reached [OF ref_table_laws with_message_run w(1) v token_json_at] w(2-4)
  show ?thesis by simp
qed

end
