(* ===== verification/Spec2Isabelle.thy ===== *)
theory Spec2Isabelle
  imports Connection Subscriptions Offline_Run Replicas Notifier_Iterators
begin

text \<open>
  The occase server and its push notifier.

  \<^bold>\<open>The system.\<close> \<open>occase-db\<close> (\<open>src/occase-db.cpp\<close>) is a single-threaded server, of which several
  nodes may run. Apps talk to it over websockets (login, chat messages, presence, publishing) and
  over HTTP (search, publish, delete, upload credit, statistics). The nodes share nothing but a
  redis database: posts are kept there and broadcast on a channel, chat messages for users without
  a session are stored there under the key of the user, and key events tell a node to fetch them.
  \<open>occase-notify\<close> (\<open>src/occase-notify.cpp\<close>) listens on redis and sends a push notification for a
  message nobody fetched in time.

  \<^bold>\<open>The theories and the code.\<close>

  \<^item> Prelude: the \<open>named_theorems\<close>, machine integers, \<open>std::lower_bound\<close> and its relatives as
    halving searches, \<open>std::rotate\<close>, \<open>std::stoi\<close>, \<open>std::string::substr\<close>.
  \<^item> Extern: the third-party code as a record of functions with its laws (nlohmann::json, the keyed
    hash of libsodium, the random numbers), and the growth of \<open>std::unordered_map\<close>. Reference_Json: an instance, for the witnesses.
  \<^item> Crypto, Post, Config: \<open>crypto.cpp\<close>, \<open>post.hpp\<close> and \<open>post.cpp\<close>, \<open>config.hpp\<close> and
    \<open>logger.hpp\<close>.
  \<^item> Channel: \<open>channel.cpp\<close>, the sorted vector of posts. The locale \<open>post_store\<close> states what the
    worker relies on, and is interpreted on the operations of the code.
  \<^item> Ws_Session: \<open>ws_session.hpp\<close>. A stream is the list of asynchronous operations outstanding on
    it; the locale of the message queue is interpreted on \<open>send\<close>, \<open>on_write\<close> and the rest.
  \<^item> Worker_State, Worker, Worker_Db: \<open>worker.hpp\<close> and \<open>worker.cpp\<close>, every handler whole; an
    exception is \<open>None\<close> beside the state reached. Weak pointers are session numbers, locked by
    looking them up in the heap; an assertion that fails sets \<open>crashed\<close>.
  \<^item> Http_Session: the request handlers of \<open>http_session_impl.hpp\<close>. Connection: the life of the
    connection around them (\<open>acceptor_mgr.cpp\<close>, \<open>http_ssl_session.cpp\<close>, \<open>http_plain_session.hpp\<close>).
  \<^item> System: one node as a step relation whose events are the completions of its event loop, and the
    loss of answers with the connection to redis.
    Worker_Inv, Worker_Table and System_Inv carry its invariant: what a handler may change
    (\<open>quiet\<close>), the exact table of logged in users, the queue of pending reads, the disciplined
    streams.
  \<^item> Notifier: \<open>notifier.cpp\<close> and \<open>ntf_session.cpp\<close>; a timer is the list of waits started on it,
    each armed, expired or aborted, so that an expired wait whose handler is still queued exists. The
    iterator a handler has captured is a node of the map and the count of its rehashes at that time.
  \<^item> Mailbox: the reads of stored messages in the commands of a node. Cluster: any number of nodes
    beside one redis as an interleaving of their steps with the execution of single commands; the
    history of what redis executed is part of the state.
  \<^item> Post_Writes: the order in which a node changes the posts in redis. Post_Feed: the cluster with
    the hash of the posts, the posts channel and what is under way to each node. Stored_Posts, Post_Runs,
    Replicas: nodes as replicas of that hash, on the locale \<open>viewed_store\<close>, which extends \<open>post_store\<close>.
  \<^item> Programs: the options and the main functions of both programs and \<open>load_ssl\<close> of \<open>net.cpp\<close>.
  \<^item> Clients: the test programs \<open>occase-db-tests.cpp\<close> and \<open>notify-test.cpp\<close> and the \<open>set_fd_limits\<close>
    of \<open>system.cpp\<close> they start with. A coroutine is the tree of the operations it awaits.
    Clients_Facts, Client_Run, Offline_Run: these coroutines against the model of the server, each
    awaited operation an effect on the cluster.

  \<^bold>\<open>What is shown.\<close>

  \<^item> Node: in every reachable state the table of users is exact, an answer to LRANGE belongs to the
    entry of the queue behind those of the answers that were lost, the statistics are right, at most
    one write, read and close is outstanding on a stream; under well-formed data of redis the
    process ends only in the handler of the visualisations, for two causes stated exactly. Session_End: a session being closed
    ends after at most three failing completions, whatever the rest of the node does.
    Subscriptions: the channels a node has asked redis for follow its table of users, and are
    forgotten when the connection to redis is made anew.
  \<^item> Refinement: every run of a node is, event for event, a run of an abstract machine that has
    only live connections, the map from users to connections and the multiset of posts.
  \<^item> Messages, Delivery: the effect of a login, of chat messages to users here and elsewhere, of
    the end of a session and of the answers of redis; what is rejected, and what a session that was
    replaced loses; the shutdown.
  \<^item> Cluster: what happens to the list of stored messages of one user under all interleavings of
    nodes that keep their connections: unless something comes between a read and the deletion after
    it, everything is handed out once and in order or dropped when its time to live has passed; how a
    login on a node at rest collects all of it; an interleaving in which a message is lost.
  \<^item> Replicas: every node that has read what it was sent holds exactly the posts kept in redis, if
    the history is \<open>orderly\<close> (the pairs of commands on the posts do not overlap, nodes load once, and
    more), and answers searches alike; a node that starts while another publishes can miss the post
    or have it twice.
  \<^item> Publishing: what publishing and deleting do on all nodes, and where they go wrong.
  \<^item> Http_Facts, Connection: routes, errors, responses, searches, upload credit; every HTTP
    connection ends and has a time limit until then.
  \<^item> Notifier_Facts, Notifications: the invariant of entries and timers, and the way of a token and of
    a message from the server through redis to a notification. Notifier_Iterators: when the iterators
    of the timer handlers are valid, and how they become invalid. Programs: the two programs meet on the same channel.
  \<^item> Clients_Facts, Client_Run, Offline_Run: client and server read what the other writes, and the
    scenarios of the test client can succeed, on a schedule that is given: the unit tests, the
    conversation of a publisher and a replier for any number of rounds, and, against every server at
    rest, the message for a user who logs in later, from the first request on.

  \<^bold>\<open>What the handlers are given.\<close> The system clock, the results of asynchronous operations, what
  redis sends and what the option parser read are arguments of events and definitions. The theorems
  on every reachable state hold for all of them; only the account of crashes assumes what redis
  guarantees (\<open>wf_event\<close>), the validity of iterators what the C++ standard says of rehashing
  (\<open>table_laws\<close>), and what becomes of stored messages assumes the documented behaviour of
  the commands on lists (\<open>redis_laws\<close>), what becomes of posts that of the commands on hashes
  (\<open>hset_laws\<close>). No fuel is used: every loop of the program is structural or
  has a measure, and the lives of connections end by a rank that bounds them by five completions.

  \<^bold>\<open>Not modelled.\<close> Encodings on the wire (websocket frames, the redis protocol, TLS), the values of
  time limits as time, the log lines of the servers (the filter is modelled), and the files that
  only include or name library code (\<open>asio.cpp\<close>, \<open>aedis.cpp\<close>, \<open>release.hpp\<close>, \<open>net.hpp\<close>). The
  integers of the source keep their width; sizes of containers are natural numbers.
\<close>

end
